(* ===== verification/Prelude.thy ===== *)
theory Prelude
  imports Main "HOL-Library.Word" "HOL-Library.AList" "HOL-Library.Product_Lexorder"
begin

text \<open>
  Shared vocabulary of the development: Rust's fixed-width integers and their checked and
  saturating operations, the two 32-byte identifier types, and the association-list models
  of \<open>HashMap\<close>, \<open>HashSet\<close> and \<open>BTreeMap\<close>.

  A \<open>HashMap\<close> is an association list with distinct keys. The order of the list stands for
  the map's unspecified iteration order, and statements quantify over every such list.
  A \<open>HashSet\<close> is a list without repetitions, read the same way. A \<open>BTreeMap\<close> is an
  association list that is strictly sorted by key, so that list order is its iteration order.
\<close>

named_theorems word_ops \<open>checked and saturating machine arithmetic\<close>
named_theorems runtime_defs \<open>unfolding rules of the actor runtime\<close>
named_theorems swim_defs \<open>unfolding rules of the SWIM state machines\<close>
named_theorems gossip_defs \<open>unfolding rules of the gossip tables\<close>
named_theorems arena_defs \<open>unfolding rules of the arena allocator\<close>

section \<open>Machine integers\<close>

type_synonym u8 = "8 word"
type_synonym u16 = "16 word"
type_synonym u32 = "32 word"
type_synonym u64 = "64 word"

definition checked_add :: "'a::len word \<Rightarrow> 'a word \<Rightarrow> 'a word option" where
  "checked_add a b = (if unat a + unat b < 2 ^ LENGTH('a) then Some (a + b) else None)"

definition checked_mul :: "'a::len word \<Rightarrow> 'a word \<Rightarrow> 'a word option" where
  "checked_mul a b = (if unat a * unat b < 2 ^ LENGTH('a) then Some (a * b) else None)"

definition saturating_add :: "'a::len word \<Rightarrow> 'a word \<Rightarrow> 'a word" where
  "saturating_add a b = (if unat a + unat b < 2 ^ LENGTH('a) then a + b else - 1)"

definition saturating_sub :: "'a::len word \<Rightarrow> 'a word \<Rightarrow> 'a word" where
  "saturating_sub a b = (if b \<le> a then a - b else 0)"

lemma checked_add_Some [word_ops]:
  "checked_add a b = Some c \<longleftrightarrow> unat a + unat b < 2 ^ LENGTH('a) \<and> c = a + b"
  for a b c :: "'a::len word"
  by (auto simp: checked_add_def)

lemma checked_mul_Some [word_ops]:
  "checked_mul a b = Some c \<longleftrightarrow> unat a * unat b < 2 ^ LENGTH('a) \<and> c = a * b"
  for a b c :: "'a::len word"
  by (auto simp: checked_mul_def)

lemma unat_checked_add:
  "checked_add a b = Some c \<Longrightarrow> unat c = unat a + unat b"
  by (simp add: word_ops unat_word_ariths)

lemma unat_checked_mul:
  "checked_mul a b = Some c \<Longrightarrow> unat c = unat a * unat b"
  by (simp add: word_ops unat_word_ariths)

lemma unat_saturating_sub: "unat (saturating_sub a b) = unat a - unat b"
  by (auto simp: saturating_sub_def unat_sub word_le_nat_alt)

lemma unat_Suc_word: "a \<noteq> - 1 \<Longrightarrow> unat (a + 1) = Suc (unat a)"
  for a :: "'a::len word"
  by (metis add.commute add_eq_0_iff unatSuc)

lemma less_Suc_word: "a \<noteq> - 1 \<Longrightarrow> a < a + 1"
  for a :: "'a::len word"
  by (simp add: word_less_nat_alt unat_Suc_word)

section \<open>Identifiers\<close>

text \<open>
  A node identifier and an actor address are 32 bytes each. Rust compares byte arrays
  lexicographically, which is the numeric order of the big-endian 256-bit value.
\<close>

datatype node_id = NodeId "256 word"

datatype actor_address = ActorAddress "256 word"

instantiation node_id :: linorder
begin

fun less_eq_node_id :: "node_id \<Rightarrow> node_id \<Rightarrow> bool" where
  "less_eq_node_id (NodeId a) (NodeId b) = (a \<le> b)"

fun less_node_id :: "node_id \<Rightarrow> node_id \<Rightarrow> bool" where
  "less_node_id (NodeId a) (NodeId b) = (a < b)"

instance
proof
  fix x y z :: node_id
  show "(x < y) = (x \<le> y \<and> \<not> y \<le> x)" by (cases x; cases y) auto
  show "x \<le> x" by (cases x) simp
  show "x \<le> y \<Longrightarrow> y \<le> z \<Longrightarrow> x \<le> z" by (cases x; cases y; cases z) simp
  show "x \<le> y \<Longrightarrow> y \<le> x \<Longrightarrow> x = y" by (cases x; cases y) simp
  show "x \<le> y \<or> y \<le> x" by (cases x; cases y) auto
qed

end

section \<open>Collections\<close>

abbreviation hm_insert :: "'k \<Rightarrow> 'v \<Rightarrow> ('k \<times> 'v) list \<Rightarrow> ('k \<times> 'v) list" where
  "hm_insert \<equiv> AList.update"

abbreviation hm_remove :: "'k \<Rightarrow> ('k \<times> 'v) list \<Rightarrow> ('k \<times> 'v) list" where
  "hm_remove \<equiv> AList.delete"

abbreviation hm_keys :: "('k \<times> 'v) list \<Rightarrow> 'k list" where
  "hm_keys \<equiv> map fst"

abbreviation hm_inv :: "('k \<times> 'v) list \<Rightarrow> bool" where
  "hm_inv m \<equiv> distinct (map fst m)"

fun bt_insert :: "'k::linorder \<Rightarrow> 'v \<Rightarrow> ('k \<times> 'v) list \<Rightarrow> ('k \<times> 'v) list" where
  "bt_insert k v [] = [(k, v)]"
| "bt_insert k v ((k', v') # m) =
     (if k < k' then (k, v) # (k', v') # m
      else if k = k' then (k, v) # m
      else (k', v') # bt_insert k v m)"

definition bt_remove :: "'k \<Rightarrow> ('k \<times> 'v) list \<Rightarrow> ('k \<times> 'v) list" where
  "bt_remove k m = filter (\<lambda>(k', v). k' \<noteq> k) m"

abbreviation bt_inv :: "('k::linorder \<times> 'v) list \<Rightarrow> bool" where
  "bt_inv m \<equiv> sorted_wrt (<) (map fst m)"

lemma set_hm_insert_subset: "set (hm_insert k v m) \<subseteq> insert (k, v) (set m)"
  by (induction m) auto

lemma map_of_bt_insert [simp]: "map_of (bt_insert k v m) = (map_of m)(k \<mapsto> v)"
  by (induction m) (auto simp: fun_eq_iff)

lemma set_keys_bt_insert [simp]: "fst ` set (bt_insert k v m) = insert k (fst ` set m)"
  by (induction k v m rule: bt_insert.induct) auto

lemma bt_inv_insert [simp]: "bt_inv m \<Longrightarrow> bt_inv (bt_insert k v m)"
  by (induction k v m rule: bt_insert.induct) auto

lemma map_of_bt_remove [simp]: "map_of (bt_remove k m) = (map_of m)(k := None)"
  by (induction m) (auto simp: bt_remove_def fun_eq_iff)

lemma bt_inv_filter [simp]: "bt_inv m \<Longrightarrow> bt_inv (filter P m)"
  by (induction m) auto

lemma bt_inv_remove [simp]: "bt_inv m \<Longrightarrow> bt_inv (bt_remove k m)"
  by (simp add: bt_remove_def)

lemma bt_inv_distinct: "bt_inv m \<Longrightarrow> distinct (map fst m)"
  by (simp add: strict_sorted_iff)

lemma alist_recover: "distinct (map fst m) \<Longrightarrow> map (\<lambda>k. (k, the (map_of m k))) (map fst m) = m"
  by (auto simp: comp_def intro!: map_idI)

text \<open>Two sorted maps with the same lookups are the same list.\<close>

lemma bt_map_of_inject:
  assumes "bt_inv m" and "bt_inv m'" and "map_of m = map_of m'"
  shows "m = m'"
proof -
  have "set (map fst m) = set (map fst m')"
    using assms(3) by (metis dom_map_of_conv_image_fst list.set_map)
  then have "map fst m = map fst m'"
    using assms(1,2) strict_sorted_equal by blast
  then show ?thesis
    using alist_recover [OF bt_inv_distinct, OF assms(1)]
      alist_recover [OF bt_inv_distinct, OF assms(2)] assms(3) by simp
qed

end
