(* ===== verification/Hybrid_Channel.thy ===== *)
theory Hybrid_Channel
  imports Prelude
begin

text \<open>
  The channel every queue of the runtime is built from (\<open>src/channel.rs\<close>): a bounded ring
  backed by an unbounded overflow queue. The two queues come from the \<open>crossbeam_queue\<close>
  package, so their operations are parameters (\<open>array_queue\<close>, \<open>seg_queue\<close>) and the
  documented behaviour the channel relies on is the locale \<open>crossbeam\<close>: both are FIFO, the
  ring refuses a push exactly when it is full. The result is that a channel is a FIFO queue
  without loss or duplication, whatever the capacity of the ring.
\<close>

record ('r, 'a) array_queue =
  aq_push :: "'r \<Rightarrow> 'a \<Rightarrow> 'r option"
  aq_pop :: "'r \<Rightarrow> ('a \<times> 'r) option"
  aq_is_empty :: "'r \<Rightarrow> bool"

record ('o, 'a) seg_queue =
  sq_new :: 'o
  sq_push :: "'o \<Rightarrow> 'a \<Rightarrow> 'o"
  sq_pop :: "'o \<Rightarrow> ('a \<times> 'o) option"
  sq_is_empty :: "'o \<Rightarrow> bool"

record ('r, 'o) hybrid_channel =
  ring :: 'r
  overflow :: 'o

definition channel_new :: "(nat \<Rightarrow> 'r) \<Rightarrow> ('o, 'a) seg_queue \<Rightarrow> nat \<Rightarrow> ('r, 'o) hybrid_channel" where
  "channel_new aq_new sq capacity = \<lparr>ring = aq_new capacity, overflow = sq_new sq\<rparr>"

definition channel_push ::
  "('r, 'a) array_queue \<Rightarrow> ('o, 'a) seg_queue \<Rightarrow> ('r, 'o) hybrid_channel \<Rightarrow> 'a
    \<Rightarrow> ('r, 'o) hybrid_channel" where
  "channel_push aq sq c value =
     (if \<not> sq_is_empty sq (overflow c)
      then c\<lparr>overflow := sq_push sq (overflow c) value\<rparr>
      else case aq_push aq (ring c) value of
             None \<Rightarrow> c\<lparr>overflow := sq_push sq (overflow c) value\<rparr>
           | Some r \<Rightarrow> c\<lparr>ring := r\<rparr>)"

definition channel_pop ::
  "('r, 'a) array_queue \<Rightarrow> ('o, 'a) seg_queue \<Rightarrow> ('r, 'o) hybrid_channel
    \<Rightarrow> 'a option \<times> ('r, 'o) hybrid_channel" where
  "channel_pop aq sq c =
     (case aq_pop aq (ring c) of
        Some (v, r) \<Rightarrow> (Some v, c\<lparr>ring := r\<rparr>)
      | None \<Rightarrow> (case sq_pop sq (overflow c) of
                   Some (v, q) \<Rightarrow> (Some v, c\<lparr>overflow := q\<rparr>)
                 | None \<Rightarrow> (None, c)))"

definition channel_is_empty ::
  "('r, 'a) array_queue \<Rightarrow> ('o, 'a) seg_queue \<Rightarrow> ('r, 'o) hybrid_channel \<Rightarrow> bool" where
  "channel_is_empty aq sq c \<longleftrightarrow> aq_is_empty aq (ring c) \<and> sq_is_empty sq (overflow c)"

text \<open>The specification: a channel is the list of the values it holds, oldest first.\<close>

datatype 'a channel_op = Push 'a | Pop

fun fifo_run :: "'a list \<Rightarrow> 'a channel_op list \<Rightarrow> 'a option list \<times> 'a list" where
  "fifo_run q [] = ([], q)"
| "fifo_run q (Push v # ops) = fifo_run (q @ [v]) ops"
| "fifo_run [] (Pop # ops) = (let (out, q') = fifo_run [] ops in (None # out, q'))"
| "fifo_run (v # q) (Pop # ops) = (let (out, q') = fifo_run q ops in (Some v # out, q'))"

fun channel_run ::
  "('r, 'a) array_queue \<Rightarrow> ('o, 'a) seg_queue \<Rightarrow> ('r, 'o) hybrid_channel \<Rightarrow> 'a channel_op list
    \<Rightarrow> 'a option list \<times> ('r, 'o) hybrid_channel" where
  "channel_run aq sq c [] = ([], c)"
| "channel_run aq sq c (Push v # ops) = channel_run aq sq (channel_push aq sq c v) ops"
| "channel_run aq sq c (Pop # ops) =
     (case channel_pop aq sq c of (r, c') \<Rightarrow>
        let (out, c'') = channel_run aq sq c' ops in (r # out, c''))"

text \<open>
  What the package documents. \<open>ring_items\<close> and \<open>seg_items\<close> are the contents, oldest first, and
  \<open>ring_cap\<close> is the capacity a ring was created with.
\<close>

locale crossbeam =
  fixes aq :: "('r, 'a) array_queue" and sq :: "('o, 'a) seg_queue"
    and aq_new :: "nat \<Rightarrow> 'r"
    and ring_items :: "'r \<Rightarrow> 'a list" and ring_cap :: "'r \<Rightarrow> nat" and seg_items :: "'o \<Rightarrow> 'a list"
  assumes aq_new_items: "ring_items (aq_new n) = []"
    and aq_push_Some: "aq_push aq r v = Some r' \<Longrightarrow> ring_items r' = ring_items r @ [v]"
    and aq_push_None: "aq_push aq r v = None \<longleftrightarrow> ring_cap r \<le> length (ring_items r)"
    and aq_pop_items: "aq_pop aq r = (case ring_items r of [] \<Rightarrow> None | v # vs \<Rightarrow>
        Some (v, snd (the (aq_pop aq r))))"
    and aq_pop_rest: "aq_pop aq r = Some (v, r') \<Longrightarrow> ring_items r' = tl (ring_items r)"
    and aq_empty: "aq_is_empty aq r \<longleftrightarrow> ring_items r = []"
    and sq_new_items: "seg_items (sq_new sq) = []"
    and sq_push_items: "seg_items (sq_push sq q v) = seg_items q @ [v]"
    and sq_pop_items: "sq_pop sq q = (case seg_items q of [] \<Rightarrow> None | v # vs \<Rightarrow>
        Some (v, snd (the (sq_pop sq q))))"
    and sq_pop_rest: "sq_pop sq q = Some (v, q') \<Longrightarrow> seg_items q' = tl (seg_items q)"
    and sq_empty: "sq_is_empty sq q \<longleftrightarrow> seg_items q = []"
begin

definition items :: "('r, 'o) hybrid_channel \<Rightarrow> 'a list" where
  "items c = ring_items (ring c) @ seg_items (overflow c)"

lemma items_new: "items (channel_new aq_new sq n) = []"
  by (simp add: items_def channel_new_def aq_new_items sq_new_items)

lemma items_push: "items (channel_push aq sq c v) = items c @ [v]"
  by (auto simp: items_def channel_push_def sq_push_items sq_empty dest: aq_push_Some
      split: option.splits)

lemma items_pop_Nil: "items c = [] \<Longrightarrow> channel_pop aq sq c = (None, c)"
  using aq_pop_items [of "ring c"] sq_pop_items [of "overflow c"]
  by (auto simp: items_def channel_pop_def)

lemma items_pop_Cons:
  assumes "items c = v # vs"
  shows "fst (channel_pop aq sq c) = Some v \<and> items (snd (channel_pop aq sq c)) = vs"
proof (cases "ring_items (ring c)")
  case Nil
  then have "seg_items (overflow c) = v # vs" using assms by (simp add: items_def)
  with Nil obtain q where q: "aq_pop aq (ring c) = None" "sq_pop sq (overflow c) = Some (v, q)"
    using aq_pop_items [of "ring c"] sq_pop_items [of "overflow c"] by auto
  with Nil \<open>seg_items (overflow c) = v # vs\<close> show ?thesis
    using sq_pop_rest [OF q(2)] by (simp add: items_def channel_pop_def)
next
  case (Cons w ws)
  then obtain r where r: "aq_pop aq (ring c) = Some (w, r)"
    using aq_pop_items [of "ring c"] by auto
  with Cons assms show ?thesis
    using aq_pop_rest [OF r] by (auto simp: items_def channel_pop_def)
qed

lemma is_empty_items: "channel_is_empty aq sq c \<longleftrightarrow> items c = []"
  by (simp add: channel_is_empty_def items_def aq_empty sq_empty)

lemma run_refines:
  "fst (channel_run aq sq c ops) = fst (fifo_run (items c) ops) \<and>
   items (snd (channel_run aq sq c ops)) = snd (fifo_run (items c) ops)"
proof (induction ops arbitrary: c)
  case Nil
  then show ?case by simp
next
  case (Cons op ops)
  show ?case
  proof (cases op)
    case (Push v)
    then show ?thesis using Cons.IH [of "channel_push aq sq c v"] by (simp add: items_push)
  next
    case Pop
    obtain r c' where p: "channel_pop aq sq c = (r, c')" by fastforce
    show ?thesis
    proof (cases "items c")
      case Nil
      then show ?thesis using Pop Cons.IH [of c] items_pop_Nil [OF Nil] by (auto simp: Let_def split: prod.splits)
    next
      case (Cons v vs)
      then show ?thesis using Pop Cons.IH [of c'] items_pop_Cons [OF Cons] p
        by (auto simp: Let_def split: prod.splits)
    qed
  qed
qed

end

text \<open>A concrete pair of queues with that behaviour: lists, the ring with its capacity.\<close>

definition list_ring :: "(nat \<times> 'a list, 'a) array_queue" where
  "list_ring = \<lparr>aq_push = (\<lambda>(n, xs) v. if length xs < n then Some (n, xs @ [v]) else None),
     aq_pop = (\<lambda>(n, xs). case xs of [] \<Rightarrow> None | v # vs \<Rightarrow> Some (v, (n, vs))),
     aq_is_empty = (\<lambda>(n, xs). xs = [])\<rparr>"

definition list_seg :: "('a list, 'a) seg_queue" where
  "list_seg = \<lparr>sq_new = [], sq_push = (\<lambda>q v. q @ [v]),
     sq_pop = (\<lambda>q. case q of [] \<Rightarrow> None | v # vs \<Rightarrow> Some (v, vs)), sq_is_empty = (\<lambda>q. q = [])\<rparr>"

interpretation list_channel: crossbeam list_ring list_seg "\<lambda>n. (n, [])" snd fst id
  by unfold_locales (auto simp: list_ring_def list_seg_def split: list.splits if_splits)

section \<open>Properties\<close>

text \<open>C4. A channel of any ring capacity is a FIFO queue: any sequence of pushes and pops on a new
  channel returns exactly what the unbounded list queue returns, so overflowing the ring neither
  loses, duplicates nor reorders values.\<close>

theorem channel_is_fifo:
  assumes "crossbeam aq sq aq_new ring_items ring_cap seg_items"
  shows "fst (channel_run aq sq (channel_new aq_new sq capacity) ops) = fst (fifo_run [] ops)"
  using crossbeam.run_refines [OF assms, of "channel_new aq_new sq capacity" ops]
    crossbeam.items_new [OF assms] by simp

theorem channel_is_fifo_witness:
  "fst (channel_run list_ring list_seg (channel_new (\<lambda>n. (n, [])) list_seg 1)
     [Push 1, Push 2, Pop, Push (3 :: nat), Pop, Pop, Pop]) = [Some 1, Some 2, Some 3, None]"
  using channel_is_fifo [OF list_channel.crossbeam_axioms, of 1
      "[Push 1, Push 2, Pop, Push (3 :: nat), Pop, Pop, Pop]"] by simp

end
