(* ===== verification/Actor_Types.thy ===== *)
theory Actor_Types
  imports Prelude
begin

text \<open>
  The values the runtime moves around (\<open>src/actor.rs\<close>, \<open>src/admin.rs\<close>): exit reasons and death
  notifications, the type-erased message \<open>Box<dyn Any + Send>\<close> as the datatype \<open>any\<close> (user
  messages of type \<open>'m\<close>, the sentinels the runtime intercepts, the notifications and the admin
  replies it builds), the inherited environment, and the capability sets checked by \<open>Ctx\<close>.

  An \<open>ExitValue\<close> is opaque to the runtime, which only moves the \<open>Arc\<close>: it is a token.
  A \<open>TypeId\<close> is the type's name.
\<close>

type_synonym exit_value = nat
type_synonym type_id = string
type_synonym error = string
type_synonym worker_id = nat

datatype exit_reason = ExitStopped | ExitPanicked | ExitNodeDown | ExitCompleted

datatype stop_reason = StopNormal | StopPanicked | StopCompleted

record actor_exited =
  ae_addr :: actor_address
  ae_reason :: exit_reason
  ae_exit_value :: "exit_value option"

record down =
  down_addr :: actor_address
  down_reason :: stop_reason
  down_exit_value :: "exit_value option"

section \<open>Administration values\<close>

datatype admin_error =
    ActorNotFound actor_address
  | AddressMismatch actor_address actor_address
  | TypeMismatch string string string string
  | Timeout

record actor_status =
  st_started :: bool
  st_suspended :: bool
  st_stopping :: bool
  st_poisoned :: bool

record actor_summary =
  sum_address :: actor_address
  sum_actor_type :: string
  sum_message_type :: string
  sum_worker_id :: worker_id
  sum_parent :: "actor_address option"
  sum_mailbox_depth :: nat
  sum_status :: actor_status
  sum_last_message_type :: "string option"
  sum_messages_handled :: nat

datatype admin_reply =
    OperationReply "admin_error + bool"
  | InspectReply "admin_error + actor_summary"
  | ListReply "actor_summary list"

section \<open>Type-erased messages\<close>

datatype 'm any =
    User 'm
  | DownMsg down
  | ActorExitedMsg actor_exited
  | StopSignal
  | StopWithSignal exit_value
  | ResumeSignal
  | AdminReplyMsg admin_reply

section \<open>Capabilities and environments\<close>

record capability_set =
  send_any_caps :: "actor_address list"
  send_typed_caps :: "(type_id \<times> actor_address) list"
  can_spawn :: bool
  service_types :: "type_id list"
  monitor_targets :: "actor_address list"

definition caps_new :: capability_set where
  "caps_new = \<lparr>send_any_caps = [], send_typed_caps = [], can_spawn = False, service_types = [],
     monitor_targets = []\<rparr>"

definition with_send :: "capability_set \<Rightarrow> actor_address \<Rightarrow> capability_set" where
  "with_send c addr = c\<lparr>send_any_caps := List.insert addr (send_any_caps c)\<rparr>"

definition with_send_typed :: "capability_set \<Rightarrow> type_id \<Rightarrow> actor_address \<Rightarrow> capability_set" where
  "with_send_typed c m addr = c\<lparr>send_typed_caps := List.insert (m, addr) (send_typed_caps c)\<rparr>"

definition with_spawn :: "capability_set \<Rightarrow> capability_set" where
  "with_spawn c = c\<lparr>can_spawn := True\<rparr>"

definition with_service :: "capability_set \<Rightarrow> type_id \<Rightarrow> capability_set" where
  "with_service c s = c\<lparr>service_types := List.insert s (service_types c)\<rparr>"

definition with_monitor :: "capability_set \<Rightarrow> actor_address \<Rightarrow> capability_set" where
  "with_monitor c addr = c\<lparr>monitor_targets := List.insert addr (monitor_targets c)\<rparr>"

definition check_send :: "capability_set \<Rightarrow> type_id \<Rightarrow> actor_address \<Rightarrow> error + unit" where
  "check_send c m addr =
     (if addr \<in> set (send_any_caps c) then Inr ()
      else if (m, addr) \<in> set (send_typed_caps c) then Inr ()
      else Inl ''capability denied: send'')"

definition check_send_addr :: "capability_set \<Rightarrow> actor_address \<Rightarrow> error + unit" where
  "check_send_addr c addr =
     (if addr \<in> set (send_any_caps c) then Inr () else Inl ''capability denied: send'')"

definition check_spawn :: "capability_set \<Rightarrow> error + unit" where
  "check_spawn c = (if can_spawn c then Inr () else Inl ''capability denied: spawn'')"

definition check_service :: "capability_set \<Rightarrow> type_id \<Rightarrow> error + unit" where
  "check_service c s =
     (if s \<in> set (service_types c) then Inr () else Inl ''capability denied: service'')"

definition check_monitor :: "capability_set \<Rightarrow> actor_address \<Rightarrow> error + unit" where
  "check_monitor c addr =
     (if addr \<in> set (monitor_targets c) then Inr () else Inl ''capability denied: monitor'')"

text \<open>An environment maps a type to a value of that type; capability sets are one such type.\<close>

datatype env_value = CapsValue capability_set | OpaqueValue nat

type_synonym environment = "(type_id \<times> env_value) list"

definition capability_type :: type_id where
  "capability_type = ''swactor::actor::CapabilitySet''"

definition environment_new :: environment where
  "environment_new = []"

definition env_contains :: "environment \<Rightarrow> type_id \<Rightarrow> bool" where
  "env_contains e t \<longleftrightarrow> map_of e t \<noteq> None"

definition env_capabilities :: "environment \<Rightarrow> capability_set option" where
  "env_capabilities e =
     (case map_of e capability_type of Some (CapsValue c) \<Rightarrow> Some c | _ \<Rightarrow> None)"

definition env_set :: "type_id \<Rightarrow> env_value \<Rightarrow> environment \<Rightarrow> environment" where
  "env_set t v e = hm_insert t v e"

lemmas [runtime_defs] = caps_new_def with_send_def with_send_typed_def with_spawn_def
  with_service_def with_monitor_def check_send_def check_send_addr_def check_spawn_def
  check_service_def check_monitor_def environment_new_def env_contains_def env_capabilities_def
  env_set_def

lemma check_send_grants:
  "check_send (with_send c addr) m a = Inr () \<longleftrightarrow> a = addr \<or> check_send c m a = Inr ()"
  "check_send (with_send_typed c m' addr) m a = Inr () \<longleftrightarrow>
     (a = addr \<and> m = m') \<or> check_send c m a = Inr ()"
  by (auto simp: runtime_defs)

lemma env_set_capabilities:
  "env_capabilities (env_set t v e) =
     (if t = capability_type then (case v of CapsValue c \<Rightarrow> Some c | _ \<Rightarrow> None) else env_capabilities e)"
  by (simp add: runtime_defs update_conv')

end
