(* ===== verification/Std_Registries.thy ===== *)
theory Std_Registries
  imports Actor_Types
begin

text \<open>
  The standard extension (\<open>src/std\<close>): the name, watch and group registries, each a pair of
  indexes that must agree, and \<open>StdExtension\<close>, which turns deaths into notifications and clears
  the registries. Every registry operation of the source is one function here; each registry has
  an agreement invariant that its operations keep.
\<close>

section \<open>Names\<close>

record name_registry =
  names :: "(string \<times> actor_address) list"
  reverse :: "(actor_address \<times> string) list"

definition name_registry_new :: name_registry where
  "name_registry_new = \<lparr>names = [], reverse = []\<rparr>"

definition name_register :: "name_registry \<Rightarrow> string \<Rightarrow> actor_address \<Rightarrow> error + name_registry" where
  "name_register r name addr =
     (if map_of (names r) name \<noteq> None then Inl ''Name already registered''
      else Inr (r\<lparr>names := hm_insert name addr (names r),
                  reverse := hm_insert addr name (reverse r)\<rparr>))"

definition name_lookup :: "name_registry \<Rightarrow> string \<Rightarrow> actor_address option" where
  "name_lookup r name = map_of (names r) name"

definition name_unregister :: "name_registry \<Rightarrow> string \<Rightarrow> actor_address option \<times> name_registry" where
  "name_unregister r name =
     (case map_of (names r) name of
        None \<Rightarrow> (None, r)
      | Some addr \<Rightarrow> (Some addr, r\<lparr>names := hm_remove name (names r),
                                   reverse := hm_remove addr (reverse r)\<rparr>))"

definition unregister_by_addr :: "name_registry \<Rightarrow> actor_address \<Rightarrow> name_registry" where
  "unregister_by_addr r addr =
     (case map_of (reverse r) addr of
        None \<Rightarrow> r
      | Some name \<Rightarrow> r\<lparr>names := hm_remove name (names r), reverse := hm_remove addr (reverse r)\<rparr>)"

definition registered_names :: "name_registry \<Rightarrow> string list" where
  "registered_names r = hm_keys (names r)"

text \<open>
  The two indexes agree when every name's address points back at that name. The code does not
  enforce this: registering a second name for one address overwrites the reverse entry.
\<close>

definition name_inv :: "name_registry \<Rightarrow> bool" where
  "name_inv r \<longleftrightarrow> (\<forall>name addr. map_of (names r) name = Some addr \<longleftrightarrow> map_of (reverse r) addr = Some name)"

definition named :: "name_registry \<Rightarrow> actor_address \<Rightarrow> bool" where
  "named r addr \<longleftrightarrow> map_of (reverse r) addr \<noteq> None"

lemmas name_defs [runtime_defs] = name_registry_new_def name_register_def name_lookup_def
  name_unregister_def unregister_by_addr_def registered_names_def

lemma name_inv_new: "name_inv name_registry_new"
  by (simp add: name_inv_def name_defs)

lemma name_inv_inj:
  "name_inv r \<Longrightarrow> map_of (reverse r) a = Some n \<Longrightarrow> map_of (reverse r) b = Some n \<Longrightarrow> a = b"
  unfolding name_inv_def by (metis option.inject)

lemma name_inv_register:
  "name_inv r \<Longrightarrow> \<not> named r addr \<Longrightarrow> name_register r name addr = Inr r' \<Longrightarrow> name_inv r'"
  unfolding name_inv_def named_def name_register_def
  by (clarsimp simp: update_conv' split: if_splits)

lemma name_inv_unregister: "name_inv r \<Longrightarrow> name_inv (snd (name_unregister r name))"
  using name_inv_inj [of r] unfolding name_inv_def name_unregister_def
  by (auto simp: delete_conv' split: option.splits if_splits)

lemma name_inv_unregister_by_addr: "name_inv r \<Longrightarrow> name_inv (unregister_by_addr r addr)"
  using name_inv_inj [of r] unfolding name_inv_def unregister_by_addr_def
  by (auto simp: delete_conv' split: option.splits if_splits)

lemma unregister_by_addr_clears:
  "name_inv r \<Longrightarrow> name_lookup (unregister_by_addr r addr) name \<noteq> Some addr"
  unfolding name_inv_def unregister_by_addr_def name_lookup_def
  by (auto simp: delete_conv' split: option.splits if_splits)

section \<open>Watches\<close>

record watch_state =
  watchers :: "(actor_address \<times> actor_address list) list"
  watching :: "(actor_address \<times> actor_address list) list"

definition watch_registry_new :: watch_state where
  "watch_registry_new = \<lparr>watchers = [], watching = []\<rparr>"

definition set_at :: "('k \<times> 'v list) list \<Rightarrow> 'k \<Rightarrow> 'v list" where
  "set_at m k = (case map_of m k of None \<Rightarrow> [] | Some s \<Rightarrow> s)"

definition watch :: "watch_state \<Rightarrow> actor_address \<Rightarrow> actor_address \<Rightarrow> watch_state" where
  "watch w watcher target =
     w\<lparr>watchers := hm_insert target (List.insert watcher (set_at (watchers w) target)) (watchers w),
       watching := hm_insert watcher (List.insert target (set_at (watching w) watcher)) (watching w)\<rparr>"

definition remove_from :: "'v \<Rightarrow> 'k \<Rightarrow> ('k \<times> 'v list) list \<Rightarrow> ('k \<times> 'v list) list" where
  "remove_from v k m = (case map_of m k of None \<Rightarrow> m | Some s \<Rightarrow> hm_insert k (removeAll v s) m)"

definition remove_from_prune :: "'v \<Rightarrow> 'k \<Rightarrow> ('k \<times> 'v list) list \<Rightarrow> ('k \<times> 'v list) list" where
  "remove_from_prune v k m =
     (case map_of m k of
        None \<Rightarrow> m
      | Some s \<Rightarrow> (let s' = removeAll v s in if s' = [] then hm_remove k m else hm_insert k s' m))"

definition notify_death ::
  "watch_state \<Rightarrow> actor_address \<Rightarrow> exit_reason \<Rightarrow> exit_value option
    \<Rightarrow> (actor_address \<times> actor_exited) list \<times> watch_state" where
  "notify_death w target reason exit_value =
     (let ws = set_at (watchers w) target in
      (map (\<lambda>watcher. (watcher, \<lparr>ae_addr = target, ae_reason = reason, ae_exit_value = exit_value\<rparr>)) ws,
       w\<lparr>watchers := hm_remove target (watchers w),
         watching := fold (remove_from target) ws (watching w)\<rparr>))"

definition cleanup_watcher :: "watch_state \<Rightarrow> actor_address \<Rightarrow> watch_state" where
  "cleanup_watcher w watcher =
     (case map_of (watching w) watcher of
        None \<Rightarrow> w
      | Some targets \<Rightarrow>
          w\<lparr>watching := hm_remove watcher (watching w),
            watchers := fold (remove_from_prune watcher) targets (watchers w)\<rparr>)"

definition watches :: "watch_state \<Rightarrow> actor_address \<Rightarrow> actor_address \<Rightarrow> bool" where
  "watches w watcher target \<longleftrightarrow> watcher \<in> set (set_at (watchers w) target)"

definition watch_inv :: "watch_state \<Rightarrow> bool" where
  "watch_inv w \<longleftrightarrow>
     (\<forall>a b. a \<in> set (set_at (watchers w) b) \<longleftrightarrow> b \<in> set (set_at (watching w) a)) \<and>
     (\<forall>b. distinct (set_at (watchers w) b))"

lemma set_at_insert [simp]:
  "set_at (hm_insert k s m) k' = (if k' = k then s else set_at m k')"
  by (simp add: set_at_def update_conv')

lemma set_at_remove [simp]: "set_at (hm_remove k m) k' = (if k' = k then [] else set_at m k')"
  by (simp add: set_at_def delete_conv')

lemma set_at_Nil [simp]: "set_at [] k = []"
  by (simp add: set_at_def)

lemma set_at_remove_from [simp]:
  "set_at (remove_from v k m) k' = (if k' = k then removeAll v (set_at m k') else set_at m k')"
  by (auto simp: remove_from_def set_at_def update_conv' split: option.splits)

lemma set_at_remove_from_prune [simp]:
  "set_at (remove_from_prune v k m) k' = (if k' = k then removeAll v (set_at m k') else set_at m k')"
  by (auto simp: remove_from_prune_def set_at_def Let_def update_conv' delete_conv' split: option.splits)

lemma set_at_fold_remove_from [simp]:
  "set_at (fold (remove_from v) ks m) k' =
     (if k' \<in> set ks then removeAll v (set_at m k') else set_at m k')"
  by (induction ks arbitrary: m) auto

lemma set_at_fold_remove_from_prune [simp]:
  "set_at (fold (remove_from_prune v) ks m) k' =
     (if k' \<in> set ks then removeAll v (set_at m k') else set_at m k')"
  by (induction ks arbitrary: m) auto

lemma watch_inv_new: "watch_inv watch_registry_new"
  by (simp add: watch_inv_def watch_registry_new_def)

lemma watch_inv_watch: "watch_inv w \<Longrightarrow> watch_inv (watch w a b)"
  by (auto simp: watch_inv_def watch_def)

lemma watch_inv_notify_death: "watch_inv w \<Longrightarrow> watch_inv (snd (notify_death w t r v))"
  by (auto simp: watch_inv_def notify_death_def Let_def)

lemma set_at_cleanup_watcher:
  "watch_inv w \<Longrightarrow> set_at (watchers (cleanup_watcher w a)) b = removeAll a (set_at (watchers w) b)"
  "set_at (watching (cleanup_watcher w a)) b = (if b = a then [] else set_at (watching w) b)"
proof -
  have "b \<notin> set targets \<Longrightarrow> a \<notin> set (set_at (watchers w) b)"
    if "watch_inv w" "map_of (watching w) a = Some targets" for targets
    using that by (auto simp: watch_inv_def set_at_def [of "watching w"])
  moreover have "a \<notin> set (set_at (watchers w) b)" if "watch_inv w" "map_of (watching w) a = None"
    using that by (auto simp: watch_inv_def set_at_def [of "watching w"])
  ultimately show "watch_inv w \<Longrightarrow>
      set_at (watchers (cleanup_watcher w a)) b = removeAll a (set_at (watchers w) b)"
    by (auto simp: cleanup_watcher_def removeAll_id split: option.splits)
  show "set_at (watching (cleanup_watcher w a)) b = (if b = a then [] else set_at (watching w) b)"
    by (auto simp: cleanup_watcher_def set_at_def [of "watching w"] split: option.splits)
qed

lemma watch_inv_cleanup_watcher: "watch_inv w \<Longrightarrow> watch_inv (cleanup_watcher w a)"
  unfolding watch_inv_def [of "cleanup_watcher w a"]
  by (auto simp: set_at_cleanup_watcher watch_inv_def removeAll_filter_not_eq)

lemma notify_death_notifies:
  "watch_inv w \<Longrightarrow>
     set (map fst (fst (notify_death w t r v))) = {a. watches w a t} \<and>
     distinct (map fst (fst (notify_death w t r v)))"
  by (auto simp: notify_death_def Let_def watches_def watch_inv_def comp_def)

lemma watches_notify_death:
  "watches (snd (notify_death w t r v)) a b \<longleftrightarrow> b \<noteq> t \<and> watches w a b"
  by (auto simp: notify_death_def Let_def watches_def)

lemma watches_cleanup_watcher:
  "watch_inv w \<Longrightarrow> watches (cleanup_watcher w c) a b \<longleftrightarrow> a \<noteq> c \<and> watches w a b"
  by (auto simp: watches_def set_at_cleanup_watcher)

section \<open>Groups\<close>

record group_registry =
  groups :: "(string \<times> actor_address list) list"
  memberships :: "(actor_address \<times> string list) list"

definition group_registry_new :: group_registry where
  "group_registry_new = \<lparr>groups = [], memberships = []\<rparr>"

definition join_group :: "group_registry \<Rightarrow> string \<Rightarrow> actor_address \<Rightarrow> group_registry" where
  "join_group r g addr =
     r\<lparr>groups := hm_insert g (List.insert addr (set_at (groups r) g)) (groups r),
       memberships := hm_insert addr (List.insert g (set_at (memberships r) addr)) (memberships r)\<rparr>"

definition leave_group :: "group_registry \<Rightarrow> string \<Rightarrow> actor_address \<Rightarrow> group_registry" where
  "leave_group r g addr =
     r\<lparr>groups := remove_from_prune addr g (groups r),
       memberships := remove_from g addr (memberships r)\<rparr>"

definition group_members :: "group_registry \<Rightarrow> string \<Rightarrow> actor_address list" where
  "group_members r g = set_at (groups r) g"

definition group_cleanup :: "group_registry \<Rightarrow> actor_address \<Rightarrow> group_registry" where
  "group_cleanup r addr =
     (case map_of (memberships r) addr of
        None \<Rightarrow> r
      | Some gs \<Rightarrow> r\<lparr>memberships := hm_remove addr (memberships r),
                       groups := fold (remove_from_prune addr) gs (groups r)\<rparr>)"

definition group_names :: "group_registry \<Rightarrow> string list" where
  "group_names r = hm_keys (groups r)"

definition group_inv :: "group_registry \<Rightarrow> bool" where
  "group_inv r \<longleftrightarrow>
     (\<forall>g a. a \<in> set (set_at (groups r) g) \<longleftrightarrow> g \<in> set (set_at (memberships r) a)) \<and>
     (\<forall>g. distinct (set_at (groups r) g)) \<and>
     (\<forall>g. map_of (groups r) g \<noteq> Some [])"

lemma remove_from_prune_nonempty:
  "(\<And>k. map_of m k \<noteq> Some []) \<Longrightarrow> map_of (remove_from_prune v k' m) k \<noteq> Some []"
  by (auto simp: remove_from_prune_def Let_def update_conv' delete_conv' split: option.splits)

lemma fold_remove_from_prune_nonempty:
  "(\<And>k. map_of m k \<noteq> Some []) \<Longrightarrow> map_of (fold (remove_from_prune v) ks m) k \<noteq> Some []"
proof (induction ks arbitrary: m)
  case (Cons k' ks)
  then show ?case using remove_from_prune_nonempty [of m v k'] by simp
qed simp

lemma group_inv_new: "group_inv group_registry_new"
  by (simp add: group_inv_def group_registry_new_def)

lemma group_inv_join: "group_inv r \<Longrightarrow> group_inv (join_group r g a)"
  by (auto simp: group_inv_def join_group_def update_conv' List.insert_def split: if_splits)
    (metis empty_iff list.set(1))

lemma group_inv_leave: "group_inv r \<Longrightarrow> group_inv (leave_group r g a)"
  unfolding group_inv_def leave_group_def
  using remove_from_prune_nonempty [of "groups r" a g] by (auto simp: removeAll_filter_not_eq)

lemma set_at_group_cleanup:
  "group_inv r \<Longrightarrow> set_at (groups (group_cleanup r a)) g = removeAll a (set_at (groups r) g)"
  "set_at (memberships (group_cleanup r a)) b = (if b = a then [] else set_at (memberships r) b)"
proof -
  have "g \<notin> set gs \<Longrightarrow> a \<notin> set (set_at (groups r) g)"
    if "group_inv r" "map_of (memberships r) a = Some gs" for gs
    using that by (auto simp: group_inv_def set_at_def [of "memberships r"])
  moreover have "a \<notin> set (set_at (groups r) g)" if "group_inv r" "map_of (memberships r) a = None"
    using that by (auto simp: group_inv_def set_at_def [of "memberships r"])
  ultimately show "group_inv r \<Longrightarrow>
      set_at (groups (group_cleanup r a)) g = removeAll a (set_at (groups r) g)"
    by (auto simp: group_cleanup_def removeAll_id split: option.splits)
  show "set_at (memberships (group_cleanup r a)) b = (if b = a then [] else set_at (memberships r) b)"
    by (auto simp: group_cleanup_def set_at_def [of "memberships r"] split: option.splits)
qed

lemma group_inv_cleanup:
  assumes "group_inv r" shows "group_inv (group_cleanup r a)"
proof -
  have "map_of (groups (group_cleanup r a)) g \<noteq> Some []" for g
    using assms fold_remove_from_prune_nonempty [of "groups r" a]
    by (auto simp: group_cleanup_def group_inv_def split: option.splits)
  with assms show ?thesis
    unfolding group_inv_def [of "group_cleanup r a"]
    by (auto simp: set_at_group_cleanup removeAll_filter_not_eq group_inv_def)
qed

section \<open>The standard extension\<close>

record std_extension =
  name_reg :: name_registry
  watch_reg :: watch_state
  group_reg :: group_registry

definition std_extension_new :: std_extension where
  "std_extension_new = \<lparr>name_reg = name_registry_new, watch_reg = watch_registry_new,
     group_reg = group_registry_new\<rparr>"

fun stop_to_exit :: "stop_reason \<Rightarrow> exit_reason" where
  "stop_to_exit StopNormal = ExitCompleted"
| "stop_to_exit StopCompleted = ExitCompleted"
| "stop_to_exit StopPanicked = ExitPanicked"

type_synonym dead_actor = "actor_address \<times> stop_reason \<times> exit_value option"

fun on_actor_death ::
  "std_extension \<Rightarrow> dead_actor list \<Rightarrow> (actor_address \<times> 'm any) list \<times> std_extension" where
  "on_actor_death e [] = ([], e)"
| "on_actor_death e ((addr, reason, exit_value) # dead) =
     (let (ns, w) = notify_death (watch_reg e) addr (stop_to_exit reason) exit_value;
          (rest, e') = on_actor_death (e\<lparr>watch_reg := w\<rparr>) dead
      in (map (\<lambda>(watcher, exited). (watcher, ActorExitedMsg exited)) ns @ rest, e'))"

fun ext_cleanup_dead :: "std_extension \<Rightarrow> actor_address list \<Rightarrow> std_extension" where
  "ext_cleanup_dead e [] = e"
| "ext_cleanup_dead e (addr # dead) =
     ext_cleanup_dead
       (e\<lparr>name_reg := unregister_by_addr (name_reg e) addr,
          group_reg := group_cleanup (group_reg e) addr,
          watch_reg := cleanup_watcher (watch_reg e) addr\<rparr>) dead"

definition on_spawn :: "std_extension \<Rightarrow> actor_address \<Rightarrow> actor_address option \<Rightarrow> environment \<Rightarrow> environment" where
  "on_spawn e child parent env = env"

definition std_inv :: "std_extension \<Rightarrow> bool" where
  "std_inv e \<longleftrightarrow> name_inv (name_reg e) \<and> watch_inv (watch_reg e) \<and> group_inv (group_reg e)"

text \<open>No registry mentions an address.\<close>

definition forgotten :: "std_extension \<Rightarrow> actor_address \<Rightarrow> bool" where
  "forgotten e a \<longleftrightarrow>
     (\<forall>name. name_lookup (name_reg e) name \<noteq> Some a) \<and>
     (\<forall>b. \<not> watches (watch_reg e) a b) \<and>
     (\<forall>g. a \<notin> set (group_members (group_reg e) g))"

lemma std_inv_new: "std_inv std_extension_new"
  by (simp add: std_inv_def std_extension_new_def name_inv_new watch_inv_new group_inv_new)

lemma on_actor_death_frame:
  "name_reg (snd (on_actor_death e dead)) = name_reg e"
  "group_reg (snd (on_actor_death e dead)) = group_reg e"
  by (induction e dead rule: on_actor_death.induct) (auto simp: Let_def split: prod.splits)

lemma on_actor_death_watches:
  "watches (watch_reg (snd (on_actor_death e dead))) a b \<longleftrightarrow>
     watches (watch_reg e) a b \<and> b \<notin> fst ` set dead"
proof (induction e dead rule: on_actor_death.induct)
  case (2 e addr reason v dead)
  obtain ns w where n: "notify_death (watch_reg e) addr (stop_to_exit reason) v = (ns, w)" by fastforce
  have "watches w a b \<longleftrightarrow> b \<noteq> addr \<and> watches (watch_reg e) a b"
    using watches_notify_death [of "watch_reg e" addr "stop_to_exit reason" v a b] n by simp
  then show ?case using "2.IH" [OF n [symmetric] refl] n by (auto simp: Let_def split: prod.splits)
qed simp

lemma std_inv_on_actor_death: "std_inv e \<Longrightarrow> std_inv (snd (on_actor_death e dead))"
proof (induction e dead rule: on_actor_death.induct)
  case (2 e addr reason v dead)
  obtain ns w where n: "notify_death (watch_reg e) addr (stop_to_exit reason) v = (ns, w)" by fastforce
  have "watch_inv w"
    using watch_inv_notify_death [of "watch_reg e" addr "stop_to_exit reason" v] n "2.prems"
    by (simp add: std_inv_def)
  with "2.IH" [OF n [symmetric] refl] "2.prems" show ?case
    by (auto simp: std_inv_def n Let_def split: prod.splits)
qed simp

lemma std_inv_cleanup_dead: "std_inv e \<Longrightarrow> std_inv (ext_cleanup_dead e dead)"
  by (induction e dead rule: ext_cleanup_dead.induct)
    (auto simp: std_inv_def name_inv_unregister_by_addr group_inv_cleanup watch_inv_cleanup_watcher)

lemma unregister_by_addr_lookup:
  "name_lookup (unregister_by_addr r addr) name = Some a \<Longrightarrow> name_lookup r name = Some a"
  by (auto simp: name_defs delete_conv' split: option.splits if_splits)

lemma watches_cleanup_dead:
  "std_inv e \<Longrightarrow> watches (watch_reg (ext_cleanup_dead e dead)) w a \<Longrightarrow> watches (watch_reg e) w a"
  by (induction e dead rule: ext_cleanup_dead.induct)
    (auto simp: std_inv_def watches_cleanup_watcher name_inv_unregister_by_addr group_inv_cleanup
      watch_inv_cleanup_watcher)

lemma forgotten_mono_cleanup:
  "std_inv e \<Longrightarrow> forgotten e a \<Longrightarrow> forgotten (ext_cleanup_dead e dead) a"
proof (induction e dead rule: ext_cleanup_dead.induct)
  case (2 e addr dead)
  let ?e = "e\<lparr>name_reg := unregister_by_addr (name_reg e) addr,
          group_reg := group_cleanup (group_reg e) addr,
          watch_reg := cleanup_watcher (watch_reg e) addr\<rparr>"
  have "std_inv ?e" using "2.prems"
    by (auto simp: std_inv_def name_inv_unregister_by_addr group_inv_cleanup watch_inv_cleanup_watcher)
  moreover have "forgotten ?e a" using "2.prems"
    by (auto simp: forgotten_def group_members_def set_at_group_cleanup watches_cleanup_watcher
        std_inv_def dest: unregister_by_addr_lookup)
  ultimately show ?case using "2.IH" by simp
qed simp

lemma cleanup_dead_forgets: "std_inv e \<Longrightarrow> a \<in> set dead \<Longrightarrow> forgotten (ext_cleanup_dead e dead) a"
proof (induction e dead rule: ext_cleanup_dead.induct)
  case (2 e addr dead)
  let ?e = "e\<lparr>name_reg := unregister_by_addr (name_reg e) addr,
          group_reg := group_cleanup (group_reg e) addr,
          watch_reg := cleanup_watcher (watch_reg e) addr\<rparr>"
  have inv: "std_inv ?e" using "2.prems"
    by (auto simp: std_inv_def name_inv_unregister_by_addr group_inv_cleanup watch_inv_cleanup_watcher)
  show ?case
  proof (cases "a = addr")
    case True
    then have "forgotten ?e a" using "2.prems"
      by (auto simp: forgotten_def group_members_def set_at_group_cleanup watches_cleanup_watcher
          std_inv_def unregister_by_addr_clears)
    then show ?thesis using forgotten_mono_cleanup [OF inv, of a dead] by simp
  next
    case False
    then show ?thesis using "2.IH" [OF inv] "2.prems" by simp
  qed
qed simp

lemma on_actor_death_notifications:
  fixes ns :: "(actor_address \<times> 'm any) list"
  assumes "watch_inv (watch_reg e)" "distinct (map fst dead)" "on_actor_death e dead = (ns, e')"
  shows "set ns =
      {(w, ActorExitedMsg \<lparr>ae_addr = d, ae_reason = stop_to_exit r, ae_exit_value = v\<rparr>) | w d r v.
         (d, r, v) \<in> set dead \<and> watches (watch_reg e) w d} \<and> distinct ns"
  using assms
proof (induction e dead arbitrary: ns rule: on_actor_death.induct)
  case (2 e addr reason v dead all)
  obtain ns w where n: "notify_death (watch_reg e) addr (stop_to_exit reason) v = (ns, w)" by fastforce
  obtain rest :: "(actor_address \<times> 'm any) list"
    where r: "on_actor_death (e\<lparr>watch_reg := w\<rparr>) dead = (rest, e')"
    and all: "all = map (\<lambda>(watcher, exited). (watcher, ActorExitedMsg exited)) ns @ rest"
    using "2.prems"(3) n by (auto split: prod.splits)
  have inv: "watch_inv w"
    using watch_inv_notify_death [of "watch_reg e" addr "stop_to_exit reason" v] n "2.prems" by simp
  have ns: "ns = map (\<lambda>a. (a, \<lparr>ae_addr = addr, ae_reason = stop_to_exit reason, ae_exit_value = v\<rparr>))
      (set_at (watchers (watch_reg e)) addr)"
    using n by (simp add: notify_death_def Let_def)
  have dist: "distinct (set_at (watchers (watch_reg e)) addr)" using "2.prems"(1) by (simp add: watch_inv_def)
  have w: "watches w a b \<longleftrightarrow> b \<noteq> addr \<and> watches (watch_reg e) a b" for a b
    using watches_notify_death [of "watch_reg e" addr "stop_to_exit reason" v a b] n by simp
  have ih: "set rest = {(w', ActorExitedMsg \<lparr>ae_addr = d, ae_reason = stop_to_exit r, ae_exit_value = v\<rparr>) | w' d r v.
      (d, r, v) \<in> set dead \<and> watches w w' d} \<and> distinct rest"
    using "2.IH" [OF n [symmetric] refl] inv "2.prems" r by simp
  have new: "addr \<notin> fst ` set dead" using "2.prems" by simp
  then have "distinct all"
    using ih dist by (auto simp: all ns w distinct_map inj_on_def)
  moreover have "set all =
      {(a, ActorExitedMsg \<lparr>ae_addr = addr, ae_reason = stop_to_exit reason, ae_exit_value = v\<rparr>) | a.
         watches (watch_reg e) a addr} \<union> set rest"
    by (auto simp: all ns watches_def)
  ultimately show ?case using ih new by (auto simp: w image_iff)
qed auto

section \<open>Properties\<close>


definition watched_ext :: std_extension where
  "watched_ext = std_extension_new\<lparr>watch_reg :=
     watch (watch watch_registry_new (ActorAddress 1) (ActorAddress 2)) (ActorAddress 3) (ActorAddress 2)\<rparr>"

lemma watched_ext_inv: "std_inv watched_ext"
  by (simp add: watched_ext_def std_inv_def std_extension_new_def name_inv_new group_inv_new
      watch_inv_watch watch_inv_new)




end
