(* ===== verification/Delivery.thy ===== *)
theory Delivery
  imports Std_Registries
begin

text \<open>
  The state every worker shares and the routing over it (\<open>src/delivery.rs\<close>, \<open>src/config.rs\<close>,
  \<open>src/stats.rs\<close>, the data of \<open>src/runtime.rs\<close> and \<open>src/admin.rs\<close>). A channel is the list of the
  values it holds (the theory \<open>Hybrid_Channel\<close> shows that this is what a channel is), the vectors of
  per-worker producers and consumers are the lists \<open>spawn_qs\<close>, \<open>transfer_qs\<close> and \<open>admin_qs\<close>,
  indexed by worker. A lock-protected operation is one atomic function of the shared state.

  What the code takes from outside is the record \<open>net\<close>: the type of a boxed message, the
  installed \<open>RemoteSink\<close> (its answer may depend on everything sent before) and the source of
  random addresses.
\<close>

section \<open>Configuration and statistics\<close>

record runtime_config =
  max_actors :: nat
  channel_buffer_size :: nat
  actor_message_budget :: nat
  worker_count :: nat
  worker_ingress_budget :: nat

definition runtime_config_default :: runtime_config where
  "runtime_config_default = \<lparr>max_actors = 1000, channel_buffer_size = 1000,
     actor_message_budget = 64, worker_count = 1, worker_ingress_budget = 1024\<rparr>"

record tick_timing =
  phase_us :: "nat list"
  tt_messages_processed :: nat
  tt_did_work :: bool

record worker_stats =
  num_actors :: nat
  total_mailbox_depth :: nat
  ws_messages_processed :: nat
  local_sends :: nat
  inbox_sends :: nat
  type_mismatches :: nat
  panics :: nat
  stops :: nat
  tick_timings :: "tick_timing list"

definition worker_stats_new :: worker_stats where
  "worker_stats_new = \<lparr>num_actors = 0, total_mailbox_depth = 0, ws_messages_processed = 0,
     local_sends = 0, inbox_sends = 0, type_mismatches = 0, panics = 0, stops = 0,
     tick_timings = []\<rparr>"

definition TICK_BUFFER_CAP :: nat where
  "TICK_BUFFER_CAP = 1024"

definition push_tick_timing :: "tick_timing \<Rightarrow> worker_stats \<Rightarrow> worker_stats" where
  "push_tick_timing t ws =
     (if length (tick_timings ws) < TICK_BUFFER_CAP then ws\<lparr>tick_timings := tick_timings ws @ [t]\<rparr>
      else ws\<lparr>tick_timings := tl (tick_timings ws) @ [t]\<rparr>)"

definition drain_tick_timings :: "worker_stats \<Rightarrow> tick_timing list \<times> worker_stats" where
  "drain_tick_timings ws = (tick_timings ws, ws\<lparr>tick_timings := []\<rparr>)"

record stats_snapshot_kind =
  kind_activity :: bool
  kind_census :: bool

record actor_snapshot =
  snap_address :: actor_address
  snap_mailbox_depth :: nat
  snap_mailbox_max_depth :: nat
  snap_last_msg_type :: "string option"
  snap_actor_type :: "string option"
  snap_message_type :: "string option"
  snap_messages_processed :: nat
  snap_poisoned :: bool
  snap_type_counts :: "(string \<times> nat) list"

section \<open>Values on the queues\<close>

record 'a spawn_request =
  sr_addr :: actor_address
  sr_actor :: 'a
  sr_parent :: "actor_address option"
  sr_env :: environment

record 'm envelope =
  dest :: actor_address
  payload :: "'m any"

definition envelope_new :: "actor_address \<Rightarrow> 'm any \<Rightarrow> 'm envelope" where
  "envelope_new d m = \<lparr>dest = d, payload = m\<rparr>"

text \<open>An external inbox accepts the messages of one type; others are dropped by the downcast.\<close>

record 'm inbox =
  ib_type :: type_id
  ib_queue :: "'m any list"

text \<open>The closures of \<open>GetActorState\<close> and \<open>ReplaceActorState\<close> are functions of the erased actor.\<close>

datatype ('a, 'm) admin_command =
    ListActors nat
  | InspectActor actor_address actor_address
  | GetActorState actor_address actor_address "actor_address \<Rightarrow> 'a \<Rightarrow> 'm any" "actor_address \<Rightarrow> 'm any"
  | ReplaceActorState actor_address actor_address "'a \<Rightarrow> (admin_error + bool) \<times> 'a"
  | StopActor actor_address actor_address
  | SuspendActor actor_address actor_address
  | ResumeActor actor_address actor_address

record 'm list_actors_state =
  la_remaining :: nat
  la_summaries :: "actor_summary list"
  la_reply_to :: actor_address
  la_reply :: "actor_summary list \<Rightarrow> 'm any"

section \<open>The shared state\<close>

record 'm net =
  type_of :: "'m any \<Rightarrow> type_id"
  remote_sink :: "((actor_address \<times> 'm any) list \<Rightarrow> actor_address \<Rightarrow> 'm any \<Rightarrow> error + unit) option"
  addr_source :: "nat \<Rightarrow> actor_address"

text \<open>
  \<open>list_accs\<close> holds the census accumulators that are still alive, \<open>remote_out\<close> what was handed
  to the remote sink, \<open>hook_out\<close> what the installed stats hook was called with, and
  \<open>next_addr\<close> how many random addresses were drawn. \<open>next_acc\<close> numbers the accumulators as they are
  allocated, so that a number, like an \<open>Arc\<close>, never stands for two of them.
\<close>

record ('a, 'm) runtime_shared =
  config :: runtime_config
  address_map :: "(actor_address \<times> worker_id) list"
  inboxes :: "(actor_address \<times> 'm inbox) list"
  ext :: "std_extension option"
  transfer_qs :: "'m envelope list list"
  spawn_qs :: "'a spawn_request list list"
  admin_qs :: "('a, 'm) admin_command list list"
  stats :: "worker_stats list"
  rr_worker :: nat
  stats_hook :: bool
  hook_out :: "(worker_id \<times> actor_snapshot list \<times> stats_snapshot_kind) list"
  list_accs :: "(nat \<times> 'm list_actors_state) list"
  remote_out :: "(actor_address \<times> 'm any) list"
  next_addr :: nat
  next_acc :: nat

text \<open>The shared state of a new runtime: \<open>worker_count\<close> empty queues of each kind.\<close>

definition shared_new :: "runtime_config \<Rightarrow> ('a, 'm) runtime_shared" where
  "shared_new c = \<lparr>config = c, address_map = [], inboxes = [], ext = None,
     transfer_qs = replicate (worker_count c) [], spawn_qs = replicate (worker_count c) [],
     admin_qs = replicate (worker_count c) [], stats = replicate (worker_count c) worker_stats_new,
     rr_worker = 0, stats_hook = False, hook_out = [], list_accs = [], remote_out = [], next_addr = 0,
     next_acc = 0\<rparr>"

definition worker_of :: "('a, 'm) runtime_shared \<Rightarrow> actor_address \<Rightarrow> worker_id option" where
  "worker_of s addr = map_of (address_map s) addr"

definition address_insert ::
  "actor_address \<Rightarrow> worker_id \<Rightarrow> ('a, 'm) runtime_shared \<Rightarrow> ('a, 'm) runtime_shared" where
  "address_insert addr w s = s\<lparr>address_map := hm_insert addr w (address_map s)\<rparr>"

definition address_remove :: "actor_address \<Rightarrow> ('a, 'm) runtime_shared \<Rightarrow> ('a, 'm) runtime_shared" where
  "address_remove addr s = s\<lparr>address_map := hm_remove addr (address_map s)\<rparr>"

text \<open>Indexing past the vector panics in the source; \<open>address_map\<close> only names existing workers.\<close>

definition transfer_send ::
  "worker_id \<Rightarrow> 'm envelope \<Rightarrow> ('a, 'm) runtime_shared \<Rightarrow> ('a, 'm) runtime_shared" where
  "transfer_send w e s = s\<lparr>transfer_qs := (transfer_qs s)[w := transfer_qs s ! w @ [e]]\<rparr>"

definition spawn_send ::
  "worker_id \<Rightarrow> 'a spawn_request \<Rightarrow> ('a, 'm) runtime_shared \<Rightarrow> ('a, 'm) runtime_shared" where
  "spawn_send w r s = s\<lparr>spawn_qs := (spawn_qs s)[w := spawn_qs s ! w @ [r]]\<rparr>"

definition admin_send ::
  "worker_id \<Rightarrow> ('a, 'm) admin_command \<Rightarrow> ('a, 'm) runtime_shared \<Rightarrow> ('a, 'm) runtime_shared" where
  "admin_send w c s = s\<lparr>admin_qs := (admin_qs s)[w := admin_qs s ! w @ [c]]\<rparr>"

definition upd_stats ::
  "worker_id \<Rightarrow> (worker_stats \<Rightarrow> worker_stats) \<Rightarrow> ('a, 'm) runtime_shared \<Rightarrow> ('a, 'm) runtime_shared" where
  "upd_stats w f s = s\<lparr>stats := (stats s)[w := f (stats s ! w)]\<rparr>"

definition new_random ::
  "('m, 'z) net_scheme \<Rightarrow> ('a, 'm) runtime_shared \<Rightarrow> actor_address \<times> ('a, 'm) runtime_shared" where
  "new_random N s = (addr_source N (next_addr s), s\<lparr>next_addr := Suc (next_addr s)\<rparr>)"

section \<open>Inboxes and non-local routing\<close>

definition try_send_any :: "('m, 'z) net_scheme \<Rightarrow> 'm inbox \<Rightarrow> 'm any \<Rightarrow> 'm inbox" where
  "try_send_any N ib msg =
     (if type_of N msg = ib_type ib then ib\<lparr>ib_queue := ib_queue ib @ [msg]\<rparr> else ib)"

definition inbox_register ::
  "actor_address \<Rightarrow> 'm inbox \<Rightarrow> ('a, 'm) runtime_shared \<Rightarrow> ('a, 'm) runtime_shared" where
  "inbox_register addr ib s = s\<lparr>inboxes := hm_insert addr ib (inboxes s)\<rparr>"

definition inbox_unregister :: "actor_address \<Rightarrow> ('a, 'm) runtime_shared \<Rightarrow> ('a, 'm) runtime_shared" where
  "inbox_unregister addr s = s\<lparr>inboxes := hm_remove addr (inboxes s)\<rparr>"

definition inbox_contains :: "('a, 'm) runtime_shared \<Rightarrow> actor_address \<Rightarrow> bool" where
  "inbox_contains s addr \<longleftrightarrow> map_of (inboxes s) addr \<noteq> None"

definition try_deliver ::
  "('m, 'z) net_scheme \<Rightarrow> actor_address \<Rightarrow> 'm any \<Rightarrow> ('a, 'm) runtime_shared
    \<Rightarrow> (error + unit) \<times> ('a, 'm) runtime_shared" where
  "try_deliver N addr msg s =
     (case map_of (inboxes s) addr of
        Some ib \<Rightarrow> (Inr (), s\<lparr>inboxes := hm_insert addr (try_send_any N ib msg) (inboxes s)\<rparr>)
      | None \<Rightarrow> (Inl ''Address not found'', s))"

definition route_nonlocal ::
  "('m, 'z) net_scheme \<Rightarrow> actor_address \<Rightarrow> 'm any \<Rightarrow> ('a, 'm) runtime_shared
    \<Rightarrow> (error + unit) \<times> ('a, 'm) runtime_shared" where
  "route_nonlocal N addr msg s =
     (if inbox_contains s addr then try_deliver N addr msg s
      else case remote_sink N of
             Some sink \<Rightarrow> (sink (remote_out s) addr msg, s\<lparr>remote_out := remote_out s @ [(addr, msg)]\<rparr>)
           | None \<Rightarrow> try_deliver N addr msg s)"

lemmas delivery_defs [runtime_defs] = worker_of_def address_insert_def address_remove_def
  transfer_send_def spawn_send_def admin_send_def upd_stats_def new_random_def try_send_any_def
  inbox_register_def inbox_unregister_def inbox_contains_def try_deliver_def route_nonlocal_def

section \<open>What routing leaves alone\<close>

text \<open>
  The part of the shared state that placement depends on: the address map, the spawn queues and
  the number of addresses drawn. Everything that only moves messages keeps it.
\<close>

definition same_placement :: "('a, 'm) runtime_shared \<Rightarrow> ('a, 'm) runtime_shared \<Rightarrow> bool" where
  "same_placement s s' \<longleftrightarrow> address_map s' = address_map s \<and> spawn_qs s' = spawn_qs s \<and>
     next_addr s' = next_addr s \<and> config s' = config s \<and> length (transfer_qs s') = length (transfer_qs s) \<and>
     length (admin_qs s') = length (admin_qs s) \<and>
     length (stats s') = length (stats s)"

lemma same_placement_refl [simp, intro]: "same_placement s s"
  by (simp add: same_placement_def)

lemma same_placement_trans [trans]:
  "same_placement s t \<Longrightarrow> same_placement t u \<Longrightarrow> same_placement s u"
  by (simp add: same_placement_def)

lemma same_placement_delivery [simp, intro]:
  "same_placement s (transfer_send w e s)"
  "same_placement s (admin_send w c s)"
  "same_placement s (upd_stats w f s)"
  "same_placement s (snd (try_deliver N a m s))"
  "same_placement s (snd (route_nonlocal N a m s))"
  by (auto simp: same_placement_def runtime_defs split: option.splits)

end
