(* ===== verification/Context.thy ===== *)
theory Context
  imports Delivery
begin

text \<open>
  What an actor may do while one of its callbacks runs: the \<open>Ctx\<close> interface of \<open>src/actor.rs\<close>
  and \<open>src/std/ctx_ext.rs\<close>, over the \<open>ContextInner\<close> implementation of a worker
  (\<open>WorkerContext\<close> in \<open>src/worker.rs\<close>).

  User code is a parameter: a callback is a program (\<open>prog\<close>) that ends, panics, or makes one
  call of the interface and continues with its result. A callback is taken to return or panic
  after finitely many calls; what it computes between the calls is arbitrary. \<open>Do a c k\<close> carries
  the actor's state at the call, which is what is left when the call itself panics.
\<close>

section \<open>The worker's side of a callback\<close>

record ('m, 'r) worker_context =
  pending_local :: "(actor_address \<times> 'm any) list"
  stop_requests :: "actor_address list"
  stop_with_values :: "(actor_address \<times> exit_value) list"
  suspend_requests :: "actor_address list"
  worker_requests :: "'r list"

definition worker_context_new :: "('m, 'r) worker_context" where
  "worker_context_new = \<lparr>pending_local = [], stop_requests = [], stop_with_values = [],
     suspend_requests = [], worker_requests = []\<rparr>"

type_synonym ('a, 'm, 'r) tick_state = "('a, 'm) runtime_shared \<times> ('m, 'r) worker_context"

record system_info =
  si_worker_id :: nat
  si_num_workers :: nat
  si_total_actors :: nat

definition bump_local :: "worker_stats \<Rightarrow> worker_stats" where
  "bump_local ws = ws\<lparr>local_sends := local_sends ws + 1\<rparr>"

definition bump_inbox :: "worker_stats \<Rightarrow> worker_stats" where
  "bump_inbox ws = ws\<lparr>inbox_sends := inbox_sends ws + 1\<rparr>"

fun send_any ::
  "('m, 'z) net_scheme \<Rightarrow> worker_id \<Rightarrow> actor_address \<Rightarrow> 'm any \<Rightarrow> ('a, 'm, 'r) tick_state
    \<Rightarrow> (error + unit) \<times> ('a, 'm, 'r) tick_state" where
  "send_any N w addr msg (s, c) =
     (case worker_of s addr of
        Some v \<Rightarrow>
          (if v = w then
             (Inr (), (upd_stats w bump_local s, c\<lparr>pending_local := pending_local c @ [(addr, msg)]\<rparr>))
           else (Inr (), (transfer_send v (envelope_new addr msg) (upd_stats w bump_local s), c)))
      | None \<Rightarrow>
          (case route_nonlocal N addr msg (upd_stats w bump_inbox s) of (r, s') \<Rightarrow> (r, (s', c))))"

fun spawn_any :: "worker_id \<Rightarrow> 'a spawn_request \<Rightarrow> ('a, 'm, 'r) tick_state \<Rightarrow> ('a, 'm, 'r) tick_state" where
  "spawn_any w req (s, c) = (spawn_send w req (address_insert (sr_addr req) w s), c)"

fun request_stop :: "actor_address \<Rightarrow> ('a, 'm, 'r) tick_state \<Rightarrow> ('a, 'm, 'r) tick_state" where
  "request_stop addr (s, c) = (s, c\<lparr>stop_requests := stop_requests c @ [addr]\<rparr>)"

fun request_stop_with ::
  "actor_address \<Rightarrow> exit_value \<Rightarrow> ('a, 'm, 'r) tick_state \<Rightarrow> ('a, 'm, 'r) tick_state" where
  "request_stop_with addr v (s, c) = (s, c\<lparr>stop_with_values := stop_with_values c @ [(addr, v)]\<rparr>)"

fun request_suspend :: "actor_address \<Rightarrow> ('a, 'm, 'r) tick_state \<Rightarrow> ('a, 'm, 'r) tick_state" where
  "request_suspend addr (s, c) = (s, c\<lparr>suspend_requests := suspend_requests c @ [addr]\<rparr>)"

fun request_resume :: "actor_address \<Rightarrow> ('a, 'm, 'r) tick_state \<Rightarrow> ('a, 'm, 'r) tick_state" where
  "request_resume addr (s, c) = (s, c\<lparr>pending_local := pending_local c @ [(addr, ResumeSignal)]\<rparr>)"

fun post_worker_request :: "'r \<Rightarrow> ('a, 'm, 'r) tick_state \<Rightarrow> ('a, 'm, 'r) tick_state" where
  "post_worker_request r (s, c) = (s, c\<lparr>worker_requests := worker_requests c @ [r]\<rparr>)"

fun system_info_of :: "worker_id \<Rightarrow> ('a, 'm, 'r) tick_state \<Rightarrow> system_info" where
  "system_info_of w (s, c) = \<lparr>si_worker_id = w, si_num_workers = length (stats s),
     si_total_actors = length (address_map s)\<rparr>"

section \<open>The actor's side of a callback\<close>

record ctx =
  self_addr :: actor_address
  self_parent_addr :: "actor_address option"
  self_env :: environment
  self_messages_processed :: nat
  self_mailbox_depth :: nat
  self_msg_type_counts :: "(string \<times> nat) list"

definition ctx_capabilities :: "ctx \<Rightarrow> capability_set option" where
  "ctx_capabilities cx = env_capabilities (self_env cx)"

definition ctx_send ::
  "('m, 'z) net_scheme \<Rightarrow> worker_id \<Rightarrow> ctx \<Rightarrow> actor_address \<Rightarrow> 'm any \<Rightarrow> ('a, 'm, 'r) tick_state
    \<Rightarrow> (error + unit) \<times> ('a, 'm, 'r) tick_state" where
  "ctx_send N w cx addr msg st =
     (case ctx_capabilities cx of
        Some caps \<Rightarrow>
          (if addr \<noteq> self_addr cx then
             (case check_send caps (type_of N msg) addr of
                Inl e \<Rightarrow> (Inl e, st)
              | Inr _ \<Rightarrow> send_any N w addr msg st)
           else send_any N w addr msg st)
      | None \<Rightarrow> send_any N w addr msg st)"

definition ctx_spawn_with ::
  "('m, 'z) net_scheme \<Rightarrow> worker_id \<Rightarrow> ctx \<Rightarrow> 'a \<Rightarrow> environment \<Rightarrow> ('a, 'm, 'r) tick_state
    \<Rightarrow> (error + actor_address) \<times> ('a, 'm, 'r) tick_state" where
  "ctx_spawn_with N w cx actor env st =
     (case (case ctx_capabilities cx of Some caps \<Rightarrow> check_spawn caps | None \<Rightarrow> Inr ()) of
        Inl e \<Rightarrow> (Inl e, st)
      | Inr _ \<Rightarrow>
          (case new_random N (fst st) of (addr, s) \<Rightarrow>
             (Inr addr, spawn_any w \<lparr>sr_addr = addr, sr_actor = actor, sr_parent = Some (self_addr cx),
                sr_env = env\<rparr> (s, snd st))))"

definition ctx_spawn ::
  "('m, 'z) net_scheme \<Rightarrow> worker_id \<Rightarrow> ctx \<Rightarrow> 'a \<Rightarrow> ('a, 'm, 'r) tick_state
    \<Rightarrow> (error + actor_address) \<times> ('a, 'm, 'r) tick_state" where
  "ctx_spawn N w cx actor st = ctx_spawn_with N w cx actor (self_env cx) st"

text \<open>A \<open>SpawnBuilder\<close> with its \<open>env\<close> calls, in order, and the final \<open>finish\<close>.\<close>

definition spawn_builder_finish ::
  "('m, 'z) net_scheme \<Rightarrow> worker_id \<Rightarrow> ctx \<Rightarrow> 'a \<Rightarrow> (type_id \<times> env_value) list \<Rightarrow> ('a, 'm, 'r) tick_state
    \<Rightarrow> (error + actor_address) \<times> ('a, 'm, 'r) tick_state" where
  "spawn_builder_finish N w cx actor overrides st =
     ctx_spawn_with N w cx actor (fold (\<lambda>(t, v). env_set t v) overrides (self_env cx)) st"

definition ctx_stop_actor ::
  "('m, 'z) net_scheme \<Rightarrow> worker_id \<Rightarrow> ctx \<Rightarrow> actor_address \<Rightarrow> ('a, 'm, 'r) tick_state
    \<Rightarrow> (error + unit) \<times> ('a, 'm, 'r) tick_state" where
  "ctx_stop_actor N w cx addr st =
     (case (case ctx_capabilities cx of Some caps \<Rightarrow> check_send_addr caps addr | None \<Rightarrow> Inr ()) of
        Inl e \<Rightarrow> (Inl e, st)
      | Inr _ \<Rightarrow> send_any N w addr StopSignal st)"

text \<open>The extension traits panic when no \<open>StdExtension\<close> is installed (\<open>None\<close>).\<close>

fun ctx_watch :: "ctx \<Rightarrow> actor_address \<Rightarrow> ('a, 'm, 'r) tick_state \<Rightarrow> ('a, 'm, 'r) tick_state option" where
  "ctx_watch cx target (s, c) =
     (case ext s of
        None \<Rightarrow> None
      | Some e \<Rightarrow> Some (s\<lparr>ext := Some (e\<lparr>watch_reg := watch (watch_reg e) (self_addr cx) target\<rparr>)\<rparr>, c))"

fun ctx_join_group :: "ctx \<Rightarrow> string \<Rightarrow> ('a, 'm, 'r) tick_state \<Rightarrow> ('a, 'm, 'r) tick_state option" where
  "ctx_join_group cx g (s, c) =
     (case ext s of
        None \<Rightarrow> None
      | Some e \<Rightarrow> Some (s\<lparr>ext := Some (e\<lparr>group_reg := join_group (group_reg e) g (self_addr cx)\<rparr>)\<rparr>, c))"

section \<open>Callbacks as programs\<close>

text \<open>
  The calls of \<open>Ctx\<close>, its extension traits and, through \<open>raw_inner\<close>, of \<open>ContextInner\<close>.
  Spawning through \<open>raw_inner\<close> with an address of the caller's choice is left out.
\<close>

datatype ('a, 'm, 'r) call =
    CallSend actor_address "'m any"
  | CallSpawn 'a
  | CallSpawnBuilder 'a "(type_id \<times> env_value) list"
  | CallStopSelf
  | CallStopActor actor_address
  | CallStopWith exit_value
  | CallSuspendSelf
  | CallSystemInfo
  | CallWatch actor_address
  | CallJoinGroup string
  | RawSend actor_address "'m any"
  | RawStop actor_address
  | RawStopWith actor_address exit_value
  | RawSuspend actor_address
  | RawResume actor_address
  | RawWorkerRequest 'r

datatype call_result = Unit | Result "error + unit" | Spawned "error + actor_address" | Info system_info

datatype ('a, 'm, 'r) prog =
    Done 'a
  | Panic 'a
  | Do 'a "('a, 'm, 'r) call" "call_result \<Rightarrow> ('a, 'm, 'r) prog"

fun run_call ::
  "('m, 'z) net_scheme \<Rightarrow> worker_id \<Rightarrow> ctx \<Rightarrow> ('a, 'm, 'r) call \<Rightarrow> ('a, 'm, 'r) tick_state
    \<Rightarrow> call_result option \<times> ('a, 'm, 'r) tick_state" where
  "run_call N w cx (CallSend a m) st = (case ctx_send N w cx a m st of (r, st') \<Rightarrow> (Some (Result r), st'))"
| "run_call N w cx (CallSpawn x) st = (case ctx_spawn N w cx x st of (r, st') \<Rightarrow> (Some (Spawned r), st'))"
| "run_call N w cx (CallSpawnBuilder x vs) st =
     (case spawn_builder_finish N w cx x vs st of (r, st') \<Rightarrow> (Some (Spawned r), st'))"
| "run_call N w cx CallStopSelf st = (Some Unit, request_stop (self_addr cx) st)"
| "run_call N w cx (CallStopActor a) st =
     (case ctx_stop_actor N w cx a st of (r, st') \<Rightarrow> (Some (Result r), st'))"
| "run_call N w cx (CallStopWith v) st = (Some Unit, request_stop_with (self_addr cx) v st)"
| "run_call N w cx CallSuspendSelf st = (Some Unit, request_suspend (self_addr cx) st)"
| "run_call N w cx CallSystemInfo st = (Some (Info (system_info_of w st)), st)"
| "run_call N w cx (CallWatch a) st =
     (case ctx_watch cx a st of None \<Rightarrow> (None, st) | Some st' \<Rightarrow> (Some Unit, st'))"
| "run_call N w cx (CallJoinGroup g) st =
     (case ctx_join_group cx g st of None \<Rightarrow> (None, st) | Some st' \<Rightarrow> (Some Unit, st'))"
| "run_call N w cx (RawSend a m) st = (case send_any N w a m st of (r, st') \<Rightarrow> (Some (Result r), st'))"
| "run_call N w cx (RawStop a) st = (Some Unit, request_stop a st)"
| "run_call N w cx (RawStopWith a v) st = (Some Unit, request_stop_with a v st)"
| "run_call N w cx (RawSuspend a) st = (Some Unit, request_suspend a st)"
| "run_call N w cx (RawResume a) st = (Some Unit, request_resume a st)"
| "run_call N w cx (RawWorkerRequest r) st = (Some Unit, post_worker_request r st)"

text \<open>Running a callback under \<open>catch_unwind\<close>: whether it panicked, and the actor's state after it.\<close>

primrec run_prog ::
  "('m, 'z) net_scheme \<Rightarrow> worker_id \<Rightarrow> ctx \<Rightarrow> ('a, 'm, 'r) prog \<Rightarrow> ('a, 'm, 'r) tick_state
    \<Rightarrow> (bool \<times> 'a) \<times> ('a, 'm, 'r) tick_state" where
  "run_prog N w cx (Done a) st = ((False, a), st)"
| "run_prog N w cx (Panic a) st = ((True, a), st)"
| "run_prog N w cx (Do a c k) st =
     (case run_call N w cx c st of
        (None, st') \<Rightarrow> ((True, a), st')
      | (Some r, st') \<Rightarrow> run_prog N w cx (k r) st')"

text \<open>
  The lifting rule of the theory: a reflexive and transitive relation on tick states that every
  call respects is respected by every callback.
\<close>

lemma run_prog_lift:
  assumes refl: "\<And>st. R st st" and trans: "\<And>a b c. R a b \<Longrightarrow> R b c \<Longrightarrow> R a c"
    and call: "\<And>c st. R st (snd (run_call N w cx c st))"
  shows "R st (snd (run_prog N w cx p st))"
proof (induction p arbitrary: st)
  case (Do a c k)
  have "R st (snd (run_call N w cx c st))" by (rule call)
  then show ?case using Do.IH by (auto split: prod.split option.split intro: trans rangeI)
qed (auto intro: refl)

end
