(* ===== verification/Actor_Pool.thy ===== *)
theory Actor_Pool
  imports Context
begin

text \<open>
  A worker's actors (\<open>ActorSlot\<close>, \<open>ActorPool\<close> and the lifecycle helpers of \<open>src/worker.rs\<close>, and
  the \<open>AnyActor\<close> dispatch of \<open>src/actor.rs\<close>): installing a spawn, delivering to a mailbox,
  the administrative operations, running the callbacks of all actors for one pass, removing the
  dead, and the snapshots for observers. The iteration order of the hash map is the order of the
  association list.
\<close>

section \<open>User actors\<close>

text \<open>
  \<open>system\<close> adds to \<open>net\<close> the user's code: \<open>incoming a m\<close> says that the boxed message downcasts to
  the actor's \<open>Incoming\<close> type, the callbacks are programs, and the type names are those of the
  metadata. The operations of the optional per-worker extension come last.
\<close>

record ('a, 'm, 'r, 'w) system = "'m net" +
  incoming :: "'a \<Rightarrow> 'm any \<Rightarrow> bool"
  handle :: "'a \<Rightarrow> ctx \<Rightarrow> 'm any \<Rightarrow> ('a, 'm, 'r) prog"
  handle_down :: "'a \<Rightarrow> ctx \<Rightarrow> down \<Rightarrow> ('a, 'm, 'r) prog"
  on_actor_exit :: "'a \<Rightarrow> ctx \<Rightarrow> actor_exited \<Rightarrow> ('a, 'm, 'r) prog"
  on_start :: "'a \<Rightarrow> ctx \<Rightarrow> ('a, 'm, 'r) prog"
  on_stop :: "'a \<Rightarrow> ctx \<Rightarrow> ('a, 'm, 'r) prog"
  actor_type_name :: "'a \<Rightarrow> string"
  message_type_name :: "'a \<Rightarrow> string"
  we_has_pending_work :: "'w \<Rightarrow> bool"
  we_on_tick :: "'w \<Rightarrow> (actor_address \<times> 'm any) list \<times> 'w"
  we_handle_request :: "'w \<Rightarrow> 'r \<Rightarrow> 'w"
  we_gc_dead :: "'w \<Rightarrow> actor_address list \<Rightarrow> 'w"

text \<open>Whether the callback panicked, the type name it handled (if any), and the actor after it.\<close>

definition handle_any ::
  "('a, 'm, 'r, 'w) system \<Rightarrow> worker_id \<Rightarrow> ctx \<Rightarrow> 'a \<Rightarrow> 'm any \<Rightarrow> ('a, 'm, 'r) tick_state
    \<Rightarrow> (bool \<times> string option \<times> 'a) \<times> ('a, 'm, 'r) tick_state" where
  "handle_any S w cx a msg st =
     (if incoming S a msg then
        (case run_prog S w cx (handle S a cx msg) st of ((p, a'), st') \<Rightarrow>
           ((p, Some (message_type_name S a), a'), st'))
      else case msg of
        DownMsg d \<Rightarrow>
          (case run_prog S w cx (handle_down S a cx d) st of ((p, a'), st') \<Rightarrow>
             ((p, Some ''swactor::actor::Down'', a'), st'))
      | ActorExitedMsg e \<Rightarrow>
          (case run_prog S w cx (on_actor_exit S a cx e) st of ((p, a'), st') \<Rightarrow>
             ((p, Some ''ActorExited'', a'), st'))
      | _ \<Rightarrow> ((False, None, a), st))"

section \<open>Slots and pools\<close>

record ('a, 'm) actor_slot =
  mailbox :: "'m any list"
  actor :: 'a
  poisoned :: bool
  stopping :: bool
  started :: bool
  suspended :: bool
  last_msg_type :: "string option"
  messages_processed :: nat
  mailbox_max_depth :: nat
  msg_type_counts :: "(string \<times> nat) list"
  parent_addr :: "actor_address option"
  slot_env :: environment
  exit_value :: "exit_value option"

record ('a, 'm) actor_pool =
  actors :: "(actor_address \<times> ('a, 'm) actor_slot) list"
  vital_dirty :: bool

definition should_skip_actor :: "bool \<Rightarrow> bool \<Rightarrow> bool \<Rightarrow> bool" where
  "should_skip_actor p st su \<longleftrightarrow> p \<or> st \<or> su"

definition is_on_stop_eligible :: "bool \<Rightarrow> bool \<Rightarrow> bool" where
  "is_on_stop_eligible st p \<longleftrightarrow> st \<and> \<not> p"

definition determine_stop_reason :: "bool \<Rightarrow> bool \<Rightarrow> stop_reason" where
  "determine_stop_reason p has_exit_value =
     (if p then StopPanicked else if has_exit_value then StopCompleted else StopNormal)"

definition pool_new :: "('a, 'm) actor_pool" where
  "pool_new = \<lparr>actors = [], vital_dirty = False\<rparr>"

definition slot_new :: "'a spawn_request \<Rightarrow> ('a, 'm) actor_slot" where
  "slot_new req = \<lparr>mailbox = [], actor = sr_actor req, poisoned = False, stopping = False,
     started = False, suspended = False, last_msg_type = None, messages_processed = 0,
     mailbox_max_depth = 0, msg_type_counts = [], parent_addr = sr_parent req, slot_env = sr_env req,
     exit_value = None\<rparr>"

definition pool_insert :: "'a spawn_request \<Rightarrow> ('a, 'm) actor_pool \<Rightarrow> ('a, 'm) actor_pool" where
  "pool_insert req p = \<lparr>actors = hm_insert (sr_addr req) (slot_new req) (actors p), vital_dirty = True\<rparr>"

definition slot_deliver :: "'m any \<Rightarrow> ('a, 'm) actor_slot \<Rightarrow> ('a, 'm) actor_slot" where
  "slot_deliver msg slot =
     (let push = slot\<lparr>mailbox := mailbox slot @ [msg],
                      mailbox_max_depth := max (mailbox_max_depth slot) (length (mailbox slot) + 1)\<rparr> in
      if suspended slot then
        (case msg of
           ResumeSignal \<Rightarrow> slot\<lparr>suspended := False\<rparr>
         | StopSignal \<Rightarrow> slot\<lparr>stopping := True, mailbox := []\<rparr>
         | StopWithSignal v \<Rightarrow> slot\<lparr>exit_value := Some v, stopping := True, mailbox := []\<rparr>
         | _ \<Rightarrow> push)
      else push)"

definition pool_deliver ::
  "actor_address \<Rightarrow> 'm any \<Rightarrow> ('a, 'm) actor_pool \<Rightarrow> bool \<times> ('a, 'm) actor_pool" where
  "pool_deliver addr msg p =
     (case map_of (actors p) addr of
        Some slot \<Rightarrow> (True, p\<lparr>actors := hm_insert addr (slot_deliver msg slot) (actors p)\<rparr>)
      | None \<Rightarrow> (False, p))"

definition pool_contains :: "('a, 'm) actor_pool \<Rightarrow> actor_address \<Rightarrow> bool" where
  "pool_contains p addr \<longleftrightarrow> map_of (actors p) addr \<noteq> None"

definition pool_len :: "('a, 'm) actor_pool \<Rightarrow> nat" where
  "pool_len p = length (actors p)"

definition pool_mailbox_depth :: "('a, 'm) actor_pool \<Rightarrow> nat" where
  "pool_mailbox_depth p = sum_list (map (\<lambda>(_, slot). length (mailbox slot)) (actors p))"

section \<open>Administration\<close>

definition actor_summary_from_slot ::
  "('a, 'm, 'r, 'w) system \<Rightarrow> worker_id \<Rightarrow> actor_address \<Rightarrow> ('a, 'm) actor_slot \<Rightarrow> actor_summary" where
  "actor_summary_from_slot S w addr slot =
     \<lparr>sum_address = addr, sum_actor_type = actor_type_name S (actor slot),
      sum_message_type = message_type_name S (actor slot), sum_worker_id = w,
      sum_parent = parent_addr slot, sum_mailbox_depth = length (mailbox slot),
      sum_status = \<lparr>st_started = started slot, st_suspended = suspended slot,
        st_stopping = stopping slot, st_poisoned = poisoned slot\<rparr>,
      sum_last_message_type = last_msg_type slot, sum_messages_handled = messages_processed slot\<rparr>"

definition pool_actor_summary ::
  "('a, 'm, 'r, 'w) system \<Rightarrow> worker_id \<Rightarrow> actor_address \<Rightarrow> ('a, 'm) actor_pool
    \<Rightarrow> admin_error + actor_summary" where
  "pool_actor_summary S w addr p =
     (case map_of (actors p) addr of
        Some slot \<Rightarrow> Inr (actor_summary_from_slot S w addr slot)
      | None \<Rightarrow> Inl (ActorNotFound addr))"

definition actor_summaries_into ::
  "('a, 'm, 'r, 'w) system \<Rightarrow> worker_id \<Rightarrow> actor_summary list \<Rightarrow> ('a, 'm) actor_pool \<Rightarrow> actor_summary list" where
  "actor_summaries_into S w out p =
     out @ map (\<lambda>(addr, slot). actor_summary_from_slot S w addr slot) (actors p)"

definition suspend_actor_admin ::
  "actor_address \<Rightarrow> ('a, 'm) actor_pool \<Rightarrow> (admin_error + bool) \<times> ('a, 'm) actor_pool" where
  "suspend_actor_admin addr p =
     (case map_of (actors p) addr of
        Some slot \<Rightarrow> (Inr True, p\<lparr>actors := hm_insert addr (slot\<lparr>suspended := True\<rparr>) (actors p)\<rparr>)
      | None \<Rightarrow> (Inl (ActorNotFound addr), p))"

definition resume_actor_admin ::
  "actor_address \<Rightarrow> ('a, 'm) actor_pool \<Rightarrow> (admin_error + bool) \<times> ('a, 'm) actor_pool" where
  "resume_actor_admin addr p =
     (case map_of (actors p) addr of
        Some slot \<Rightarrow> (Inr True, p\<lparr>actors := hm_insert addr (slot\<lparr>suspended := False\<rparr>) (actors p)\<rparr>)
      | None \<Rightarrow> (Inl (ActorNotFound addr), p))"

definition bump_stops :: "worker_stats \<Rightarrow> worker_stats" where
  "bump_stops ws = ws\<lparr>stops := stops ws + 1\<rparr>"

definition stop_actor_admin ::
  "actor_address \<Rightarrow> ('a, 'm) actor_pool \<Rightarrow> worker_stats
    \<Rightarrow> (admin_error + bool) \<times> ('a, 'm) actor_pool \<times> worker_stats" where
  "stop_actor_admin addr p ws =
     (case map_of (actors p) addr of
        Some slot \<Rightarrow>
          (Inr True, p\<lparr>actors := hm_insert addr (slot\<lparr>stopping := True, mailbox := []\<rparr>) (actors p)\<rparr>,
           if stopping slot then ws else bump_stops ws)
      | None \<Rightarrow> (Inl (ActorNotFound addr), p, ws))"

section \<open>One pass over the actors\<close>

definition bump_panics :: "worker_stats \<Rightarrow> worker_stats" where
  "bump_panics ws = ws\<lparr>panics := panics ws + 1\<rparr>"

definition bump_mismatches :: "worker_stats \<Rightarrow> worker_stats" where
  "bump_mismatches ws = ws\<lparr>type_mismatches := type_mismatches ws + 1\<rparr>"

definition on_shared ::
  "(('a, 'm) runtime_shared \<Rightarrow> ('a, 'm) runtime_shared) \<Rightarrow> ('a, 'm, 'r) tick_state \<Rightarrow> ('a, 'm, 'r) tick_state" where
  "on_shared f st = (f (fst st), snd st)"

definition sorted_type_counts :: "('a, 'm) actor_slot \<Rightarrow> (string \<times> nat) list" where
  "sorted_type_counts slot = sort_key (\<lambda>(_, n). - int n) (msg_type_counts slot)"

definition slot_ctx :: "actor_address \<Rightarrow> ('a, 'm) actor_slot \<Rightarrow> ctx" where
  "slot_ctx addr slot = \<lparr>self_addr = addr, self_parent_addr = parent_addr slot, self_env = slot_env slot,
     self_messages_processed = messages_processed slot, self_mailbox_depth = length (mailbox slot),
     self_msg_type_counts = sorted_type_counts slot\<rparr>"

text \<open>\<open>Vec::swap_remove\<close> of the first entry of an address, with the removed value.\<close>

definition swap_remove :: "nat \<Rightarrow> 'b list \<Rightarrow> 'b list" where
  "swap_remove i xs = (if i = length xs - 1 then butlast xs else (butlast xs)[i := last xs])"

fun position :: "('b \<Rightarrow> bool) \<Rightarrow> 'b list \<Rightarrow> nat option" where
  "position P [] = None"
| "position P (x # xs) = (if P x then Some 0 else map_option Suc (position P xs))"

definition take_stop_with ::
  "actor_address \<Rightarrow> ('a, 'm, 'r) tick_state \<Rightarrow> exit_value option \<times> ('a, 'm, 'r) tick_state" where
  "take_stop_with addr st =
     (case position (\<lambda>(a, _). a = addr) (stop_with_values (snd st)) of
        None \<Rightarrow> (None, st)
      | Some i \<Rightarrow> (Some (snd (stop_with_values (snd st) ! i)),
                   (fst st, (snd st)\<lparr>stop_with_values := swap_remove i (stop_with_values (snd st))\<rparr>)))"

definition set_exit :: "exit_value option \<Rightarrow> ('a, 'm) actor_slot \<Rightarrow> ('a, 'm) actor_slot" where
  "set_exit v slot = (case v of None \<Rightarrow> slot | Some x \<Rightarrow> slot\<lparr>exit_value := Some x\<rparr>)"

text \<open>
  The first call of an actor. The result says whether the pass is over for this actor, and
  whether the pool became dirty.
\<close>

definition run_on_start ::
  "('a, 'm, 'r, 'w) system \<Rightarrow> worker_id \<Rightarrow> ctx \<Rightarrow> ('a, 'm) actor_slot \<Rightarrow> ('a, 'm, 'r) tick_state
    \<Rightarrow> bool \<times> bool \<times> ('a, 'm) actor_slot \<times> ('a, 'm, 'r) tick_state" where
  "run_on_start S w cx slot st =
     (let addr = self_addr cx in
      case run_prog S w cx (on_start S (actor slot) cx) st of ((panicked, a), st1) \<Rightarrow>
      let slot1 = slot\<lparr>actor := a, started := True\<rparr> in
      if panicked then
        (True, True, slot1\<lparr>poisoned := True, mailbox := []\<rparr>, on_shared (upd_stats w bump_panics) st1)
      else if addr \<in> set (stop_requests (snd st1)) then
        (case take_stop_with addr (on_shared (upd_stats w bump_stops) st1) of (v, st2) \<Rightarrow>
           (True, False, set_exit v (slot1\<lparr>stopping := True, mailbox := []\<rparr>), st2))
      else case take_stop_with addr st1 of
        (Some v, st2) \<Rightarrow>
          (True, False, slot1\<lparr>exit_value := Some v, stopping := True, mailbox := []\<rparr>,
           on_shared (upd_stats w bump_stops) st2)
      | (None, st2) \<Rightarrow>
          if addr \<in> set (suspend_requests (snd st2))
          then (True, False, slot1\<lparr>suspended := True\<rparr>, st2)
          else (False, False, slot1, st2))"

definition count_type :: "string \<Rightarrow> (string \<times> nat) list \<Rightarrow> (string \<times> nat) list" where
  "count_type t cs =
     (if length cs < 32 \<or> map_of cs t \<noteq> None
      then hm_insert t ((case map_of cs t of None \<Rightarrow> 0 | Some n \<Rightarrow> n) + 1) cs else cs)"

definition note_handled :: "string \<Rightarrow> ('a, 'm) actor_slot \<Rightarrow> ('a, 'm) actor_slot" where
  "note_handled t slot = slot\<lparr>last_msg_type := Some t, messages_processed := messages_processed slot + 1,
     msg_type_counts := count_type t (msg_type_counts slot)\<rparr>"

text \<open>
  One turn of the message loop, with the message already taken from the mailbox and \<open>k\<close> messages
  handled so far: whether the loop is left, the new count, whether the pool became dirty, the slot
  and the state.
\<close>

definition process_message ::
  "('a, 'm, 'r, 'w) system \<Rightarrow> worker_id \<Rightarrow> nat \<Rightarrow> ctx \<Rightarrow> nat \<Rightarrow> ('a, 'm) actor_slot \<Rightarrow> 'm any
    \<Rightarrow> ('a, 'm, 'r) tick_state \<Rightarrow> bool \<times> nat \<times> bool \<times> ('a, 'm) actor_slot \<times> ('a, 'm, 'r) tick_state" where
  "process_message S w budget cx k slot msg st =
     (case msg of
        StopSignal \<Rightarrow>
          (True, k, False, slot\<lparr>stopping := True, mailbox := []\<rparr>, on_shared (upd_stats w bump_stops) st)
      | StopWithSignal v \<Rightarrow>
          (True, k, False, slot\<lparr>exit_value := Some v, stopping := True, mailbox := []\<rparr>,
           on_shared (upd_stats w bump_stops) st)
      | _ \<Rightarrow>
        (case handle_any S w cx (actor slot) msg st of ((panicked, handled, a), st1) \<Rightarrow>
         if panicked then
           (True, k, True, slot\<lparr>actor := a, poisoned := True, mailbox := []\<rparr>,
            on_shared (upd_stats w bump_panics) st1)
         else
           let addr = self_addr cx;
               slot1 = (case handled of None \<Rightarrow> slot\<lparr>actor := a\<rparr> | Some t \<Rightarrow> note_handled t (slot\<lparr>actor := a\<rparr>));
               st2 = (case handled of None \<Rightarrow> on_shared (upd_stats w bump_mismatches) st1 | Some t \<Rightarrow> st1);
               has_stop = (addr \<in> set (stop_requests (snd st2)));
               (v, st3) = take_stop_with addr st2 in
           if has_stop \<or> v \<noteq> None then
             (True, k + 1, False, (set_exit v slot1)\<lparr>stopping := True, mailbox := []\<rparr>,
              on_shared (upd_stats w bump_stops) st3)
           else if addr \<in> set (suspend_requests (snd st3)) then
             (True, k + 1, False, slot1\<lparr>suspended := True\<rparr>, st3)
           else (budget > 0 \<and> k + 1 \<ge> budget, k + 1, False, slot1, st3)))"

text \<open>The message loop, over the messages still in the mailbox.\<close>

fun drain_mailbox ::
  "('a, 'm, 'r, 'w) system \<Rightarrow> worker_id \<Rightarrow> nat \<Rightarrow> ctx \<Rightarrow> nat \<Rightarrow> ('a, 'm) actor_slot \<Rightarrow> 'm any list
    \<Rightarrow> ('a, 'm, 'r) tick_state \<Rightarrow> nat \<times> bool \<times> ('a, 'm) actor_slot \<times> ('a, 'm, 'r) tick_state" where
  "drain_mailbox S w budget cx k slot [] st = (k, False, slot, st)"
| "drain_mailbox S w budget cx k slot (msg # ms) st =
     (case process_message S w budget cx k (slot\<lparr>mailbox := ms\<rparr>) msg st of (over, k', d, slot', st') \<Rightarrow>
        if over then (k', d, slot', st')
        else drain_mailbox S w budget cx k' slot' ms st')"

definition tick_slot ::
  "('a, 'm, 'r, 'w) system \<Rightarrow> worker_id \<Rightarrow> nat \<Rightarrow> actor_address \<Rightarrow> ('a, 'm) actor_slot
    \<Rightarrow> ('a, 'm, 'r) tick_state \<Rightarrow> nat \<times> bool \<times> ('a, 'm) actor_slot \<times> ('a, 'm, 'r) tick_state" where
  "tick_slot S w budget addr slot st =
     (if should_skip_actor (poisoned slot) (stopping slot) (suspended slot) then
        (0, False, if poisoned slot \<or> stopping slot then slot\<lparr>mailbox := []\<rparr> else slot, st)
      else
        let cx = slot_ctx addr slot in
        case (if started slot then (False, False, slot, st) else run_on_start S w cx slot st) of
          (over, dirty, slot1, st1) \<Rightarrow>
            if over then (0, dirty, slot1, st1)
            else drain_mailbox S w budget cx 0 slot1 (mailbox slot1) st1)"

fun tick_slots ::
  "('a, 'm, 'r, 'w) system \<Rightarrow> worker_id \<Rightarrow> nat \<Rightarrow> (actor_address \<times> ('a, 'm) actor_slot) list
    \<Rightarrow> ('a, 'm, 'r) tick_state
    \<Rightarrow> nat \<times> bool \<times> (actor_address \<times> ('a, 'm) actor_slot) list \<times> ('a, 'm, 'r) tick_state" where
  "tick_slots S w budget [] st = (0, False, [], st)"
| "tick_slots S w budget ((addr, slot) # rest) st =
     (case tick_slot S w budget addr slot st of (n, d, slot', st1) \<Rightarrow>
      case tick_slots S w budget rest st1 of (n', d', rest', st2) \<Rightarrow>
        (n + n', d \<or> d', (addr, slot') # rest', st2))"

definition tick_all ::
  "('a, 'm, 'r, 'w) system \<Rightarrow> worker_id \<Rightarrow> nat \<Rightarrow> ('a, 'm) actor_pool \<Rightarrow> ('a, 'm, 'r) tick_state
    \<Rightarrow> nat \<times> ('a, 'm) actor_pool \<times> ('a, 'm, 'r) tick_state" where
  "tick_all S w budget p st =
     (case tick_slots S w budget (actors p) st of (n, d, slots, st') \<Rightarrow>
        (n, \<lparr>actors = slots, vital_dirty = vital_dirty p \<or> d\<rparr>, st'))"

section \<open>Removing the dead\<close>

definition dead_slot :: "('a, 'm) actor_slot \<Rightarrow> bool" where
  "dead_slot slot \<longleftrightarrow> poisoned slot \<or> stopping slot"

fun cleanup_each ::
  "('a, 'm, 'r, 'w) system \<Rightarrow> worker_id \<Rightarrow> actor_address list \<Rightarrow> ('a, 'm) actor_pool \<Rightarrow> ('a, 'm, 'r) tick_state
    \<Rightarrow> dead_actor list \<times> ('a, 'm) actor_pool \<times> ('a, 'm, 'r) tick_state" where
  "cleanup_each S w [] p st = ([], p, st)"
| "cleanup_each S w (addr # addrs) p st =
     (case map_of (actors p) addr of
        None \<Rightarrow> cleanup_each S w addrs p st
      | Some slot \<Rightarrow>
          let p1 = \<lparr>actors = hm_remove addr (actors p), vital_dirty = True\<rparr>;
              reason = determine_stop_reason (poisoned slot) (exit_value slot \<noteq> None);
              st1 = (if is_on_stop_eligible (stopping slot) (poisoned slot)
                     then snd (run_prog S w (slot_ctx addr slot) (on_stop S (actor slot) (slot_ctx addr slot)) st)
                     else st) in
          case cleanup_each S w addrs p1 st1 of (dead, p2, st2) \<Rightarrow>
            ((addr, reason, exit_value slot) # dead, p2, st2))"

definition pool_cleanup_dead ::
  "('a, 'm, 'r, 'w) system \<Rightarrow> worker_id \<Rightarrow> ('a, 'm) actor_pool \<Rightarrow> ('a, 'm, 'r) tick_state
    \<Rightarrow> dead_actor list \<times> ('a, 'm) actor_pool \<times> ('a, 'm, 'r) tick_state" where
  "pool_cleanup_dead S w p st =
     cleanup_each S w (map fst (filter (\<lambda>(_, slot). poisoned slot \<or> stopping slot) (actors p))) p st"

section \<open>Snapshots\<close>

definition slot_snapshot ::
  "('a, 'm, 'r, 'w) system \<Rightarrow> actor_address \<Rightarrow> ('a, 'm) actor_slot \<Rightarrow> actor_snapshot" where
  "slot_snapshot S addr slot =
     \<lparr>snap_address = addr, snap_mailbox_depth = length (mailbox slot),
      snap_mailbox_max_depth = max (mailbox_max_depth slot) (length (mailbox slot)),
      snap_last_msg_type = last_msg_type slot,
      snap_actor_type = Some (actor_type_name S (actor slot)),
      snap_message_type = Some (message_type_name S (actor slot)),
      snap_messages_processed = messages_processed slot, snap_poisoned = poisoned slot,
      snap_type_counts = sorted_type_counts slot\<rparr>"

definition actor_snapshots_into ::
  "('a, 'm, 'r, 'w) system \<Rightarrow> bool \<Rightarrow> ('a, 'm) actor_pool \<Rightarrow> actor_snapshot list \<times> ('a, 'm) actor_pool" where
  "actor_snapshots_into S reset p =
     (map (\<lambda>(addr, slot). slot_snapshot S addr slot) (actors p),
      if reset then p\<lparr>actors := map (\<lambda>(addr, slot). (addr, slot\<lparr>mailbox_max_depth := length (mailbox slot)\<rparr>)) (actors p)\<rparr>
      else p)"

definition take_vital_dirty :: "('a, 'm) actor_pool \<Rightarrow> bool \<times> ('a, 'm) actor_pool" where
  "take_vital_dirty p = (vital_dirty p, p\<lparr>vital_dirty := False\<rparr>)"

section \<open>What a pass does to a slot\<close>

lemma set_exit_simps [simp]:
  "mailbox (set_exit v slot) = mailbox slot" "stopping (set_exit v slot) = stopping slot"
  "poisoned (set_exit v slot) = poisoned slot" "started (set_exit v slot) = started slot"
  "suspended (set_exit v slot) = suspended slot" "actor (set_exit v slot) = actor slot"
  by (simp_all add: set_exit_def split: option.split)

lemma note_handled_simps [simp]:
  "mailbox (note_handled t slot) = mailbox slot" "stopping (note_handled t slot) = stopping slot"
  "poisoned (note_handled t slot) = poisoned slot" "started (note_handled t slot) = started slot"
  "suspended (note_handled t slot) = suspended slot" "actor (note_handled t slot) = actor slot"
  by (simp_all add: note_handled_def)

text \<open>A message that is not a stop signal, with the intermediate results named.\<close>

lemma process_message_unfold:
  assumes "\<not> (msg = StopSignal \<or> (\<exists>v. msg = StopWithSignal v))"
    and "handle_any S w cx (actor slot) msg st = ((p, h, a), st1)"
    and "slot1 = (case h of None \<Rightarrow> slot\<lparr>actor := a\<rparr> | Some t \<Rightarrow> note_handled t (slot\<lparr>actor := a\<rparr>))"
    and "st2 = (case h of None \<Rightarrow> on_shared (upd_stats w bump_mismatches) st1 | Some t \<Rightarrow> st1)"
    and "take_stop_with (self_addr cx) st2 = (v, st3)"
  shows "process_message S w budget cx k slot msg st =
     (if p then (True, k, True, slot\<lparr>actor := a, poisoned := True, mailbox := []\<rparr>, on_shared (upd_stats w bump_panics) st1)
      else if self_addr cx \<in> set (stop_requests (snd st2)) \<or> v \<noteq> None then
        (True, k + 1, False, (set_exit v slot1)\<lparr>stopping := True, mailbox := []\<rparr>, on_shared (upd_stats w bump_stops) st3)
      else if self_addr cx \<in> set (suspend_requests (snd st3)) then
        (True, k + 1, False, slot1\<lparr>suspended := True\<rparr>, st3)
      else (budget > 0 \<and> k + 1 \<ge> budget, k + 1, False, slot1, st3))"
  using assms(1,2,5) unfolding process_message_def
  by (cases msg) (simp_all add: Let_def assms(3) [symmetric] assms(4) [symmetric])

text \<open>The four ways a message ends, as far as the slot's flags and mailbox are concerned.\<close>

lemma process_message_cases:
  assumes "process_message S w budget cx k slot msg st = (over, k', d, slot', st')"
  obtains
    (stop) "over" "k' = k \<or> k' = k + 1" "\<not> d" "mailbox slot' = []" "stopping slot'"
      "poisoned slot' = poisoned slot" "started slot' = started slot"
  | (panic) "over" "k' = k" "d" "mailbox slot' = []" "poisoned slot'" "started slot' = started slot"
  | (suspend) "over" "k' = k + 1" "\<not> d" "mailbox slot' = mailbox slot" "suspended slot'"
      "stopping slot' = stopping slot" "poisoned slot' = poisoned slot" "started slot' = started slot"
  | (continue) "over \<longleftrightarrow> budget > 0 \<and> k + 1 \<ge> budget" "k' = k + 1" "\<not> d" "mailbox slot' = mailbox slot"
      "suspended slot' = suspended slot" "stopping slot' = stopping slot"
      "poisoned slot' = poisoned slot" "started slot' = started slot"
proof (cases "msg = StopSignal \<or> (\<exists>v. msg = StopWithSignal v)")
  case True
  with assms show ?thesis by (intro stop) (auto simp: process_message_def)
next
  case False
  obtain p h a st1 where h: "handle_any S w cx (actor slot) msg st = ((p, h, a), st1)" by (metis surj_pair)
  define slot1 where "slot1 = (case h of None \<Rightarrow> slot\<lparr>actor := a\<rparr> | Some t \<Rightarrow> note_handled t (slot\<lparr>actor := a\<rparr>))"
  define st2 where "st2 = (case h of None \<Rightarrow> on_shared (upd_stats w bump_mismatches) st1 | Some t \<Rightarrow> st1)"
  obtain v st3 where t: "take_stop_with (self_addr cx) st2 = (v, st3)" by (metis surj_pair)
  have s1: "stopping slot1 = stopping slot" "poisoned slot1 = poisoned slot"
    "suspended slot1 = suspended slot" "started slot1 = started slot" "mailbox slot1 = mailbox slot"
    by (auto simp: slot1_def split: option.split)
  note r = assms [symmetric, unfolded process_message_unfold [OF False h slot1_def st2_def t]]
  show ?thesis
  proof (cases p)
    case True
    with r show ?thesis by (intro panic) auto
  next
    case p: False
    show ?thesis
    proof (cases "self_addr cx \<in> set (stop_requests (snd st2)) \<or> v \<noteq> None")
      case True
      with p r s1 show ?thesis by (intro stop) auto
    next
      case ns: False
      show ?thesis
      proof (cases "self_addr cx \<in> set (suspend_requests (snd st3))")
        case True
        with p ns r s1 show ?thesis by (intro suspend) auto
      next
        case False
        with p ns r s1 show ?thesis by (intro continue) auto
      qed
    qed
  qed
qed

text \<open>
  The message loop takes a prefix of the mailbox, in order, of at most the budget; only an actor
  that stops or panics loses the rest. A loop that handles nothing found nothing or killed the actor.
\<close>

lemma drain_mailbox_flow:
  assumes "drain_mailbox S w budget cx k slot ms st = (n, d, slot', st')" "mailbox slot = ms"
  shows "k \<le> n \<and> n - k \<le> length ms \<and> (budget > 0 \<and> k < budget \<longrightarrow> n \<le> budget) \<and>
    (mailbox slot' = drop (n - k) ms \<or> mailbox slot' = [] \<and> dead_slot slot') \<and>
    started slot' = started slot \<and> (dead_slot slot \<longrightarrow> dead_slot slot') \<and>
    (n = k \<longrightarrow> dead_slot slot' \<or> ms = [] \<and> slot' = slot)"
  using assms
proof (induction ms arbitrary: k slot st)
  case (Cons msg ms)
  obtain over k1 d1 slot1 st1
    where pm: "process_message S w budget cx k (slot\<lparr>mailbox := ms\<rparr>) msg st = (over, k1, d1, slot1, st1)"
    by (metis surj_pair)
  from pm show ?case
  proof (cases rule: process_message_cases)
    case continue
    show ?thesis
    proof (cases over)
      case True
      with continue pm Cons.prems show ?thesis by (auto simp: dead_slot_def)
    next
      case False
      with pm Cons.prems have "drain_mailbox S w budget cx k1 slot1 ms st1 = (n, d, slot', st')" by simp
      note ih = Cons.IH [OF this]
      have k1: "k1 = k + 1" and m: "mailbox slot1 = ms" and nb: "budget > 0 \<longrightarrow> k + 1 < budget"
        using continue False by auto
      have dd: "dead_slot slot1 = dead_slot slot" "started slot1 = started slot"
        using continue by (simp_all add: dead_slot_def)
      have "n - k = Suc (n - k1)" using ih [OF m] k1 by arith
      with ih [OF m] k1 nb dd show ?thesis by simp
    qed
  qed (use pm Cons.prems in \<open>auto simp: dead_slot_def\<close>)
qed simp

lemma run_on_start_flow:
  assumes "run_on_start S w cx slot st = (over, d, slot', st')"
  shows "started slot' \<and> (\<not> over \<longrightarrow> mailbox slot' = mailbox slot \<and> poisoned slot' = poisoned slot \<and>
      stopping slot' = stopping slot \<and> suspended slot' = suspended slot) \<and>
    (over \<longrightarrow> mailbox slot' = [] \<and> dead_slot slot' \<or> mailbox slot' = mailbox slot \<and> suspended slot')"
  using assms
  by (auto simp: run_on_start_def Let_def dead_slot_def split: prod.splits if_splits option.splits)

lemma tick_slot_flow:
  assumes "tick_slot S w budget addr slot st = (n, d, slot', st')"
  shows "n \<le> length (mailbox slot) \<and> (budget > 0 \<longrightarrow> n \<le> budget) \<and>
    (mailbox slot' = drop n (mailbox slot) \<or> mailbox slot' = [] \<and> dead_slot slot') \<and>
    (n = 0 \<longrightarrow> dead_slot slot' \<or> suspended slot' \<or> started slot' \<and> mailbox slot' = [])"
proof (cases "should_skip_actor (poisoned slot) (stopping slot) (suspended slot)")
  case True
  with assms show ?thesis by (auto simp: tick_slot_def should_skip_actor_def dead_slot_def split: if_splits)
next
  case False
  let ?cx = "slot_ctx addr slot"
  obtain over d1 slot1 st1 where s: "(if started slot then (False, False, slot, st)
      else run_on_start S w ?cx slot st) = (over, d1, slot1, st1)" by (metis surj_pair)
  from s have f: "started slot1 \<and> (\<not> over \<longrightarrow> mailbox slot1 = mailbox slot \<and> poisoned slot1 = poisoned slot \<and>
      stopping slot1 = stopping slot \<and> suspended slot1 = suspended slot) \<and>
      (over \<longrightarrow> mailbox slot1 = [] \<and> dead_slot slot1 \<or> mailbox slot1 = mailbox slot \<and> suspended slot1)"
    by (auto split: if_splits dest: run_on_start_flow)
  show ?thesis
  proof (cases over)
    case True
    with f s False assms show ?thesis by (auto simp: tick_slot_def)
  next
    case over: False
    with s False assms have "drain_mailbox S w budget ?cx 0 slot1 (mailbox slot1) st1 = (n, d, slot', st')"
      by (simp add: tick_slot_def)
    from drain_mailbox_flow [OF this refl] f over show ?thesis by auto
  qed
qed

text \<open>
  One pass of one actor that handles \<open>n\<close> messages, and a slot with nothing to do in a pass.
\<close>

definition slot_pass :: "nat \<Rightarrow> nat \<Rightarrow> ('a, 'm) actor_slot \<Rightarrow> ('a, 'm) actor_slot \<Rightarrow> bool" where
  "slot_pass budget n slot slot' \<longleftrightarrow> n \<le> length (mailbox slot) \<and> (budget > 0 \<longrightarrow> n \<le> budget) \<and>
     (mailbox slot' = drop n (mailbox slot) \<or> mailbox slot' = [] \<and> dead_slot slot')"

definition idle_slot :: "('a, 'm) actor_slot \<Rightarrow> bool" where
  "idle_slot slot \<longleftrightarrow> suspended slot \<or> started slot \<and> mailbox slot = []"

lemma tick_slots_flow:
  assumes "tick_slots S w budget slots st = (n, d, slots', st')"
  shows "\<exists>ns. n = sum_list ns \<and> length ns = length slots \<and> map fst slots' = map fst slots \<and>
    (\<forall>i < length slots. slot_pass budget (ns ! i) (snd (slots ! i)) (snd (slots' ! i))) \<and>
    (n = 0 \<longrightarrow> (\<forall>x \<in> set slots'. dead_slot (snd x) \<or> idle_slot (snd x)))"
  using assms
proof (induction slots arbitrary: st n d slots' st')
  case (Cons x slots)
  obtain addr slot where x: "x = (addr, slot)" by fastforce
  obtain n1 d1 slot1 st1 where h: "tick_slot S w budget addr slot st = (n1, d1, slot1, st1)"
    by (metis surj_pair)
  obtain n2 d2 slots2 st2 where t: "tick_slots S w budget slots st1 = (n2, d2, slots2, st2)"
    by (metis surj_pair)
  from Cons.IH [OF t] obtain ns where ns: "n2 = sum_list ns \<and> length ns = length slots \<and>
    map fst slots2 = map fst slots \<and>
    (\<forall>i < length slots. slot_pass budget (ns ! i) (snd (slots ! i)) (snd (slots2 ! i))) \<and>
    (n2 = 0 \<longrightarrow> (\<forall>x \<in> set slots2. dead_slot (snd x) \<or> idle_slot (snd x)))" ..
  have r: "n = n1 + n2" "slots' = (addr, slot1) # slots2" using Cons.prems x h t by auto
  have f: "slot_pass budget n1 slot slot1" "n1 = 0 \<longrightarrow> dead_slot slot1 \<or> idle_slot slot1"
    using tick_slot_flow [OF h] by (auto simp: slot_pass_def idle_slot_def)
  show ?case
    using ns f by (intro exI [of _ "n1 # ns"]) (auto simp: r x nth_Cons split: nat.splits)
qed simp

lemma tick_slots_keys: "map fst (fst (snd (snd (tick_slots S w budget slots st)))) = map fst slots"
  by (metis tick_slots_flow prod.collapse)

section \<open>What cleanup removes\<close>

lemma map_of_hm_remove_Some: "map_of (hm_remove a m) b = Some x \<Longrightarrow> map_of m b = Some x"
  by (simp add: delete_conv' split: if_splits)

lemma cleanup_each_pool:
  "hm_inv (actors p) \<Longrightarrow> set addrs \<subseteq> set (map fst (actors p)) \<Longrightarrow> distinct addrs \<Longrightarrow>
   cleanup_each S w addrs p st = (dead, p', st') \<Longrightarrow>
   actors p' = filter (\<lambda>(a, _). a \<notin> set addrs) (actors p) \<and> map fst dead = addrs \<and>
   (\<forall>(a, r, v) \<in> set dead. \<exists>slot. map_of (actors p) a = Some slot \<and>
      r = determine_stop_reason (poisoned slot) (exit_value slot \<noteq> None) \<and> v = exit_value slot)"
proof (induction addrs arbitrary: p st dead)
  case (Cons a addrs)
  from Cons.prems(2) obtain slot where s: "map_of (actors p) a = Some slot"
    by (metis list.set_intros(1) map_of_eq_None_iff not_None_eq set_map subset_iff)
  let ?p = "\<lparr>actors = hm_remove a (actors p), vital_dirty = True\<rparr>"
  obtain st1 dead1 where c: "cleanup_each S w addrs ?p st1 = (dead1, p', st')"
    and d: "dead = (a, determine_stop_reason (poisoned slot) (exit_value slot \<noteq> None), exit_value slot) # dead1"
    using Cons.prems(4) s by (auto simp: Let_def split: prod.splits if_splits)
  have "actors p' = filter (\<lambda>(a, _). a \<notin> set addrs) (hm_remove a (actors p)) \<and> map fst dead1 = addrs \<and>
    (\<forall>(b, r, v) \<in> set dead1. \<exists>slot. map_of (hm_remove a (actors p)) b = Some slot \<and>
      r = determine_stop_reason (poisoned slot) (exit_value slot \<noteq> None) \<and> v = exit_value slot)"
  proof -
    have i: "hm_inv (actors ?p)" using Cons.prems(1) distinct_delete by fastforce
    have sub: "set addrs \<subseteq> set (map fst (actors ?p))" using Cons.prems(2,3) by (auto simp: delete_keys)
    have "distinct addrs" using Cons.prems(3) by simp
    from Cons.IH [OF i sub this c] show ?thesis by simp
  qed
  note ih = this
  have "filter (\<lambda>(b, _). b \<notin> set addrs) (hm_remove a (actors p)) =
      filter (\<lambda>(b, _). b \<notin> set (a # addrs)) (actors p)"
    unfolding AList.delete_eq filter_filter by (rule filter_cong) auto
  moreover have "\<forall>(b, r, v) \<in> set dead1. \<exists>slot. map_of (actors p) b = Some slot \<and>
      r = determine_stop_reason (poisoned slot) (exit_value slot \<noteq> None) \<and> v = exit_value slot"
    using ih map_of_hm_remove_Some [of a "actors p"] by fastforce
  ultimately show ?case using ih s unfolding d by simp
qed auto

lemma pool_cleanup_dead_spec:
  assumes "hm_inv (actors p)" "pool_cleanup_dead S w p st = (dead, p', st')"
  shows "actors p' = filter (\<lambda>(_, slot). \<not> dead_slot slot) (actors p)"
    and "map fst dead = map fst (filter (\<lambda>(_, slot). dead_slot slot) (actors p))"
    and "(a, r, v) \<in> set dead \<Longrightarrow> \<exists>slot. map_of (actors p) a = Some slot \<and>
      r = determine_stop_reason (poisoned slot) (exit_value slot \<noteq> None) \<and> v = exit_value slot"
proof -
  let ?addrs = "map fst (filter (\<lambda>(_, slot). dead_slot slot) (actors p))"
  have c: "cleanup_each S w ?addrs p st = (dead, p', st')"
    using assms(2) by (simp add: pool_cleanup_dead_def dead_slot_def)
  have d: "distinct ?addrs" using assms(1) by (simp add: distinct_map_filter)
  have sub: "set ?addrs \<subseteq> set (map fst (actors p))" by auto
  note spec = cleanup_each_pool [OF assms(1) sub d c]
  have "filter (\<lambda>(a, _). a \<notin> set ?addrs) (actors p) = filter (\<lambda>(_, slot). \<not> dead_slot slot) (actors p)"
    using eq_key_imp_eq_value [OF assms(1)] by (intro filter_cong) (force simp: image_iff)+
  with spec show "actors p' = filter (\<lambda>(_, slot). \<not> dead_slot slot) (actors p)" by simp
  from spec show "map fst dead = ?addrs" by simp
  from spec show "(a, r, v) \<in> set dead \<Longrightarrow> \<exists>slot. map_of (actors p) a = Some slot \<and>
      r = determine_stop_reason (poisoned slot) (exit_value slot \<noteq> None) \<and> v = exit_value slot"
    by fastforce
qed

section \<open>Properties\<close>


text \<open>An actor whose every message is a type mismatch, with three messages queued.\<close>

definition mute_system :: "(unit, unit, unit, unit) system" where
  "mute_system = \<lparr>type_of = (\<lambda>_. ''t''), remote_sink = None, addr_source = (\<lambda>n. ActorAddress (word_of_nat n)),
     incoming = (\<lambda>_ _. False), handle = (\<lambda>a _ _. Done a), handle_down = (\<lambda>a _ _. Done a),
     on_actor_exit = (\<lambda>a _ _. Done a), on_start = (\<lambda>a _. Done a), on_stop = (\<lambda>a _. Done a),
     actor_type_name = (\<lambda>_. ''A''), message_type_name = (\<lambda>_. ''M''), we_has_pending_work = (\<lambda>_. False),
     we_on_tick = (\<lambda>x. ([], x)), we_handle_request = (\<lambda>x _. x), we_gc_dead = (\<lambda>x _. x)\<rparr>"

definition busy_pool :: "(unit, unit) actor_pool" where
  "busy_pool = \<lparr>actors = [(ActorAddress 1,
     (slot_new \<lparr>sr_addr = ActorAddress 1, sr_actor = (), sr_parent = None, sr_env = []\<rparr>)
       \<lparr>mailbox := [User (), User (), User ()]\<rparr>)], vital_dirty = False\<rparr>"


end
