(* ===== verification/Confinement.thy ===== *)
theory Confinement
  imports Actor_Pool
begin

text \<open>
  What a capability set enforces. An actor whose environment holds a \<open>CapabilitySet\<close> and whose
  callback stays within \<open>Ctx\<close> (no \<open>raw_inner\<close>) leaves traces only where its capabilities say: the
  relation \<open>confined\<close> lists every place of the tick state a callback can write to.
\<close>

fun raw_call :: "('a, 'm, 'r) call \<Rightarrow> bool" where
  "raw_call (RawSend _ _) = True"
| "raw_call (RawStop _) = True"
| "raw_call (RawStopWith _ _) = True"
| "raw_call (RawSuspend _) = True"
| "raw_call (RawResume _) = True"
| "raw_call (RawWorkerRequest _) = True"
| "raw_call _ = False"

primrec guarded :: "('a, 'm, 'r) prog \<Rightarrow> bool" where
  "guarded (Done a) = True"
| "guarded (Panic a) = True"
| "guarded (Do a c k) = (\<not> raw_call c \<and> (\<forall>r. guarded (k r)))"

definition may_send :: "('m, 'z) net_scheme \<Rightarrow> ctx \<Rightarrow> capability_set \<Rightarrow> actor_address \<Rightarrow> 'm any \<Rightarrow> bool" where
  "may_send N cx caps a m \<longleftrightarrow> a = self_addr cx \<or> a \<in> set (send_any_caps caps) \<or>
     (type_of N m, a) \<in> set (send_typed_caps caps)"

text \<open>A list grows by elements that satisfy a predicate.\<close>

definition grows :: "('x \<Rightarrow> bool) \<Rightarrow> 'x list \<Rightarrow> 'x list \<Rightarrow> bool" where
  "grows P xs ys \<longleftrightarrow> (\<exists>zs. ys = xs @ zs \<and> (\<forall>z \<in> set zs. P z))"

lemma grows_simps [simp]: "grows P xs xs" "grows P xs (xs @ [z]) = P z"
  by (auto simp: grows_def)

lemma grows_trans: "grows P xs ys \<Longrightarrow> grows P ys zs \<Longrightarrow> grows P xs zs"
  by (force simp: grows_def)

fun confined :: "('m, 'z) net_scheme \<Rightarrow> ctx \<Rightarrow> capability_set \<Rightarrow> ('a, 'm, 'r) tick_state \<Rightarrow> ('a, 'm, 'r) tick_state \<Rightarrow> bool" where
  "confined N cx caps (s, c) (s', c') \<longleftrightarrow>
     (\<not> can_spawn caps \<longrightarrow> spawn_qs s' = spawn_qs s \<and> address_map s' = address_map s) \<and>
     grows (\<lambda>(a, m). may_send N cx caps a m) (pending_local c) (pending_local c') \<and>
     grows (\<lambda>(a, m). may_send N cx caps a m) (remote_out s) (remote_out s') \<and>
     length (transfer_qs s') = length (transfer_qs s) \<and>
     (\<forall>i < length (transfer_qs s). grows (\<lambda>e. may_send N cx caps (dest e) (payload e)) (transfer_qs s ! i) (transfer_qs s' ! i)) \<and>
     (\<forall>a. map_of (inboxes s') a \<noteq> map_of (inboxes s) a \<longrightarrow> (\<exists>m. may_send N cx caps a m)) \<and>
     admin_qs s' = admin_qs s \<and> worker_requests c' = worker_requests c \<and>
     grows (\<lambda>a. a = self_addr cx) (stop_requests c) (stop_requests c') \<and>
     grows (\<lambda>a. a = self_addr cx) (suspend_requests c) (suspend_requests c') \<and>
     grows (\<lambda>v. fst v = self_addr cx) (stop_with_values c) (stop_with_values c')"

lemma confined_refl: "confined N cx caps st st"
  by (cases st) simp

lemma confined_trans:
  assumes "confined N cx caps st1 st2" "confined N cx caps st2 st3" shows "confined N cx caps st1 st3"
proof -
  obtain s1 c1 s2 c2 s3 c3 where st: "st1 = (s1, c1)" "st2 = (s2, c2)" "st3 = (s3, c3)" by fastforce
  note a = assms(1) [unfolded st confined.simps] and b = assms(2) [unfolded st confined.simps]
  let ?T = "\<lambda>e. may_send N cx caps (dest e) (payload e)"
  have l: "length (transfer_qs s2) = length (transfer_qs s1)"
    and t1: "\<forall>i < length (transfer_qs s1). grows ?T (transfer_qs s1 ! i) (transfer_qs s2 ! i)"
    and i1: "\<forall>a. map_of (inboxes s2) a \<noteq> map_of (inboxes s1) a \<longrightarrow> (\<exists>m. may_send N cx caps a m)"
    using a by - (elim conjE, assumption)+
  have t2: "\<forall>i < length (transfer_qs s2). grows ?T (transfer_qs s2 ! i) (transfer_qs s3 ! i)"
    and i2: "\<forall>a. map_of (inboxes s3) a \<noteq> map_of (inboxes s2) a \<longrightarrow> (\<exists>m. may_send N cx caps a m)"
    using b by - (elim conjE, assumption)+
  have t: "\<forall>i < length (transfer_qs s1). grows ?T (transfer_qs s1 ! i) (transfer_qs s3 ! i)"
  proof (intro allI impI)
    fix i assume "i < length (transfer_qs s1)"
    then show "grows ?T (transfer_qs s1 ! i) (transfer_qs s3 ! i)"
      using t1 t2 l grows_trans [of ?T "transfer_qs s1 ! i" "transfer_qs s2 ! i"] by simp
  qed
  have i: "\<forall>a. map_of (inboxes s3) a \<noteq> map_of (inboxes s1) a \<longrightarrow> (\<exists>m. may_send N cx caps a m)"
  proof (intro allI impI)
    fix x assume "map_of (inboxes s3) x \<noteq> map_of (inboxes s1) x"
    then show "\<exists>m. may_send N cx caps x m"
      using i1 i2 by (cases "map_of (inboxes s2) x = map_of (inboxes s1) x") simp_all
  qed
  show ?thesis
    unfolding st confined.simps using a b
    by (elim conjE, intro conjI) ((simp; fail) | rule t i | erule (1) grows_trans)+
qed

lemma confined_send_any:
  assumes "may_send N cx caps a m" shows "confined N cx caps st (snd (send_any N w a m st))"
proof -
  obtain s c where st: "st = (s, c)" by fastforce
  have t: "grows (\<lambda>e. may_send N cx caps (dest e) (payload e)) (transfer_qs s ! i)
      (((transfer_qs s)[v := transfer_qs s ! v @ [envelope_new a m]]) ! i)" if "i < length (transfer_qs s)" for i v
    using that assms by (cases "i = v") (simp_all add: envelope_new_def)
  have i: "\<exists>m. may_send N cx caps b m" if "map_of (hm_insert a x (inboxes s)) b \<noteq> map_of (inboxes s) b" for b x
    using that assms by (cases "b = a") (auto simp: update_conv')
  show ?thesis
  proof (cases "worker_of s a")
    case None
    then show ?thesis using i assms unfolding st
      by (cases "map_of (inboxes s) a"; cases "remote_sink N")
        (simp_all add: upd_stats_def route_nonlocal_def try_deliver_def inbox_contains_def)
  next
    case (Some v)
    then show ?thesis using t assms unfolding st by (simp add: upd_stats_def transfer_send_def)
  qed
qed

lemma confined_spawn_with:
  assumes "ctx_capabilities cx = Some caps"
  shows "confined N cx caps st (snd (ctx_spawn_with N w cx x env st))"
  using assms by (cases st) (auto simp: ctx_spawn_with_def check_spawn_def confined_refl
      new_random_def spawn_send_def address_insert_def)

lemma confined_call:
  assumes "ctx_capabilities cx = Some caps" "\<not> raw_call c"
  shows "confined N cx caps st (snd (run_call N w cx c st))"
  using assms(2)
proof (cases c)
  case (CallSend a m)
  then show ?thesis
    using assms(1) confined_send_any [of N cx caps a m st w]
    by (auto simp: ctx_send_def check_send_def may_send_def confined_refl case_prod_unfold)
next
  case (CallStopActor a)
  then show ?thesis
    using assms(1) confined_send_any [of N cx caps a StopSignal st w]
    by (auto simp: ctx_stop_actor_def check_send_addr_def may_send_def confined_refl case_prod_unfold)
next
  case (CallSpawn x)
  then show ?thesis using confined_spawn_with [OF assms(1)] by (simp add: ctx_spawn_def case_prod_unfold)
next
  case (CallSpawnBuilder x vs)
  then show ?thesis using confined_spawn_with [OF assms(1)] by (simp add: spawn_builder_finish_def case_prod_unfold)
qed (cases st; auto simp: confined_refl split: option.split)+

lemma confined_prog:
  assumes "ctx_capabilities cx = Some caps" "guarded p"
  shows "confined N cx caps st (snd (run_prog N w cx p st))"
  using assms(2)
proof (induction p arbitrary: st)
  case (Do a c k)
  have "confined N cx caps st (snd (run_call N w cx c st))" using confined_call [OF assms(1), of c] Do.prems by simp
  then show ?case using Do.IH Do.prems by (auto split: prod.split option.split intro: confined_trans rangeI)
qed (auto intro: confined_refl)


definition caged_ctx :: ctx where
  "caged_ctx = \<lparr>self_addr = ActorAddress 1, self_parent_addr = None,
     self_env = env_set capability_type (CapsValue caps_new) environment_new, self_messages_processed = 0,
     self_mailbox_depth = 0, self_msg_type_counts = []\<rparr>"

text \<open>An actor that answers every message by trying to write to a stranger and to spawn.\<close>

definition pushy_system :: "(unit, unit, unit, unit) system" where
  "pushy_system = mute_system\<lparr>incoming := (\<lambda>_ _. True),
     handle := (\<lambda>a cx m. Do a (CallSend (ActorAddress 2) (User ())) (\<lambda>_. Do a (CallSpawn ()) (\<lambda>_. Done a)))\<rparr>"


end
