(* ===== verification/Worker.thy ===== *)
theory Worker
  imports Actor_Pool "HOL-Library.Monad_Syntax"
begin

text \<open>
  A worker and its pass (\<open>Worker\<close> in \<open>src/worker.rs\<close>): draining the spawn, transfer and admin
  queues under the ingress budget, retaining what arrives before its spawn, running the actors,
  delivering what they sent, cleaning up the dead, and publishing snapshots. The queues live in
  the shared state, at the worker's index.

  The two loops over the retained items may not end when the budget is \<open>0\<close>: an item whose spawn
  has not arrived goes back to the end of the queue the loop is emptying. They are
  \<open>partial_function\<close>s, so a pass is an option: \<open>None\<close> is a pass that never returns.

  Times are microseconds; \<open>clock i\<close> is the i-th reading a pass takes.
\<close>

section \<open>State\<close>

record ('a, 'm, 'w) worker =
  wid :: worker_id
  pool :: "('a, 'm) actor_pool"
  last_activity_snapshot :: "nat option"
  last_census_snapshot :: "nat option"
  wext :: "'w option"
  has_backlog :: bool
  deferred_transfers :: "'m envelope list"
  deferred_admin :: "('a, 'm) admin_command list"

definition worker_new :: "worker_id \<Rightarrow> ('a, 'm, 'w) worker" where
  "worker_new i = \<lparr>wid = i, pool = pool_new, last_activity_snapshot = None,
     last_census_snapshot = None, wext = None, has_backlog = False, deferred_transfers = [],
     deferred_admin = []\<rparr>"

definition has_work :: "('a, 'm, 'r, 'w) system \<Rightarrow> ('a, 'm) runtime_shared \<Rightarrow> ('a, 'm, 'w) worker \<Rightarrow> bool" where
  "has_work S s wk \<longleftrightarrow> has_backlog wk \<or> spawn_qs s ! wid wk \<noteq> [] \<or> transfer_qs s ! wid wk \<noteq> [] \<or>
     deferred_transfers wk \<noteq> [] \<or> admin_qs s ! wid wk \<noteq> [] \<or> deferred_admin wk \<noteq> [] \<or>
     (case wext wk of None \<Rightarrow> False | Some x \<Rightarrow> we_has_pending_work S x)"

section \<open>Routing from the runtime\<close>

definition route_runtime_message ::
  "('a, 'm, 'r, 'w) system \<Rightarrow> actor_address \<Rightarrow> 'm any \<Rightarrow> ('a, 'm) actor_pool \<times> ('a, 'm) runtime_shared
    \<Rightarrow> ('a, 'm) actor_pool \<times> ('a, 'm) runtime_shared" where
  "route_runtime_message S d msg ps =
     (case ps of (p, s) \<Rightarrow>
      if pool_contains p d then (snd (pool_deliver d msg p), s)
      else case worker_of s d of
             Some v \<Rightarrow> (p, transfer_send v (envelope_new d msg) s)
           | None \<Rightarrow> (p, snd (route_nonlocal S d msg s)))"

definition route_all ::
  "('a, 'm, 'r, 'w) system \<Rightarrow> (actor_address \<times> 'm any) list \<Rightarrow> ('a, 'm) actor_pool \<times> ('a, 'm) runtime_shared
    \<Rightarrow> ('a, 'm) actor_pool \<times> ('a, 'm) runtime_shared" where
  "route_all S ms ps = fold (\<lambda>(d, msg). route_runtime_message S d msg) ms ps"

section \<open>Draining the queues\<close>

text \<open>Each drain returns what it did not take from its queue.\<close>

fun drain_spawns ::
  "std_extension option \<Rightarrow> nat \<Rightarrow> nat \<Rightarrow> ('a, 'm) actor_pool \<Rightarrow> 'a spawn_request list
    \<Rightarrow> ('a, 'm) actor_pool \<times> 'a spawn_request list" where
  "drain_spawns x budget count p [] = (p, [])"
| "drain_spawns x budget count p (req # q) =
     (let req' = (case x of
                    Some e \<Rightarrow> req\<lparr>sr_env := on_spawn e (sr_addr req) (sr_parent req) (sr_env req)\<rparr>
                  | None \<Rightarrow> req);
          p' = pool_insert req' p in
      if budget \<noteq> 0 \<and> count + 1 \<ge> budget then (p', q)
      else drain_spawns x budget (count + 1) p' q)"

definition deliver_or_defer_transfer ::
  "('a, 'm) runtime_shared \<Rightarrow> worker_id \<Rightarrow> 'm envelope \<Rightarrow> ('a, 'm) actor_pool \<times> 'm envelope list
    \<Rightarrow> bool \<times> ('a, 'm) actor_pool \<times> 'm envelope list" where
  "deliver_or_defer_transfer s w e pd =
     (case pd of (p, deferred) \<Rightarrow>
      if pool_contains p (dest e) then (True, snd (pool_deliver (dest e) (payload e) p), deferred)
      else if worker_of s (dest e) = Some w then (False, p, deferred @ [e])
      else (True, p, deferred))"

partial_function (option) drain_deferred ::
  "('a, 'm) runtime_shared \<Rightarrow> worker_id \<Rightarrow> nat \<Rightarrow> nat \<Rightarrow> bool \<Rightarrow> ('a, 'm) actor_pool \<Rightarrow> 'm envelope list
    \<Rightarrow> (nat \<times> bool \<times> ('a, 'm) actor_pool \<times> 'm envelope list) option" where
  "drain_deferred s w budget count did p deferred =
     (if budget = 0 \<or> count < budget then
        (case deferred of
           [] \<Rightarrow> Some (count, did, p, [])
         | e # rest \<Rightarrow>
             (case deliver_or_defer_transfer s w e (p, rest) of (b, p', deferred') \<Rightarrow>
                drain_deferred s w budget (count + 1) (did \<or> b) p' deferred'))
      else Some (count, did, p, deferred))"

fun drain_envelopes ::
  "('a, 'm) runtime_shared \<Rightarrow> worker_id \<Rightarrow> nat \<Rightarrow> nat \<Rightarrow> ('a, 'm) actor_pool \<Rightarrow> 'm envelope list
    \<Rightarrow> 'm envelope list \<Rightarrow> ('a, 'm) actor_pool \<times> 'm envelope list \<times> 'm envelope list" where
  "drain_envelopes s w budget count p deferred [] = (p, deferred, [])"
| "drain_envelopes s w budget count p deferred (e # q) =
     (if budget = 0 \<or> count < budget then
        (case deliver_or_defer_transfer s w e (p, deferred) of (_, p', deferred') \<Rightarrow>
           drain_envelopes s w budget (count + 1) p' deferred' q)
      else (p, deferred, e # q))"

definition drain_transfers ::
  "('a, 'm) runtime_shared \<Rightarrow> worker_id \<Rightarrow> nat \<Rightarrow> ('a, 'm) actor_pool \<Rightarrow> 'm envelope list \<Rightarrow> 'm envelope list
    \<Rightarrow> (bool \<times> ('a, 'm) actor_pool \<times> 'm envelope list \<times> 'm envelope list) option" where
  "drain_transfers s w budget p deferred q =
     do {
       (count, did, p1, deferred1) \<leftarrow> drain_deferred s w budget 0 False p deferred;
       let (p2, deferred2, q2) = drain_envelopes s w budget count p1 deferred1 q;
       Some (did \<or> length q2 < length q, p2, deferred2, q2)
     }"

section \<open>Administration\<close>

fun admin_target :: "('a, 'm) admin_command \<Rightarrow> actor_address option" where
  "admin_target (ListActors _) = None"
| "admin_target (InspectActor a _) = Some a"
| "admin_target (GetActorState a _ _ _) = Some a"
| "admin_target (ReplaceActorState a _ _) = Some a"
| "admin_target (StopActor a _) = Some a"
| "admin_target (SuspendActor a _) = Some a"
| "admin_target (ResumeActor a _) = Some a"

definition should_defer_admin_command ::
  "('a, 'm) actor_pool \<Rightarrow> ('a, 'm) runtime_shared \<Rightarrow> worker_id \<Rightarrow> ('a, 'm) admin_command \<Rightarrow> bool" where
  "should_defer_admin_command p s w cmd =
     (case admin_target cmd of
        None \<Rightarrow> False
      | Some a \<Rightarrow> \<not> pool_contains p a \<and> worker_of s a = Some w)"

definition send_admin_reply ::
  "('a, 'm, 'r, 'w) system \<Rightarrow> actor_address \<Rightarrow> admin_reply \<Rightarrow> ('a, 'm) runtime_shared \<Rightarrow> ('a, 'm) runtime_shared" where
  "send_admin_reply S reply_to r s = snd (try_deliver S reply_to (AdminReplyMsg r) s)"

definition apply_list_actors ::
  "('a, 'm, 'r, 'w) system \<Rightarrow> worker_id \<Rightarrow> nat \<Rightarrow> ('a, 'm) actor_pool \<Rightarrow> ('a, 'm) runtime_shared
    \<Rightarrow> ('a, 'm) runtime_shared" where
  "apply_list_actors S w acc p s =
     (case map_of (list_accs s) acc of
        None \<Rightarrow> s
      | Some pending \<Rightarrow>
          let pending' = pending\<lparr>la_summaries := actor_summaries_into S w (la_summaries pending) p,
                                 la_remaining := la_remaining pending - 1\<rparr> in
          if la_remaining pending' = 0 then
            let s' = s\<lparr>list_accs := hm_remove acc (list_accs s)\<rparr>;
                message = la_reply pending' (la_summaries pending') in
            (case worker_of s (la_reply_to pending') of
               Some v \<Rightarrow> transfer_send v (envelope_new (la_reply_to pending') message) s'
             | None \<Rightarrow> snd (try_deliver S (la_reply_to pending') message s'))
          else s\<lparr>list_accs := hm_insert acc pending' (list_accs s)\<rparr>)"

fun apply_admin_command ::
  "('a, 'm, 'r, 'w) system \<Rightarrow> worker_id \<Rightarrow> ('a, 'm) admin_command \<Rightarrow> ('a, 'm) actor_pool \<times> ('a, 'm) runtime_shared
    \<Rightarrow> ('a, 'm) actor_pool \<times> ('a, 'm) runtime_shared" where
  "apply_admin_command S w (ListActors acc) (p, s) = (p, apply_list_actors S w acc p s)"
| "apply_admin_command S w (InspectActor a reply_to) (p, s) =
     (p, send_admin_reply S reply_to (InspectReply (pool_actor_summary S w a p)) s)"
| "apply_admin_command S w (GetActorState a reply_to get not_found) (p, s) =
     (let boxed = (case map_of (actors p) a of Some slot \<Rightarrow> get a (actor slot) | None \<Rightarrow> not_found a) in
      (p, snd (try_deliver S reply_to boxed s)))"
| "apply_admin_command S w (ReplaceActorState a reply_to replace) (p, s) =
     (case map_of (actors p) a of
        Some slot \<Rightarrow>
          (case replace (actor slot) of (r, x) \<Rightarrow>
             (p\<lparr>actors := hm_insert a (slot\<lparr>actor := x\<rparr>) (actors p)\<rparr>,
              send_admin_reply S reply_to (OperationReply r) s))
      | None \<Rightarrow> (p, send_admin_reply S reply_to (OperationReply (Inl (ActorNotFound a))) s))"
| "apply_admin_command S w (StopActor a reply_to) (p, s) =
     (case stop_actor_admin a p (stats s ! w) of (r, p', ws) \<Rightarrow>
        (p', send_admin_reply S reply_to (OperationReply r) (upd_stats w (\<lambda>_. ws) s)))"
| "apply_admin_command S w (SuspendActor a reply_to) (p, s) =
     (case suspend_actor_admin a p of (r, p') \<Rightarrow> (p', send_admin_reply S reply_to (OperationReply r) s))"
| "apply_admin_command S w (ResumeActor a reply_to) (p, s) =
     (case resume_actor_admin a p of (r, p') \<Rightarrow> (p', send_admin_reply S reply_to (OperationReply r) s))"

definition apply_or_defer_admin_command ::
  "('a, 'm, 'r, 'w) system \<Rightarrow> worker_id \<Rightarrow> ('a, 'm) admin_command
    \<Rightarrow> ('a, 'm) actor_pool \<times> ('a, 'm) runtime_shared \<times> ('a, 'm) admin_command list
    \<Rightarrow> bool \<times> ('a, 'm) actor_pool \<times> ('a, 'm) runtime_shared \<times> ('a, 'm) admin_command list" where
  "apply_or_defer_admin_command S w cmd psd =
     (case psd of (p, s, deferred) \<Rightarrow>
      if should_defer_admin_command p s w cmd then (False, p, s, deferred @ [cmd])
      else case apply_admin_command S w cmd (p, s) of (p', s') \<Rightarrow> (True, p', s', deferred))"

partial_function (option) drain_deferred_admin ::
  "('a, 'm, 'r, 'w) system \<Rightarrow> worker_id \<Rightarrow> nat \<Rightarrow> nat \<Rightarrow> bool \<Rightarrow> ('a, 'm) actor_pool
    \<Rightarrow> ('a, 'm) runtime_shared \<Rightarrow> ('a, 'm) admin_command list
    \<Rightarrow> (nat \<times> bool \<times> ('a, 'm) actor_pool \<times> ('a, 'm) runtime_shared \<times> ('a, 'm) admin_command list) option" where
  "drain_deferred_admin S w budget count did p s deferred =
     (if budget = 0 \<or> count < budget then
        (case deferred of
           [] \<Rightarrow> Some (count, did, p, s, [])
         | cmd # rest \<Rightarrow>
             (case apply_or_defer_admin_command S w cmd (p, s, rest) of (b, p', s', deferred') \<Rightarrow>
                drain_deferred_admin S w budget (count + 1) (did \<or> b) p' s' deferred'))
      else Some (count, did, p, s, deferred))"

fun drain_commands ::
  "('a, 'm, 'r, 'w) system \<Rightarrow> worker_id \<Rightarrow> nat \<Rightarrow> nat \<Rightarrow> ('a, 'm) actor_pool \<Rightarrow> ('a, 'm) runtime_shared
    \<Rightarrow> ('a, 'm) admin_command list \<Rightarrow> ('a, 'm) admin_command list
    \<Rightarrow> ('a, 'm) actor_pool \<times> ('a, 'm) runtime_shared \<times> ('a, 'm) admin_command list \<times> ('a, 'm) admin_command list" where
  "drain_commands S w budget count p s deferred [] = (p, s, deferred, [])"
| "drain_commands S w budget count p s deferred (cmd # q) =
     (if budget = 0 \<or> count < budget then
        (case apply_or_defer_admin_command S w cmd (p, s, deferred) of (_, p', s', deferred') \<Rightarrow>
           drain_commands S w budget (count + 1) p' s' deferred' q)
      else (p, s, deferred, cmd # q))"

definition drain_admin ::
  "('a, 'm, 'r, 'w) system \<Rightarrow> worker_id \<Rightarrow> nat \<Rightarrow> ('a, 'm) actor_pool \<Rightarrow> ('a, 'm) runtime_shared
    \<Rightarrow> ('a, 'm) admin_command list \<Rightarrow> ('a, 'm) admin_command list
    \<Rightarrow> (bool \<times> ('a, 'm) actor_pool \<times> ('a, 'm) runtime_shared \<times> ('a, 'm) admin_command list
         \<times> ('a, 'm) admin_command list) option" where
  "drain_admin S w budget p s deferred q =
     do {
       (count, did, p1, s1, deferred1) \<leftarrow> drain_deferred_admin S w budget 0 False p s deferred;
       let (p2, s2, deferred2, q2) = drain_commands S w budget count p1 s1 deferred1 q;
       Some (did \<or> length q2 < length q, p2, s2, deferred2, q2)
     }"

section \<open>Cleanup and snapshots\<close>

definition deliver_pending ::
  "('a, 'm) runtime_shared \<Rightarrow> worker_id \<Rightarrow> (actor_address \<times> 'm any) list \<Rightarrow> ('a, 'm) actor_pool \<times> 'm envelope list
    \<Rightarrow> ('a, 'm) actor_pool \<times> 'm envelope list" where
  "deliver_pending s w ms pd =
     fold (\<lambda>(a, m) pd. snd (deliver_or_defer_transfer s w (envelope_new a m) pd)) ms pd"

definition notify_deaths ::
  "('a, 'm, 'r, 'w) system \<Rightarrow> dead_actor list \<Rightarrow> ('a, 'm) actor_pool \<times> ('a, 'm) runtime_shared
    \<Rightarrow> ('a, 'm) actor_pool \<times> ('a, 'm) runtime_shared" where
  "notify_deaths S dead ps =
     (case ps of (p, s) \<Rightarrow>
      case ext s of
        None \<Rightarrow> (p, s)
      | Some e \<Rightarrow>
          (case on_actor_death e dead of (notifications, e') \<Rightarrow>
             route_all S notifications (p, s\<lparr>ext := Some (ext_cleanup_dead e' (map fst dead))\<rparr>)))"

definition cleanup_dead_actors ::
  "('a, 'm, 'r, 'w) system \<Rightarrow> worker_id \<Rightarrow> ('a, 'm) actor_pool \<Rightarrow> 'w option \<Rightarrow> 'm envelope list
    \<Rightarrow> ('a, 'm) runtime_shared
    \<Rightarrow> bool \<times> ('a, 'm) actor_pool \<times> 'w option \<times> 'm envelope list \<times> ('a, 'm) runtime_shared" where
  "cleanup_dead_actors S w p wx deferred s =
     (case pool_cleanup_dead S w p (s, worker_context_new) of (dead, p1, (s1, c1)) \<Rightarrow>
      let (p2, s2) =
        (if dead \<noteq> [] then
           (case notify_deaths S dead (p1, fold (\<lambda>(a, _, _). address_remove a) dead s1) of (p', s') \<Rightarrow>
              (p', upd_stats w (\<lambda>ws. ws\<lparr>num_actors := pool_len p'\<rparr>) s'))
         else (p1, s1));
          (p3, deferred') = deliver_pending s2 w (pending_local c1) (p2, deferred) in
      (dead \<noteq> [], p3, map_option (\<lambda>x. we_gc_dead S x (map fst dead)) wx, deferred', s2))"

definition ACTOR_ACTIVITY_INTERVAL :: nat where
  "ACTOR_ACTIVITY_INTERVAL = 250000"

definition ACTOR_CENSUS_INTERVAL :: nat where
  "ACTOR_CENSUS_INTERVAL = 15000000"

definition due :: "nat \<Rightarrow> nat \<Rightarrow> nat option \<Rightarrow> bool" where
  "due interval now prev = (case prev of None \<Rightarrow> True | Some l \<Rightarrow> now - l \<ge> interval)"

definition publish_actor_stats ::
  "('a, 'm, 'r, 'w) system \<Rightarrow> nat \<Rightarrow> bool \<Rightarrow> ('a, 'm, 'w) worker \<times> ('a, 'm) runtime_shared
    \<Rightarrow> ('a, 'm, 'w) worker \<times> ('a, 'm) runtime_shared" where
  "publish_actor_stats S now activity_possible ws =
     (case ws of (wk, s) \<Rightarrow>
      if \<not> stats_hook s then (wk, s)
      else
        let census = due ACTOR_CENSUS_INTERVAL now (last_census_snapshot wk);
            activity = (activity_possible \<and> due ACTOR_ACTIVITY_INTERVAL now (last_activity_snapshot wk));
            (vital, p1) = take_vital_dirty (pool wk) in
        if \<not> census \<and> \<not> activity \<and> \<not> vital then (wk\<lparr>pool := p1\<rparr>, s)
        else
          (case actor_snapshots_into S activity p1 of (snaps, p2) \<Rightarrow>
             (wk\<lparr>pool := p2,
                 last_activity_snapshot := (if activity then Some now else last_activity_snapshot wk),
                 last_census_snapshot := (if census then Some now else last_census_snapshot wk)\<rparr>,
              s\<lparr>hook_out := hook_out s @ [(wid wk, snaps, \<lparr>kind_activity = activity, kind_census = census\<rparr>)]\<rparr>)))"

section \<open>The pass\<close>

definition store_pool_stats :: "('a, 'm) actor_pool \<Rightarrow> worker_stats \<Rightarrow> worker_stats" where
  "store_pool_stats p ws = ws\<lparr>num_actors := pool_len p, total_mailbox_depth := pool_mailbox_depth p\<rparr>"

text \<open>Steps 1 to 3 of a pass: everything up to the point where handlers may run.\<close>

definition ingress ::
  "('a, 'm, 'r, 'w) system \<Rightarrow> ('a, 'm, 'w) worker \<times> ('a, 'm) runtime_shared
    \<Rightarrow> (bool \<times> ('a, 'm, 'w) worker \<times> ('a, 'm) runtime_shared) option" where
  "ingress S ws =
     (case ws of (wk, s) \<Rightarrow>
      let w = wid wk; budget = worker_ingress_budget (config s);
          sq = spawn_qs s ! w;
          (p1, sq1) = drain_spawns (ext s) budget 0 (pool wk) sq;
          s1 = s\<lparr>spawn_qs := (spawn_qs s)[w := sq1]\<rparr> in
      do {
        (did2, p2, dt, tq) \<leftarrow> drain_transfers s1 w budget p1 (deferred_transfers wk) (transfer_qs s1 ! w);
        let s2 = s1\<lparr>transfer_qs := (transfer_qs s1)[w := tq]\<rparr>;
        let aq0 = admin_qs s2 ! w;
        (did3, p3, s3, da, aq) \<leftarrow> drain_admin S w budget p2 s2 (deferred_admin wk) aq0;
        let s4 = s3\<lparr>admin_qs := (admin_qs s3)[w := aq]\<rparr>;
        Some (length sq1 < length sq \<or> did2 \<or> did3,
              wk\<lparr>pool := p3, deferred_transfers := dt, deferred_admin := da\<rparr>, s4)
      })"

text \<open>Steps 4 to 7.5: the worker extension, the actors, the spawns they made, what they sent.\<close>

definition run_actors ::
  "('a, 'm, 'r, 'w) system \<Rightarrow> ('a, 'm, 'w) worker \<times> ('a, 'm) runtime_shared
    \<Rightarrow> nat \<times> bool \<times> ('a, 'm, 'w) worker \<times> ('a, 'm) runtime_shared" where
  "run_actors S ws =
     (case ws of (wk, s) \<Rightarrow>
      let w = wid wk;
          (ext_msgs, wx1) = (case wext wk of
                               None \<Rightarrow> ([], None)
                             | Some x \<Rightarrow> (case we_on_tick S x of (ms, x') \<Rightarrow> (ms, Some x')));
          (p1, s1) = route_all S ext_msgs (pool wk, s);
          (processed, p2, (s2, c)) = tick_all S w (actor_message_budget (config s1)) p1 (s1, worker_context_new);
          sq = spawn_qs s2 ! w;
          (p3, sq1) = drain_spawns (ext s2) (worker_ingress_budget (config s2)) 0 p2 sq;
          s3 = s2\<lparr>spawn_qs := (spawn_qs s2)[w := sq1]\<rparr>;
          (p4, dt) = deliver_pending s3 w (pending_local c) (p3, deferred_transfers wk);
          wx2 = map_option (\<lambda>x. fold (\<lambda>r x. we_handle_request S x r) (worker_requests c) x) wx1 in
      (processed, ext_msgs \<noteq> [] \<or> processed > 0 \<or> length sq1 < length sq \<or> pending_local c \<noteq> [],
       wk\<lparr>pool := p4, wext := wx2, deferred_transfers := dt\<rparr>, s3))"

text \<open>Steps 8 and 9: statistics, cleanup of the dead, snapshots for the observer.\<close>

definition finish_pass ::
  "('a, 'm, 'r, 'w) system \<Rightarrow> (nat \<Rightarrow> nat) \<Rightarrow> nat \<Rightarrow> bool \<Rightarrow> ('a, 'm, 'w) worker \<times> ('a, 'm) runtime_shared
    \<Rightarrow> bool \<times> ('a, 'm, 'w) worker \<times> ('a, 'm) runtime_shared" where
  "finish_pass S clock processed did_work ws =
     (case ws of (wk, s) \<Rightarrow>
      let w = wid wk;
          s1 = (if did_work
                then upd_stats w (\<lambda>x. (store_pool_stats (pool wk) x)
                       \<lparr>ws_messages_processed := ws_messages_processed x + processed\<rparr>) s
                else s);
          timing = \<lparr>phase_us = map (\<lambda>i. clock (i + 1) - clock i) [0..<6],
                    tt_messages_processed = processed, tt_did_work = did_work\<rparr>;
          s2 = upd_stats w (push_tick_timing timing) s1;
          (wk1, s3) = (if vital_dirty (pool wk) then publish_actor_stats S (clock 6) did_work (wk, s2)
                       else (wk, s2));
          (cleaned, p, wx, dt, s4) =
             cleanup_dead_actors S w (pool wk1) (wext wk1) (deferred_transfers wk1) s3;
          s5 = (if cleaned then upd_stats w (store_pool_stats p) s4 else s4);
          did = (did_work \<or> cleaned);
          (wk2, s6) = publish_actor_stats S (clock 6) did
             (wk1\<lparr>pool := p, wext := wx, deferred_transfers := dt\<rparr>, s5) in
      (did, wk2\<lparr>has_backlog := did\<rparr>, s6))"

definition try_tick ::
  "('a, 'm, 'r, 'w) system \<Rightarrow> (nat \<Rightarrow> nat) \<Rightarrow> ('a, 'm, 'w) worker \<times> ('a, 'm) runtime_shared
    \<Rightarrow> (bool \<times> ('a, 'm, 'w) worker \<times> ('a, 'm) runtime_shared) option" where
  "try_tick S clock ws =
     (if \<not> has_work S (snd ws) (fst ws)
      then Some (False, publish_actor_stats S (clock 0) False ws)
      else do {
        (did1, ws1) \<leftarrow> ingress S ws;
        let (processed, did2, ws2) = run_actors S ws1;
        Some (finish_pass S clock processed (did1 \<or> did2) ws2)
      })"

end
