(* ===== verification/Lifecycle.thy ===== *)
theory Lifecycle
  imports Actor_Pool
begin

text \<open>
  The order of an actor's callbacks. The statement needs the history of calls, which the runtime
  does not keep, so it is stated for instrumented actors: \<open>logged S\<close> is the system in which every
  actor of \<open>S\<close> carries the list of its callbacks so far and behaves as in \<open>S\<close> otherwise. The
  operations of the pool are those of \<open>Actor_Pool\<close>, and \<open>pool_run\<close> is any sequence of them.
\<close>

section \<open>Instrumented actors\<close>

datatype callback = OnStart | Handled | OnStop

type_synonym 'a logged_actor = "'a \<times> callback list"

primrec log_prog :: "callback list \<Rightarrow> ('a, 'm, 'r) prog \<Rightarrow> ('a logged_actor, 'm, 'r) prog" where
  "log_prog h (Done a) = Done (a, h)"
| "log_prog h (Panic a) = Panic (a, h)"
| "log_prog h (Do a c k) = Do (a, h) (map_call (\<lambda>x. (x, [])) id id c) (\<lambda>r. log_prog h (k r))"

definition logged :: "('a, 'm, 'r, 'w) system \<Rightarrow> ('a logged_actor, 'm, 'r, 'w) system" where
  "logged S = \<lparr>type_of = type_of S, remote_sink = remote_sink S, addr_source = addr_source S,
     incoming = (\<lambda>(a, _) m. incoming S a m),
     handle = (\<lambda>(a, h) cx m. log_prog (h @ [Handled]) (handle S a cx m)),
     handle_down = (\<lambda>(a, h) cx d. log_prog (h @ [Handled]) (handle_down S a cx d)),
     on_actor_exit = (\<lambda>(a, h) cx e. log_prog (h @ [Handled]) (on_actor_exit S a cx e)),
     on_start = (\<lambda>(a, h) cx. log_prog (h @ [OnStart]) (on_start S a cx)),
     on_stop = (\<lambda>(a, h) cx. log_prog (h @ [OnStop]) (on_stop S a cx)),
     actor_type_name = (\<lambda>(a, _). actor_type_name S a), message_type_name = (\<lambda>(a, _). message_type_name S a),
     we_has_pending_work = we_has_pending_work S, we_on_tick = we_on_tick S,
     we_handle_request = we_handle_request S, we_gc_dead = we_gc_dead S\<rparr>"

lemma logged_simps [simp]:
  "incoming (logged S) (a, h) m = incoming S a m"
  "handle (logged S) (a, h) cx m = log_prog (h @ [Handled]) (handle S a cx m)"
  "handle_down (logged S) (a, h) cx d = log_prog (h @ [Handled]) (handle_down S a cx d)"
  "on_actor_exit (logged S) (a, h) cx e = log_prog (h @ [Handled]) (on_actor_exit S a cx e)"
  "on_start (logged S) (a, h) cx = log_prog (h @ [OnStart]) (on_start S a cx)"
  "on_stop (logged S) (a, h) cx = log_prog (h @ [OnStop]) (on_stop S a cx)"
  by (simp_all add: logged_def)

text \<open>A history is a start followed by handlers once the actor has started, and empty before.\<close>

definition history_ok :: "bool \<Rightarrow> callback list \<Rightarrow> bool" where
  "history_ok st h \<longleftrightarrow> (if st then \<exists>n. h = OnStart # replicate n Handled else h = [])"

definition slot_ok :: "('a logged_actor, 'm) actor_slot \<Rightarrow> bool" where
  "slot_ok slot \<longleftrightarrow> history_ok (started slot) (snd (actor slot))"

lemma log_prog_history:
  "snd (snd (fst (run_prog N w cx (log_prog h p) st))) = h"
  by (induction p arbitrary: st) (auto split: prod.split option.split)

lemma log_prog_state: "run_prog N w cx (log_prog h p) st = ((q, a'), st') \<Longrightarrow> snd a' = h"
  by (metis log_prog_history fst_conv snd_conv)

lemma history_ok_snoc: "history_ok True h \<Longrightarrow> history_ok True (h @ [Handled])"
  by (auto simp: history_ok_def replicate_append_same) (metis replicate_Suc)

lemma handle_any_history:
  assumes "handle_any (logged S) w cx (a, h) msg st = ((p, t, a'), st')"
  shows "snd a' = h \<or> snd a' = h @ [Handled]"
  using assms
  by (auto simp: handle_any_def split: any.splits prod.splits if_splits dest: log_prog_state)

lemma process_message_actor:
  assumes "process_message S w budget cx k slot msg st = (over, k', d, slot', st')"
  shows "actor slot' = actor slot \<or> actor slot' = snd (snd (fst (handle_any S w cx (actor slot) msg st)))"
  using assms
  by (cases msg) (auto simp: process_message_def Let_def split: prod.splits if_splits option.splits)

lemma slot_ok_process:
  assumes "process_message (logged S) w budget cx k slot msg st = (over, k', d, slot', st')"
    "slot_ok slot" "started slot"
  shows "slot_ok slot' \<and> started slot'"
proof -
  have "started slot'" using assms(1,3) by (cases rule: process_message_cases) auto
  moreover obtain a h where a: "actor slot = (a, h)" by fastforce
  obtain p t a' st1 where r: "handle_any (logged S) w cx (actor slot) msg st = ((p, t, a'), st1)"
    by (metis surj_pair)
  from handle_any_history [OF r [unfolded a]] process_message_actor [OF assms(1)] r a
  have "snd (actor slot') = h \<or> snd (actor slot') = h @ [Handled]" by auto
  ultimately show ?thesis using assms(2,3) a history_ok_snoc by (auto simp: slot_ok_def)
qed

lemma slot_ok_drain:
  assumes "drain_mailbox (logged S) w budget cx k slot ms st = (n, d, slot', st')"
    "slot_ok slot" "started slot"
  shows "slot_ok slot'"
  using assms
proof (induction ms arbitrary: k slot st)
  case (Cons msg ms)
  obtain over k1 d1 slot1 st1 where
    pm: "process_message (logged S) w budget cx k (slot\<lparr>mailbox := ms\<rparr>) msg st = (over, k1, d1, slot1, st1)"
    by (metis surj_pair)
  then have "slot_ok slot1 \<and> started slot1"
    by (rule slot_ok_process) (use Cons.prems in \<open>auto simp: slot_ok_def\<close>)
  with Cons.IH [of k1 slot1 st1] Cons.prems(1) pm show ?case by (cases over) auto
qed simp

lemma slot_ok_on_start:
  assumes "run_on_start (logged S) w cx slot st = (over, d, slot', st')" "slot_ok slot" "\<not> started slot"
  shows "slot_ok slot' \<and> started slot'"
proof -
  obtain a where a: "actor slot = (a, [])"
    using assms(2,3) by (cases "actor slot") (auto simp: slot_ok_def history_ok_def)
  obtain p a' st1 where r: "run_prog (logged S) w cx (on_start (logged S) (actor slot) cx) st = ((p, a'), st1)"
    by (metis surj_pair)
  have "snd a' = [OnStart]"
    using r a by (auto dest: log_prog_state)
  moreover have "actor slot' = a'" "started slot'"
    using assms(1) r by (auto simp: run_on_start_def Let_def split: prod.splits if_splits option.splits)
  ultimately show ?thesis by (auto simp: slot_ok_def history_ok_def intro: exI [of _ 0])
qed

lemma slot_ok_tick:
  assumes "tick_slot (logged S) w budget addr slot st = (n, d, slot', st')" "slot_ok slot"
  shows "slot_ok slot'"
proof (cases "should_skip_actor (poisoned slot) (stopping slot) (suspended slot)")
  case True
  with assms show ?thesis by (auto simp: tick_slot_def slot_ok_def split: if_splits)
next
  case False
  obtain over d1 slot1 st1 where s: "(if started slot then (False, False, slot, st)
      else run_on_start (logged S) w (slot_ctx addr slot) slot st) = (over, d1, slot1, st1)" by (metis surj_pair)
  then have ok: "slot_ok slot1 \<and> started slot1"
    using assms(2) by (auto split: if_splits dest: slot_ok_on_start)
  with assms(1) False s show ?thesis
    by (cases over) (auto simp: tick_slot_def dest: slot_ok_drain)
qed

lemma slots_ok_tick:
  assumes "tick_slots (logged S) w budget slots st = (n, d, slots', st')" "\<forall>x \<in> set slots. slot_ok (snd x)"
  shows "\<forall>x \<in> set slots'. slot_ok (snd x)"
  using assms
proof (induction slots arbitrary: st n d slots' st')
  case (Cons x slots)
  obtain addr slot where x: "x = (addr, slot)" by fastforce
  obtain n1 d1 slot1 st1 where h: "tick_slot (logged S) w budget addr slot st = (n1, d1, slot1, st1)"
    by (metis surj_pair)
  obtain n2 d2 slots2 st2 where t: "tick_slots (logged S) w budget slots st1 = (n2, d2, slots2, st2)"
    by (metis surj_pair)
  show ?case using Cons.prems Cons.IH [OF t] slot_ok_tick [OF h] x h t by auto
qed simp

section \<open>Any sequence of pool operations\<close>

inductive pool_run :: "('a, 'm, 'r, 'w) system \<Rightarrow> ('a logged_actor, 'm) actor_pool \<Rightarrow> bool" for S where
  empty: "pool_run S pool_new"
| spawn: "pool_run S p \<Longrightarrow> sr_actor req = (a, []) \<Longrightarrow> pool_run S (pool_insert req p)"
| deliver: "pool_run S p \<Longrightarrow> pool_run S (snd (pool_deliver addr msg p))"
| suspend: "pool_run S p \<Longrightarrow> pool_run S (snd (suspend_actor_admin addr p))"
| resume: "pool_run S p \<Longrightarrow> pool_run S (snd (resume_actor_admin addr p))"
| stop: "pool_run S p \<Longrightarrow> pool_run S (fst (snd (stop_actor_admin addr p ws)))"
| tick: "pool_run S p \<Longrightarrow> tick_all (logged S) w budget p st = (n, p', st') \<Longrightarrow> pool_run S p'"
| cleanup: "pool_run S p \<Longrightarrow> pool_cleanup_dead (logged S) w p st = (dead, p', st') \<Longrightarrow> pool_run S p'"

definition pool_ok :: "('a logged_actor, 'm) actor_pool \<Rightarrow> bool" where
  "pool_ok p \<longleftrightarrow> hm_inv (actors p) \<and> (\<forall>x \<in> set (actors p). slot_ok (snd x))"

lemma pool_ok_update:
  assumes "pool_ok p" "slot_ok slot"
  shows "pool_ok (p\<lparr>actors := hm_insert addr slot (actors p)\<rparr>)"
  using assms set_hm_insert_subset [of addr slot "actors p"]
  by (auto simp: pool_ok_def distinct_update)

lemma pool_ok_lookup: "pool_ok p \<Longrightarrow> map_of (actors p) addr = Some slot \<Longrightarrow> slot_ok slot"
  by (auto simp: pool_ok_def dest!: map_of_SomeD)

lemma slot_ok_simps [simp]:
  "slot_ok (slot\<lparr>suspended := b\<rparr>) = slot_ok slot"
  "slot_ok (slot\<lparr>stopping := b\<rparr>) = slot_ok slot"
  "slot_ok (slot\<lparr>mailbox := ms\<rparr>) = slot_ok slot"
  "slot_ok (slot\<lparr>mailbox_max_depth := k\<rparr>) = slot_ok slot"
  "slot_ok (slot\<lparr>exit_value := v\<rparr>) = slot_ok slot"
  by (simp_all add: slot_ok_def)

lemma slot_ok_deliver: "slot_ok slot \<Longrightarrow> slot_ok (slot_deliver msg slot)"
  by (auto simp: slot_deliver_def Let_def split: any.split)

lemma pool_run_ok: "pool_run S p \<Longrightarrow> pool_ok p"
proof (induction rule: pool_run.induct)
  case (spawn p req a)
  then have "pool_ok (p\<lparr>actors := hm_insert (sr_addr req) (slot_new req) (actors p)\<rparr>)"
    by (intro pool_ok_update) (auto simp: slot_ok_def slot_new_def history_ok_def)
  then show ?case by (simp add: pool_ok_def pool_insert_def)
next
  case (tick p w budget st n p' st')
  then obtain d slots where t: "tick_slots (logged S) w budget (actors p) st = (n, d, slots, st')"
    and p': "actors p' = slots" by (auto simp: tick_all_def split: prod.splits)
  have "map fst slots = map fst (actors p)" using tick_slots_keys [of "logged S" w budget "actors p" st] t by simp
  with tick.IH slots_ok_tick [OF t] p' show ?case by (simp add: pool_ok_def)
next
  case (cleanup p w st dead p' st')
  then have "actors p' = filter (\<lambda>(_, slot). \<not> dead_slot slot) (actors p)"
    using pool_cleanup_dead_spec(1) [OF _ cleanup.hyps(2)] by (simp add: pool_ok_def)
  with cleanup.IH show ?case by (auto simp: pool_ok_def distinct_map_filter)
next
  case empty
  then show ?case by (simp add: pool_ok_def pool_new_def)
qed (auto simp: pool_deliver_def suspend_actor_admin_def
    resume_actor_admin_def stop_actor_admin_def slot_ok_deliver split: option.split
    intro!: pool_ok_update dest: pool_ok_lookup)

section \<open>Properties\<close>


definition one_actor :: "(unit logged_actor, unit) actor_pool" where
  "one_actor = pool_insert \<lparr>sr_addr = ActorAddress 7, sr_actor = ((), []), sr_parent = None, sr_env = []\<rparr> pool_new"



definition stopped_pool :: "(unit, unit) actor_pool" where
  "stopped_pool = fst (snd (stop_actor_admin (ActorAddress 1) busy_pool worker_stats_new))"


end
