(* ===== verification/Worker_Passes.thy ===== *)
theory Worker_Passes
  imports Worker Lifecycle "HOL-Library.Multiset"
begin

text \<open>
  What a worker's pass does: the drains of the transfer queue (nothing lost, order kept when every
  destination is installed, exactly when they do not return), and the pass as a whole (the actors a
  pass leaves behind, and that it never leaves a runnable actor without asking for another pass).
\<close>

section \<open>Deliveries and the pool's addresses\<close>

lemma pool_contains_iff: "pool_contains p a \<longleftrightarrow> a \<in> set (map fst (actors p))"
  by (metis pool_contains_def map_of_eq_None_iff set_map)

lemma pool_deliver_keys [simp]: "map fst (actors (snd (pool_deliver a m p))) = map fst (actors p)"
proof (cases "map_of (actors p) a")
  case (Some slot)
  then have "a \<in> set (map fst (actors p))" by (metis map_of_eq_None_iff option.distinct(1) set_map)
  with Some show ?thesis by (simp add: pool_deliver_def update_keys)
qed (simp add: pool_deliver_def)

lemma pool_deliver_contains [simp]: "pool_contains (snd (pool_deliver a m p)) b = pool_contains p b"
  by (simp only: pool_contains_iff pool_deliver_keys)

lemma map_of_pool_deliver:
  "map_of (actors (snd (pool_deliver a m p))) b =
     (if b = a then map_option (slot_deliver m) (map_of (actors p) a) else map_of (actors p) b)"
  by (auto simp: pool_deliver_def update_conv' split: option.split)

definition deliver_all :: "'m envelope list \<Rightarrow> ('a, 'm) actor_pool \<Rightarrow> ('a, 'm) actor_pool" where
  "deliver_all es p = fold (\<lambda>e p. snd (pool_deliver (dest e) (payload e) p)) es p"

lemma deliver_all_simps [simp]:
  "deliver_all [] p = p"
  "deliver_all (e # es) p = deliver_all es (snd (pool_deliver (dest e) (payload e) p))"
  "deliver_all (es @ fs) p = deliver_all fs (deliver_all es p)"
  by (simp_all add: deliver_all_def)

lemma deliver_all_contains [simp]: "pool_contains (deliver_all es p) a = pool_contains p a"
  by (induction es arbitrary: p) auto

lemma deliver_all_keys [simp]: "map fst (actors (deliver_all es p)) = map fst (actors p)"
  by (induction es arbitrary: p) auto

text \<open>An actor that is not suspended gets exactly its messages, appended in order.\<close>

lemma deliver_all_mailbox:
  assumes "map_of (actors p) a = Some slot" "\<not> suspended slot"
  shows "\<exists>slot'. map_of (actors (deliver_all es p)) a = Some slot' \<and> \<not> suspended slot' \<and>
    mailbox slot' = mailbox slot @ map payload (filter (\<lambda>e. dest e = a) es)"
  using assms
proof (induction es arbitrary: p slot)
  case (Cons e es)
  show ?case
  proof (cases "dest e = a")
    case True
    have "map_of (actors (snd (pool_deliver (dest e) (payload e) p))) a = Some (slot_deliver (payload e) slot)"
      "\<not> suspended (slot_deliver (payload e) slot)"
      "mailbox (slot_deliver (payload e) slot) = mailbox slot @ [payload e]"
      using True Cons.prems by (simp_all add: map_of_pool_deliver slot_deliver_def Let_def)
    from Cons.IH [OF this(1,2)] this(3) True show ?thesis by auto
  next
    case False
    then have "map_of (actors (snd (pool_deliver (dest e) (payload e) p))) a = Some slot"
      using Cons.prems by (simp add: map_of_pool_deliver)
    from Cons.IH [OF this Cons.prems(2)] False show ?thesis by auto
  qed
qed auto

section \<open>Transfers\<close>

definition stuck :: "('a, 'm) runtime_shared \<Rightarrow> worker_id \<Rightarrow> ('a, 'm) actor_pool \<Rightarrow> 'm envelope \<Rightarrow> bool" where
  "stuck s w p e \<longleftrightarrow> \<not> pool_contains p (dest e) \<and> worker_of s (dest e) = Some w"

lemma deliver_or_defer_cases:
  assumes "deliver_or_defer_transfer s w e (p, deferred) = (b, p', deferred')"
  obtains (delivered) "pool_contains p (dest e)" "b" "p' = deliver_all [e] p" "deferred' = deferred"
  | (deferred) "stuck s w p e" "\<not> b" "p' = p" "deferred' = deferred @ [e]"
  | (dropped) "\<not> pool_contains p (dest e)" "worker_of s (dest e) \<noteq> Some w" "b" "p' = p" "deferred' = deferred"
  using assms
  by (auto simp: deliver_or_defer_transfer_def stuck_def deliver_all_def split: if_splits)


lemma drain_deferred_budget_returns:
  "budget > 0 \<Longrightarrow> \<exists>r. drain_deferred s w budget cnt did p deferred = Some r"
proof (induction "budget - cnt" arbitrary: cnt did p deferred)
  case 0
  then show ?case by (subst drain_deferred.simps) simp
next
  case (Suc k)
  show ?case
  proof (cases deferred)
    case Nil
    with Suc show ?thesis by (subst drain_deferred.simps) simp
  next
    case (Cons e rest)
    obtain b p' d' where r: "deliver_or_defer_transfer s w e (p, rest) = (b, p', d')" by (metis surj_pair)
    have "\<exists>x. drain_deferred s w budget (cnt + 1) (did \<or> b) p' d' = Some x"
      using Suc.hyps(1) [of "cnt + 1"] Suc.hyps(2) Suc.prems by simp
    with Cons r Suc show ?thesis by (subst drain_deferred.simps) simp
  qed
qed

lemma drain_deferred_unbounded_returns:
  "\<forall>e \<in> set deferred. \<not> stuck s w p e \<Longrightarrow> \<exists>r. drain_deferred s w 0 cnt did p deferred = Some r"
proof (induction deferred arbitrary: cnt did p)
  case Nil
  then show ?case by (subst drain_deferred.simps) simp
next
  case (Cons e rest)
  obtain b p' d' where r: "deliver_or_defer_transfer s w e (p, rest) = (b, p', d')" by (metis surj_pair)
  then have d: "d' = rest \<and> (\<forall>a. pool_contains p' a = pool_contains p a)"
    using Cons.prems by (cases rule: deliver_or_defer_cases) auto
  then have "\<exists>x. drain_deferred s w 0 (cnt + 1) (did \<or> b) p' rest = Some x"
    using Cons.IH [of p' "cnt + 1" "did \<or> b"] Cons.prems by (simp add: stuck_def)
  with r d show ?case by (subst drain_deferred.simps) simp
qed

lemma drain_deferred_unbounded_result:
  assumes "drain_deferred s w budget cnt did p deferred = Some r"
  shows "budget = 0 \<longrightarrow> (\<forall>e \<in> set deferred. \<not> stuck s w p e)"
proof (rule drain_deferred.raw_induct [where P = "\<lambda>s w budget cnt did p deferred r.
      budget = 0 \<longrightarrow> (\<forall>e \<in> set deferred. \<not> stuck s w p e)", OF _ assms], intro impI)
  fix f s w budget cnt did p and deferred :: "'b envelope list" and r
  assume ih: "\<And>s w budget cnt did p deferred r. f s w budget cnt did p deferred = Some r \<Longrightarrow>
      budget = 0 \<longrightarrow> (\<forall>e \<in> set deferred. \<not> stuck s w p e)"
    and step: "(if budget = 0 \<or> cnt < budget then
        (case deferred of
           [] \<Rightarrow> Some (cnt, did, p, [])
         | e # rest \<Rightarrow>
             (case deliver_or_defer_transfer s w e (p, rest) of (b, p', deferred') \<Rightarrow>
                f s w budget (cnt + 1) (did \<or> b) p' deferred'))
      else Some (cnt, did, p, deferred)) = Some r" and b: "budget = 0"
  show "\<forall>e \<in> set deferred. \<not> stuck s w p e"
  proof (cases deferred)
    case (Cons e rest)
    obtain b' p' d' where d: "deliver_or_defer_transfer s w e (p, rest) = (b', p', d')" by (metis surj_pair)
    have "f s w budget (cnt + 1) (did \<or> b') p' d' = Some r" using step b Cons d by simp
    from ih [OF this] b have i: "\<forall>e \<in> set d'. \<not> stuck s w p' e" by simp
    from d show ?thesis
      by (cases rule: deliver_or_defer_cases) (use i Cons in \<open>auto simp: stuck_def\<close>)
  qed simp
qed


text \<open>
  Conservation: every envelope is delivered once, kept, or dropped because its destination is not
  on this worker.
\<close>

definition accounted :: "('a, 'm) runtime_shared \<Rightarrow> worker_id \<Rightarrow> ('a, 'm) actor_pool \<Rightarrow> 'm envelope list
    \<Rightarrow> ('a, 'm) actor_pool \<Rightarrow> 'm envelope list \<Rightarrow> bool" where
  "accounted s w p es p' kept \<longleftrightarrow> (\<exists>delivered dropped.
     mset es = mset delivered + mset dropped + mset kept \<and> p' = deliver_all delivered p \<and>
     (\<forall>e \<in> set delivered. pool_contains p (dest e)) \<and>
     (\<forall>e \<in> set dropped. \<not> pool_contains p (dest e) \<and> worker_of s (dest e) \<noteq> Some w))"

lemma accounted_refl: "mset es = mset kept \<Longrightarrow> accounted s w p es p kept"
  unfolding accounted_def by (rule exI [of _ "[]"], rule exI [of _ "[]"]) simp

lemma accounted_step:
  assumes "deliver_or_defer_transfer s w e (p, rest) = (b, p1, rest1)"
    and "accounted s w p1 rest1 p' kept"
  shows "accounted s w p (e # rest) p' kept"
proof -
  from assms(2) obtain delivered dropped where a:
    "mset rest1 = mset delivered + mset dropped + mset kept" "p' = deliver_all delivered p1"
    "\<forall>e \<in> set delivered. pool_contains p1 (dest e)"
    "\<forall>e \<in> set dropped. \<not> pool_contains p1 (dest e) \<and> worker_of s (dest e) \<noteq> Some w"
    unfolding accounted_def by blast
  from assms(1) show ?thesis
  proof (cases rule: deliver_or_defer_cases)
    case delivered
    with a show ?thesis unfolding accounted_def
      by (intro exI [of _ "e # delivered"] exI [of _ dropped]) auto
  next
    case deferred
    with a show ?thesis unfolding accounted_def
      by (intro exI [of _ delivered] exI [of _ dropped]) auto
  next
    case dropped
    with a show ?thesis unfolding accounted_def
      by (intro exI [of _ delivered] exI [of _ "e # dropped"]) auto
  qed
qed

lemma drain_deferred_accounted:
  assumes "drain_deferred s w budget cnt did p deferred = Some (cnt', did', p', deferred')"
  shows "accounted s w p deferred p' deferred'"
proof -
  have "case (cnt', did', p', deferred') of (_, _, p', deferred') \<Rightarrow> accounted s w p deferred p' deferred'"
  proof (rule drain_deferred.raw_induct [where P = "\<lambda>s w budget cnt did p deferred r.
      case r of (_, _, p', deferred') \<Rightarrow> accounted s w p deferred p' deferred'", OF _ assms])
    fix f s w budget cnt did p and deferred :: "'b envelope list" and r
    assume ih: "\<And>s w budget cnt did p deferred r. f s w budget cnt did p deferred = Some r \<Longrightarrow>
        case r of (_, _, p', deferred') \<Rightarrow> accounted s w p deferred p' deferred'"
      and step: "(if budget = 0 \<or> cnt < budget then
          (case deferred of
             [] \<Rightarrow> Some (cnt, did, p, [])
           | e # rest \<Rightarrow>
               (case deliver_or_defer_transfer s w e (p, rest) of (b, p', deferred') \<Rightarrow>
                  f s w budget (cnt + 1) (did \<or> b) p' deferred'))
        else Some (cnt, did, p, deferred)) = Some r"
    show "case r of (_, _, p', deferred') \<Rightarrow> accounted s w p deferred p' deferred'"
    proof (cases "(budget = 0 \<or> cnt < budget) \<and> deferred \<noteq> []")
      case True
      then obtain e rest where d: "deferred = e # rest" by (cases deferred) auto
      obtain b p1 d1 where r: "deliver_or_defer_transfer s w e (p, rest) = (b, p1, d1)" by (metis surj_pair)
      have "f s w budget (cnt + 1) (did \<or> b) p1 d1 = Some r" using step True d r by simp
      from ih [OF this] accounted_step [OF r] d show ?thesis by (auto split: prod.splits)
    next
      case False
      with step show ?thesis by (auto simp: accounted_refl split: if_splits)
    qed
  qed
  then show ?thesis by simp
qed

lemma drain_envelopes_accounted:
  "drain_envelopes s w budget cnt p deferred q = (p', deferred', q') \<Longrightarrow>
   accounted s w p (deferred @ q) p' (deferred' @ q')"
proof (induction q arbitrary: cnt p deferred)
  case Nil
  then show ?case by (simp add: accounted_refl)
next
  case (Cons e q)
  show ?case
  proof (cases "budget = 0 \<or> cnt < budget")
    case True
    obtain b p1 d1 where r: "deliver_or_defer_transfer s w e (p, deferred) = (b, p1, d1)" by (metis surj_pair)
    have "accounted s w p1 (d1 @ q) p' (deferred' @ q')" using Cons True r by simp
    moreover obtain d2 where d2: "deliver_or_defer_transfer s w e (p, deferred @ q) = (b, p1, d2)"
      "mset d2 = mset (d1 @ q)"
      using r by (auto simp: deliver_or_defer_transfer_def split: if_splits)
    ultimately have "accounted s w p1 d2 p' (deferred' @ q')" unfolding accounted_def by simp
    from accounted_step [OF d2(1) this]
    show ?thesis unfolding accounted_def by (simp add: ac_simps)
  next
    case False
    with Cons.prems show ?thesis by (simp add: accounted_refl)
  qed
qed

lemma accounted_trans:
  assumes "accounted s w p es p1 kept1" "accounted s w p1 (kept1 @ fs) p2 kept2"
  shows "accounted s w p (es @ fs) p2 kept2"
proof -
  obtain d1 x1 where a: "mset es = mset d1 + mset x1 + mset kept1" "p1 = deliver_all d1 p"
    "\<forall>e \<in> set d1. pool_contains p (dest e)"
    "\<forall>e \<in> set x1. \<not> pool_contains p (dest e) \<and> worker_of s (dest e) \<noteq> Some w"
    using assms(1) unfolding accounted_def by blast
  obtain d2 x2 where b: "mset (kept1 @ fs) = mset d2 + mset x2 + mset kept2" "p2 = deliver_all d2 p1"
    "\<forall>e \<in> set d2. pool_contains p1 (dest e)"
    "\<forall>e \<in> set x2. \<not> pool_contains p1 (dest e) \<and> worker_of s (dest e) \<noteq> Some w"
    using assms(2) unfolding accounted_def by blast
  show ?thesis unfolding accounted_def
    using a b by (intro exI [of _ "d1 @ d2"] exI [of _ "x1 @ x2"]) (auto simp: ac_simps)
qed

lemma drain_transfers_accounted:
  assumes "drain_transfers s w budget p deferred q = Some (did, p', deferred', q')"
  shows "accounted s w p (deferred @ q) p' (deferred' @ q')"
proof -
  obtain cnt d1 p1 df1 where a: "drain_deferred s w budget 0 False p deferred = Some (cnt, d1, p1, df1)"
    and b: "drain_envelopes s w budget cnt p1 df1 q = (p', deferred', q')"
    using assms by (auto simp: drain_transfers_def Let_def split: bind_splits prod.splits)
  show ?thesis
    using accounted_trans [OF drain_deferred_accounted [OF a] drain_envelopes_accounted [OF b]] .
qed

text \<open>When no destination waits for its spawn, the drains take a prefix, in order.\<close>

definition batch :: "nat \<Rightarrow> nat \<Rightarrow> 'b list \<Rightarrow> nat" where
  "batch budget cnt xs = (if budget = 0 then length xs else min (budget - cnt) (length xs))"

lemma not_stuck_step:
  assumes "\<not> stuck s w p e"
  shows "\<exists>b. deliver_or_defer_transfer s w e (p, d) =
    (True, deliver_all (filter (\<lambda>e. pool_contains p (dest e)) [e]) p, d)"
  using assms by (auto simp: deliver_or_defer_transfer_def stuck_def)

lemma drain_deferred_prefix:
  "\<forall>e \<in> set d. \<not> stuck s w p e \<Longrightarrow>
   drain_deferred s w budget cnt did p d = Some (cnt + batch budget cnt d,
     did \<or> batch budget cnt d > 0,
     deliver_all (filter (\<lambda>e. pool_contains p (dest e)) (take (batch budget cnt d) d)) p,
     drop (batch budget cnt d) d)"
proof (induction d arbitrary: cnt did p)
  case Nil
  then show ?case by (subst drain_deferred.simps) (simp add: batch_def)
next
  case (Cons e d)
  let ?p = "deliver_all (filter (\<lambda>e. pool_contains p (dest e)) [e]) p"
  show ?case
  proof (cases "budget = 0 \<or> cnt < budget")
    case True
    have "\<forall>e \<in> set d. \<not> stuck s w ?p e" using Cons.prems by (simp add: stuck_def)
    note ih = Cons.IH [OF this, of "cnt + 1" True]
    have "batch budget cnt (e # d) = Suc (batch budget (cnt + 1) d)"
      using True by (auto simp: batch_def)
    with ih True not_stuck_step [of s w p e d] Cons.prems show ?thesis
      by (subst drain_deferred.simps) auto
  next
    case False
    then show ?thesis by (subst drain_deferred.simps) (simp add: batch_def)
  qed
qed

lemma drain_envelopes_prefix:
  "\<forall>e \<in> set q. \<not> stuck s w p e \<Longrightarrow>
   drain_envelopes s w budget cnt p d q =
     (deliver_all (filter (\<lambda>e. pool_contains p (dest e)) (take (batch budget cnt q) q)) p, d,
      drop (batch budget cnt q) q)"
proof (induction q arbitrary: cnt p)
  case Nil
  then show ?case by simp
next
  case (Cons e q)
  let ?p = "deliver_all (filter (\<lambda>e. pool_contains p (dest e)) [e]) p"
  show ?case
  proof (cases "budget = 0 \<or> cnt < budget")
    case True
    have "\<forall>e \<in> set q. \<not> stuck s w ?p e" using Cons.prems by (simp add: stuck_def)
    note ih = Cons.IH [OF this, of "cnt + 1"]
    have "batch budget cnt (e # q) = Suc (batch budget (cnt + 1) q)"
      using True by (auto simp: batch_def)
    with ih True not_stuck_step [of s w p e d] Cons.prems show ?thesis by auto
  next
    case False
    then show ?thesis by (simp add: batch_def)
  qed
qed

section \<open>Addresses and flags through a pass\<close>

lemma hm_insert_existing_keys: "map_of m a = Some x \<Longrightarrow> map fst (hm_insert a y m) = map fst m"
  by (metis map_of_eq_None_iff option.distinct(1) set_map update_keys)

lemma apply_admin_keys:
  "map fst (actors (fst (apply_admin_command S w cmd (p, s)))) = map fst (actors p)"
  by (cases cmd) (auto simp: stop_actor_admin_def suspend_actor_admin_def resume_actor_admin_def Let_def
      hm_insert_existing_keys split: option.split prod.split)

lemma drain_deferred_admin_invariant:
  assumes step: "\<And>cmd p s. I p s \<Longrightarrow> I (fst (apply_admin_command S w cmd (p, s))) (snd (apply_admin_command S w cmd (p, s)))"
    and r: "drain_deferred_admin S w budget cnt did p s deferred = Some (cnt', did', p', s', deferred')"
    and i: "I p s"
  shows "I p' s'"
proof -
  let ?P = "\<lambda>S' w' (budget :: nat) (cnt :: nat) (did :: bool) p s deferred r.
      S' = S \<and> w' = w \<and> I p s \<longrightarrow> (case r of (_, _, p', s', _) \<Rightarrow> I p' s')"
  have "?P S w budget cnt did p s deferred (cnt', did', p', s', deferred')"
  proof (rule drain_deferred_admin.raw_induct [where P = ?P, OF _ r], intro impI, elim conjE)
    fix f S' w' budget cnt did p s deferred r
    assume ih: "\<And>S' w' budget cnt did p s deferred r. f S' w' budget cnt did p s deferred = Some r \<Longrightarrow>
        ?P S' w' budget cnt did p s deferred r"
      and st: "(if budget = 0 \<or> cnt < budget then
        (case deferred of
           [] \<Rightarrow> Some (cnt, did, p, s, [])
         | cmd # rest \<Rightarrow>
             (case apply_or_defer_admin_command S' w' cmd (p, s, rest) of (b, p', s', deferred') \<Rightarrow>
                f S' w' budget (cnt + 1) (did \<or> b) p' s' deferred'))
      else Some (cnt, did, p, s, deferred)) = Some r"
      and e: "S' = S" "w' = w" and i: "I p s"
    show "case r of (_, _, p', s', _) \<Rightarrow> I p' s'"
    proof (cases "(budget = 0 \<or> cnt < budget) \<and> deferred \<noteq> []")
      case True
      then obtain cmd rest where d: "deferred = cmd # rest" by (cases deferred) auto
      obtain b p1 s1 d1 where a: "apply_or_defer_admin_command S w cmd (p, s, rest) = (b, p1, s1, d1)"
        by (metis surj_pair)
      then have "I p1 s1" using step [OF i, of cmd] i
        by (auto simp: apply_or_defer_admin_command_def split: if_splits prod.splits)
      moreover have "f S w budget (cnt + 1) (did \<or> b) p1 s1 d1 = Some r" using st True d a e by simp
      ultimately show ?thesis using ih [of S w budget "cnt + 1" "did \<or> b" p1 s1 d1 r] by simp
    next
      case False
      with st i show ?thesis by (auto split: if_splits)
    qed
  qed
  with i show ?thesis by simp
qed

lemma drain_commands_invariant:
  assumes step: "\<And>cmd p s. I p s \<Longrightarrow> I (fst (apply_admin_command S w cmd (p, s))) (snd (apply_admin_command S w cmd (p, s)))"
  shows "drain_commands S w budget cnt p s deferred q = (p', s', deferred', q') \<Longrightarrow> I p s \<Longrightarrow> I p' s'"
proof (induction q arbitrary: cnt p s deferred)
  case (Cons cmd q)
  obtain b p1 s1 d1 where a: "apply_or_defer_admin_command S w cmd (p, s, deferred) = (b, p1, s1, d1)"
    by (metis surj_pair)
  then have "I p1 s1" using step [OF Cons.prems(2), of cmd] Cons.prems(2)
    by (auto simp: apply_or_defer_admin_command_def split: if_splits prod.splits)
  with Cons.IH Cons.prems a show ?case by (auto split: if_splits)
qed simp

lemma drain_admin_invariant:
  assumes step: "\<And>cmd p s. I p s \<Longrightarrow> I (fst (apply_admin_command S w cmd (p, s))) (snd (apply_admin_command S w cmd (p, s)))"
    and r: "drain_admin S w budget p s deferred q = Some (did, p', s', deferred', q')" and i: "I p s"
  shows "I p' s'"
proof -
  obtain cnt d1 p1 s1 df1 where a: "drain_deferred_admin S w budget 0 False p s deferred = Some (cnt, d1, p1, s1, df1)"
    and b: "drain_commands S w budget cnt p1 s1 df1 q = (p', s', deferred', q')"
    using r by (auto simp: drain_admin_def Let_def split: bind_splits prod.splits)
  show ?thesis
    using drain_commands_invariant [of I S w, OF step b] drain_deferred_admin_invariant [of I S w, OF step a i]
    by simp
qed

lemma route_all_spec: "\<exists>es. fst (route_all S ms ps) = deliver_all es (fst ps)"
proof (induction ms arbitrary: ps)
  case Nil
  show ?case by (rule exI [of _ "[]"]) (simp add: route_all_def)
next
  case (Cons x ms)
  obtain d m where x: "x = (d, m)" by fastforce
  let ?ps = "route_runtime_message S d m ps"
  have "fst ?ps = deliver_all [envelope_new d m] (fst ps) \<or> fst ?ps = fst ps"
    by (cases ps) (auto simp: route_runtime_message_def envelope_new_def split: option.split)
  moreover obtain es where "fst (route_all S ms ?ps) = deliver_all es (fst ?ps)" using Cons.IH by blast
  then have "fst (route_all S (x # ms) ps) = deliver_all es (fst ?ps)" by (simp add: route_all_def x)
  ultimately show ?case by (metis deliver_all_simps(3))
qed

lemma deliver_all_poisoned:
  "\<forall>x \<in> set (actors p). \<not> poisoned (snd x) \<Longrightarrow> \<forall>x \<in> set (actors (deliver_all es p)). \<not> poisoned (snd x)"
proof (induction es arbitrary: p)
  case (Cons e es)
  have sd: "poisoned (slot_deliver m slot) = poisoned slot" for m :: "'b any" and slot :: "('a, 'b) actor_slot"
    by (auto simp: slot_deliver_def Let_def split: any.split)
  have "\<forall>x \<in> set (actors (snd (pool_deliver (dest e) (payload e) p))). \<not> poisoned (snd x)"
  proof (cases "map_of (actors p) (dest e)")
    case (Some slot)
    then have "\<not> poisoned slot" using Cons.prems by (auto dest!: map_of_SomeD)
    then show ?thesis
      using Some Cons.prems set_hm_insert_subset [of "dest e" "slot_deliver (payload e) slot" "actors p"]
      by (auto simp: pool_deliver_def sd)
  qed (use Cons.prems in \<open>simp add: pool_deliver_def\<close>)
  with Cons.IH show ?case by simp
qed simp

lemma deliver_pending_spec:
  "\<exists>es. fst (deliver_pending s w ms (p, d)) = deliver_all es p"
proof (induction ms arbitrary: p d)
  case Nil
  show ?case by (rule exI [of _ "[]"]) (simp add: deliver_pending_def)
next
  case (Cons x ms)
  obtain a m where x: "x = (a, m)" by fastforce
  obtain b p1 d1 where r: "deliver_or_defer_transfer s w (envelope_new a m) (p, d) = (b, p1, d1)"
    by (metis surj_pair)
  from Cons.IH [of p1 d1] obtain es where es: "fst (deliver_pending s w ms (p1, d1)) = deliver_all es p1" ..
  have "fst (deliver_pending s w (x # ms) (p, d)) = deliver_all es p1"
    using es r x by (simp add: deliver_pending_def)
  moreover from r have "\<exists>fs. p1 = deliver_all fs p"
    by (cases rule: deliver_or_defer_cases) (metis deliver_all_simps(1))+
  ultimately show ?case by (metis deliver_all_simps(3))
qed

lemma drain_spawns_spec:
  "budget = 0 \<or> cnt < budget \<Longrightarrow>
   drain_spawns x budget cnt p q = (fold pool_insert (take (batch budget cnt q) q) p, drop (batch budget cnt q) q)"
proof (induction q arbitrary: cnt p)
  case Nil
  then show ?case by simp
next
  case (Cons req q)
  have r: "(case x of Some e \<Rightarrow> req\<lparr>sr_env := on_spawn e (sr_addr req) (sr_parent req) (sr_env req)\<rparr> | None \<Rightarrow> req) = req"
    by (simp add: on_spawn_def split: option.split)
  show ?case
  proof (cases "budget \<noteq> 0 \<and> cnt + 1 \<ge> budget")
    case True
    then have "batch budget cnt (req # q) = 1" using Cons.prems by (auto simp: batch_def)
    with True show ?thesis by (simp add: r)
  next
    case False
    then have "batch budget cnt (req # q) = Suc (batch budget (cnt + 1) q)" by (auto simp: batch_def)
    with False Cons.IH [of "cnt + 1"] show ?thesis by (auto simp: r Let_def)
  qed
qed

lemma drain_spawns_0: "drain_spawns x budget 0 p q = (fold pool_insert (take (batch budget 0 q) q) p, drop (batch budget 0 q) q)"
  by (rule drain_spawns_spec) auto

lemma fold_insert_distinct: "hm_inv (actors p) \<Longrightarrow> hm_inv (actors (fold pool_insert reqs p))"
  by (induction reqs arbitrary: p) (auto simp: pool_insert_def distinct_update)

lemma batch_0_eq: "batch budget 0 q = 0 \<longleftrightarrow> q = []"
  by (cases q) (auto simp: batch_def)

lemma tick_all_keys: "tick_all S w budget p st = (n, p', st') \<Longrightarrow> map fst (actors p') = map fst (actors p)"
  using tick_slots_keys [of S w budget "actors p" st] by (auto simp: tick_all_def split: prod.splits)


text \<open>The intermediate states of a pass, named once.\<close>

lemma ingress_elim:
  assumes "ingress S (wk, s) = Some (did, wk', s')"
  obtains p1 sq1 s1 did2 p2 dt tq s2 did3 p3 s3 da aq where
    "drain_spawns (ext s) (worker_ingress_budget (config s)) 0 (pool wk) (spawn_qs s ! wid wk) = (p1, sq1)"
    "s1 = s\<lparr>spawn_qs := (spawn_qs s)[wid wk := sq1]\<rparr>"
    "drain_transfers s1 (wid wk) (worker_ingress_budget (config s)) p1 (deferred_transfers wk) (transfer_qs s ! wid wk)
       = Some (did2, p2, dt, tq)"
    "s2 = s1\<lparr>transfer_qs := (transfer_qs s1)[wid wk := tq]\<rparr>"
    "drain_admin S (wid wk) (worker_ingress_budget (config s)) p2 s2 (deferred_admin wk) (admin_qs s ! wid wk)
       = Some (did3, p3, s3, da, aq)"
    "wk' = wk\<lparr>pool := p3, deferred_transfers := dt, deferred_admin := da\<rparr>"
    "s' = s3\<lparr>admin_qs := (admin_qs s3)[wid wk := aq]\<rparr>"
    "did = (length sq1 < length (spawn_qs s ! wid wk) \<or> did2 \<or> did3)"
proof -
  let ?b = "worker_ingress_budget (config s)" let ?w = "wid wk"
  obtain p1 sq1 where d1: "drain_spawns (ext s) ?b 0 (pool wk) (spawn_qs s ! ?w) = (p1, sq1)" by (metis surj_pair)
  define s1 where "s1 = s\<lparr>spawn_qs := (spawn_qs s)[?w := sq1]\<rparr>"
  note i = assms [unfolded ingress_def Let_def, simplified d1 split_beta fst_conv snd_conv prod.case, folded s1_def]
  have tq: "transfer_qs s1 = transfer_qs s" "admin_qs s1 = admin_qs s" by (simp_all add: s1_def)
  obtain did2 p2 dt tq where d2: "drain_transfers s1 ?w ?b p1 (deferred_transfers wk) (transfer_qs s ! ?w)
      = Some (did2, p2, dt, tq)"
    using i by (cases "drain_transfers s1 ?w ?b p1 (deferred_transfers wk) (transfer_qs s ! ?w)") (auto simp: tq)
  define s2 where "s2 = s1\<lparr>transfer_qs := (transfer_qs s1)[?w := tq]\<rparr>"
  have aq2: "admin_qs s2 = admin_qs s" by (simp add: s2_def tq)
  have "drain_admin S ?w ?b p2 s2 (deferred_admin wk) (admin_qs s ! ?w) \<noteq> None"
  proof
    assume "drain_admin S ?w ?b p2 s2 (deferred_admin wk) (admin_qs s ! ?w) = None"
    with i d2 show False by (simp add: tq s2_def)
  qed
  then obtain did3 p3 s3 da aq where d3: "drain_admin S ?w ?b p2 s2 (deferred_admin wk) (admin_qs s ! ?w)
      = Some (did3, p3, s3, da, aq)" by (metis not_None_eq surj_pair)
  show thesis
    by (rule that [OF d1 s1_def d2 s2_def d3]) (use i d2 d3 in \<open>simp_all add: tq s2_def\<close>)
qed

lemma ingress_distinct:
  assumes "ingress S (wk, s) = Some (did, wk', s')" "hm_inv (actors (pool wk))"
  shows "hm_inv (actors (pool wk'))" "wid wk' = wid wk"
  using assms(1)
proof (atomize (full), cases rule: ingress_elim)
  case (1 p1 sq1 s1 did2 p2 dt tq s2 did3 p3 s3 da aq)
  have p1: "hm_inv (actors p1)" using 1(1) fold_insert_distinct [OF assms(2)] by (auto simp: drain_spawns_0)
  have p2: "hm_inv (actors p2)" using p1 drain_transfers_accounted [OF 1(3)] by (auto simp: accounted_def)
  have "hm_inv (actors p3)"
    by (rule drain_admin_invariant [of "\<lambda>p s. hm_inv (actors p)", OF _ 1(5) p2]) (simp add: apply_admin_keys)
  with 1(6) show "hm_inv (actors (pool wk')) \<and> wid wk' = wid wk" by simp
qed

lemma run_actors_elim:
  assumes "run_actors S (wk, s) = (n, did, wk', s')"
  obtains ms wx1 p1 s1 p2 s2 c p3 sq1 s3 p4 dt where
    "route_all S ms (pool wk, s) = (p1, s1)"
    "tick_all S (wid wk) (actor_message_budget (config s1)) p1 (s1, worker_context_new) = (n, p2, (s2, c))"
    "drain_spawns (ext s2) (worker_ingress_budget (config s2)) 0 p2 (spawn_qs s2 ! wid wk) = (p3, sq1)"
    "s3 = s2\<lparr>spawn_qs := (spawn_qs s2)[wid wk := sq1]\<rparr>"
    "deliver_pending s3 (wid wk) (pending_local c) (p3, deferred_transfers wk) = (p4, dt)"
    "wk' = wk\<lparr>pool := p4, wext := map_option (\<lambda>x. fold (\<lambda>r x. we_handle_request S x r) (worker_requests c) x) wx1,
       deferred_transfers := dt\<rparr>"
    "s' = s3"
    "did = (ms \<noteq> [] \<or> n > 0 \<or> length sq1 < length (spawn_qs s2 ! wid wk) \<or> pending_local c \<noteq> [])"
proof -
  obtain ms wx1 where x: "(case wext wk of None \<Rightarrow> ([], None)
      | Some x \<Rightarrow> (case we_on_tick S x of (ms, x') \<Rightarrow> (ms, Some x'))) = (ms, wx1)" by (metis surj_pair)
  obtain p1 s1 where r: "route_all S ms (pool wk, s) = (p1, s1)" by (metis surj_pair)
  obtain k p2 s2 c where t: "tick_all S (wid wk) (actor_message_budget (config s1)) p1 (s1, worker_context_new)
      = (k, p2, (s2, c))" by (metis surj_pair)
  obtain p3 sq1 where d: "drain_spawns (ext s2) (worker_ingress_budget (config s2)) 0 p2 (spawn_qs s2 ! wid wk)
      = (p3, sq1)" by (metis surj_pair)
  define s3 where "s3 = s2\<lparr>spawn_qs := (spawn_qs s2)[wid wk := sq1]\<rparr>"
  obtain p4 dt where q: "deliver_pending s3 (wid wk) (pending_local c) (p3, deferred_transfers wk) = (p4, dt)"
    by (metis surj_pair)
  have k: "k = n" using assms x r t d q by (simp add: run_actors_def Let_def s3_def)
  show thesis
    by (rule that [OF r t [unfolded k] d s3_def q])
      (use assms x r t d q k in \<open>auto simp: run_actors_def Let_def s3_def\<close>)
qed

lemma run_actors_result:
  assumes "run_actors S (wk, s) = (n, did, wk', s')" "hm_inv (actors (pool wk))"
  shows "hm_inv (actors (pool wk')) \<and> wid wk' = wid wk \<and>
    (\<not> did \<longrightarrow> (\<forall>x \<in> set (actors (pool wk')). dead_slot (snd x) \<or> idle_slot (snd x)))"
  using assms(1)
proof (cases rule: run_actors_elim)
  case (1 ms wx1 p1 s1 p2 s2 c p3 sq1 s3 p4 dt)
  obtain es where es: "p1 = deliver_all es (pool wk)" using route_all_spec [of S ms "(pool wk, s)"] 1(1) by auto
  have k2: "map fst (actors p2) = map fst (actors p1)" using tick_all_keys [OF 1(2)] .
  have p2: "hm_inv (actors p2)" unfolding k2 es using assms(2) by simp
  have p3: "hm_inv (actors p3)" using 1(3) fold_insert_distinct [OF p2] by (auto simp: drain_spawns_0)
  obtain fs where fs: "p4 = deliver_all fs p3"
    using deliver_pending_spec [of s3 "wid wk" "pending_local c" p3 "deferred_transfers wk"] 1(5) by auto
  have "\<forall>x \<in> set (actors (pool wk')). dead_slot (snd x) \<or> idle_slot (snd x)" if nd: "\<not> did"
  proof -
    have "spawn_qs s2 ! wid wk = []"
      using nd 1(3,8) batch_0_eq [of "worker_ingress_budget (config s2)" "spawn_qs s2 ! wid wk"]
      by (auto simp: drain_spawns_0)
    then have "p3 = p2" using 1(3) by simp
    moreover have "p4 = p3" using 1(5,8) nd by (simp add: deliver_pending_def)
    ultimately have p: "pool wk' = p2" using 1(6) by simp
    obtain b slots where ts: "tick_slots S (wid wk) (actor_message_budget (config s1)) (actors p1)
        (s1, worker_context_new) = (n, b, slots, (s2, c))" "actors p2 = slots"
      using 1(2) by (auto simp: tick_all_def split: prod.splits)
    from tick_slots_flow [OF ts(1)] nd 1(8) show ?thesis unfolding p ts(2) by blast
  qed
  then show ?thesis using p3 1(6) fs by simp
qed

lemma publish_fields:
  assumes "publish_actor_stats S now b (wk, s) = (wk', s')"
  shows "wid wk' = wid wk" "has_backlog wk' = has_backlog wk" "wext wk' = wext wk"
    "deferred_transfers wk' = deferred_transfers wk" "deferred_admin wk' = deferred_admin wk"
    "same_placement s s'" "transfer_qs s' = transfer_qs s" "inboxes s' = inboxes s" "ext s' = ext s"
    "map fst (actors (pool wk')) = map fst (actors (pool wk))"
  using assms
  by (auto simp: publish_actor_stats_def Let_def take_vital_dirty_def actor_snapshots_into_def
      same_placement_def comp_def case_prod_unfold split: if_splits prod.splits)

lemma publish_slots:
  assumes "publish_actor_stats S now b (wk, s) = (wk', s')" "\<And>slot k. P (slot\<lparr>mailbox_max_depth := k\<rparr>) = P slot"
  shows "(\<forall>x \<in> set (actors (pool wk')). P (snd x)) \<longleftrightarrow> (\<forall>x \<in> set (actors (pool wk)). P (snd x))"
  using assms
  by (auto simp: publish_actor_stats_def Let_def take_vital_dirty_def actor_snapshots_into_def
      split: if_splits prod.splits) force+

lemma cleanup_elim:
  assumes "cleanup_dead_actors S w p wx deferred s = (cleaned, p', wx', deferred', s')"
  obtains dead p1 s1 c1 p2 s2 where
    "pool_cleanup_dead S w p (s, worker_context_new) = (dead, p1, (s1, c1))"
    "cleaned = (dead \<noteq> [])"
    "dead = [] \<Longrightarrow> p2 = p1 \<and> s2 = s1"
    "dead \<noteq> [] \<Longrightarrow> \<exists>s3. notify_deaths S dead (p1, fold (\<lambda>(a, _, _). address_remove a) dead s1) = (p2, s3) \<and>
       s2 = upd_stats w (\<lambda>ws. ws\<lparr>num_actors := pool_len p2\<rparr>) s3"
    "deliver_pending s2 w (pending_local c1) (p2, deferred) = (p', deferred')" "s' = s2"
proof -
  obtain dead p1 s1 c1 where c: "pool_cleanup_dead S w p (s, worker_context_new) = (dead, p1, (s1, c1))"
    by (metis surj_pair)
  obtain p2 s3 where n: "notify_deaths S dead (p1, fold (\<lambda>(a, _, _). address_remove a) dead s1) = (p2, s3)"
    by (metis surj_pair)
  show thesis
  proof (cases "dead = []")
    case True
    show thesis
      by (rule that [OF c, of p1 s1]) (use assms c True in \<open>auto simp: cleanup_dead_actors_def split: prod.splits\<close>)
  next
    case False
    show thesis
      by (rule that [OF c, of p2 "upd_stats w (\<lambda>ws. ws\<lparr>num_actors := pool_len p2\<rparr>) s3"])
        (use assms c n False in \<open>auto simp: cleanup_dead_actors_def split: prod.splits\<close>)
  qed
qed

lemma notify_deaths_pool:
  fixes p :: "('a, 'm) actor_pool"
  shows "\<exists>es. fst (notify_deaths S dead (p, s)) = deliver_all es p"
proof (cases "ext s")
  case None
  then show ?thesis by (auto simp: notify_deaths_def intro: exI [of _ "[]"])
next
  case (Some e)
  obtain ns :: "(actor_address \<times> 'm any) list" and e' where "on_actor_death e dead = (ns, e')" by (metis surj_pair)
  with Some route_all_spec [of S ns "(p, s\<lparr>ext := Some (ext_cleanup_dead e' (map fst dead))\<rparr>)"] show ?thesis
    by (simp add: notify_deaths_def)
qed

lemma cleanup_result:
  assumes "cleanup_dead_actors S w p wx deferred s = (cleaned, p', wx', deferred', s')" "hm_inv (actors p)"
  shows "hm_inv (actors p') \<and> (\<forall>x \<in> set (actors p'). \<not> poisoned (snd x)) \<and>
    (\<not> cleaned \<longrightarrow> p' = p \<and> (\<forall>x \<in> set (actors p). \<not> dead_slot (snd x)))"
  using assms(1)
proof (cases rule: cleanup_elim)
  case (1 dead p1 s1 c1 p2 s2)
  note spec = pool_cleanup_dead_spec [OF assms(2) 1(1)]
  have np: "\<forall>x \<in> set (actors p1). \<not> poisoned (snd x)" and d1: "hm_inv (actors p1)"
    using spec(1) assms(2) by (auto simp: dead_slot_def distinct_map_filter)
  obtain es where es: "p2 = deliver_all es p1"
  proof (cases "dead = []")
    case True
    with 1(3) that [of "[]"] show thesis by simp
  next
    case False
    with 1(4) obtain s3 where "notify_deaths S dead (p1, fold (\<lambda>(a, _, _). address_remove a) dead s1) = (p2, s3)"
      by blast
    with notify_deaths_pool [of S dead p1 "fold (\<lambda>(a, _, _). address_remove a) dead s1"] that show thesis by auto
  qed
  obtain fs where fs: "p' = deliver_all fs p2"
    using deliver_pending_spec [of s2 w "pending_local c1" p2 deferred] 1(5) by auto
  have main: "hm_inv (actors p') \<and> (\<forall>x \<in> set (actors p'). \<not> poisoned (snd x))"
    unfolding fs es using d1 np by (intro conjI deliver_all_poisoned) simp_all
  have "p' = p \<and> (\<forall>x \<in> set (actors p). \<not> dead_slot (snd x))" if "\<not> cleaned"
  proof -
    have "dead = []" using that 1(2) by simp
    then have none: "filter (\<lambda>(_, slot). dead_slot slot) (actors p) = []" using spec(2) by auto
    then have "pool_cleanup_dead S w p (s, worker_context_new) = ([], p, (s, worker_context_new))"
      by (simp add: pool_cleanup_dead_def dead_slot_def [symmetric])
    then have "p1 = p" "c1 = worker_context_new" using 1(1) by auto
    then have "p' = p" using 1(3,5) \<open>dead = []\<close> by (simp add: deliver_pending_def worker_context_new_def)
    with none show ?thesis by (auto simp: filter_empty_conv)
  qed
  with main show ?thesis by blast
qed

lemma finish_elim:
  assumes "finish_pass S clock n did_work (wk, s) = (did, wk', s')"
  obtains s2 wk1 s3 cleaned p wx dt s4 s5 wk2 where
    "same_placement s s2" "transfer_qs s2 = transfer_qs s" "inboxes s2 = inboxes s" "ext s2 = ext s"
    "(if vital_dirty (pool wk) then publish_actor_stats S (clock 6) did_work (wk, s2) else (wk, s2)) = (wk1, s3)"
    "cleanup_dead_actors S (wid wk) (pool wk1) (wext wk1) (deferred_transfers wk1) s3 = (cleaned, p, wx, dt, s4)"
    "s5 = (if cleaned then upd_stats (wid wk) (store_pool_stats p) s4 else s4)"
    "did = (did_work \<or> cleaned)"
    "publish_actor_stats S (clock 6) did (wk1\<lparr>pool := p, wext := wx, deferred_transfers := dt\<rparr>, s5) = (wk2, s')"
    "wk' = wk2\<lparr>has_backlog := did\<rparr>"
proof -
  define s1 where "s1 = (if did_work then upd_stats (wid wk) (\<lambda>x. (store_pool_stats (pool wk) x)
      \<lparr>ws_messages_processed := ws_messages_processed x + n\<rparr>) s else s)"
  define s2 where "s2 = upd_stats (wid wk) (push_tick_timing \<lparr>phase_us = map (\<lambda>i. clock (i + 1) - clock i) [0..<6],
      tt_messages_processed = n, tt_did_work = did_work\<rparr>) s1"
  obtain wk1 s3 where a: "(if vital_dirty (pool wk) then publish_actor_stats S (clock 6) did_work (wk, s2)
      else (wk, s2)) = (wk1, s3)" by (metis surj_pair)
  obtain cleaned p wx dt s4 where c: "cleanup_dead_actors S (wid wk) (pool wk1) (wext wk1) (deferred_transfers wk1) s3
      = (cleaned, p, wx, dt, s4)" by (metis surj_pair)
  define s5 where "s5 = (if cleaned then upd_stats (wid wk) (store_pool_stats p) s4 else s4)"
  obtain wk2 s6 where b: "publish_actor_stats S (clock 6) (did_work \<or> cleaned)
      (wk1\<lparr>pool := p, wext := wx, deferred_transfers := dt\<rparr>, s5) = (wk2, s6)" by (metis surj_pair)
  have r: "did = (did_work \<or> cleaned)" "wk' = wk2\<lparr>has_backlog := did\<rparr>" "s' = s6"
    using assms a c b unfolding finish_pass_def Let_def s1_def [symmetric] prod.case s2_def [symmetric]
    by (simp_all only: prod.case s5_def [symmetric] prod.inject) auto
  have q: "same_placement s s2" "transfer_qs s2 = transfer_qs s" "inboxes s2 = inboxes s" "ext s2 = ext s"
    unfolding s2_def s1_def by (auto simp: same_placement_def upd_stats_def)
  show thesis by (rule that [OF q a c s5_def]) (use r b in auto)
qed

text \<open>
  Between passes no actor is poisoned, and a worker without backlog has nothing to run: every
  actor is suspended, or has started and has an empty mailbox.
\<close>

definition worker_inv :: "('a, 'm, 'w) worker \<Rightarrow> bool" where
  "worker_inv wk \<longleftrightarrow> hm_inv (actors (pool wk)) \<and> (\<forall>x \<in> set (actors (pool wk)). \<not> poisoned (snd x)) \<and>
     (\<not> has_backlog wk \<longrightarrow> (\<forall>x \<in> set (actors (pool wk)). \<not> dead_slot (snd x) \<and> idle_slot (snd x)))"

lemma worker_inv_new: "worker_inv (worker_new i)"
  by (simp add: worker_inv_def worker_new_def pool_new_def)

lemma publish_worker_inv:
  assumes "publish_actor_stats S now b (wk, s) = (wk', s')"
  shows "hm_inv (actors (pool wk')) = hm_inv (actors (pool wk))"
    "(\<forall>x \<in> set (actors (pool wk')). \<not> poisoned (snd x)) = (\<forall>x \<in> set (actors (pool wk)). \<not> poisoned (snd x))"
    "(\<forall>x \<in> set (actors (pool wk')). \<not> dead_slot (snd x) \<and> idle_slot (snd x)) =
     (\<forall>x \<in> set (actors (pool wk)). \<not> dead_slot (snd x) \<and> idle_slot (snd x))"
    "(\<forall>x \<in> set (actors (pool wk')). dead_slot (snd x) \<or> idle_slot (snd x)) =
     (\<forall>x \<in> set (actors (pool wk)). dead_slot (snd x) \<or> idle_slot (snd x))"
  using publish_fields(10) [OF assms] publish_slots [OF assms, of "\<lambda>s. \<not> poisoned s"]
    publish_slots [OF assms, of "\<lambda>s. \<not> dead_slot s \<and> idle_slot s"]
    publish_slots [OF assms, of "\<lambda>s. dead_slot s \<or> idle_slot s"]
  by (simp_all add: dead_slot_def idle_slot_def)

lemma finish_result:
  assumes "finish_pass S clock n did_work (wk, s) = (did, wk', s')" "hm_inv (actors (pool wk))"
    "\<not> did_work \<Longrightarrow> \<forall>x \<in> set (actors (pool wk)). dead_slot (snd x) \<or> idle_slot (snd x)"
  shows "worker_inv wk' \<and> has_backlog wk' = did \<and> wid wk' = wid wk"
  using assms(1)
proof (cases rule: finish_elim)
  case (1 s2 wk1 s3 cleaned p wx dt s4 s5 wk2)
  have wk1: "hm_inv (actors (pool wk1))" "wid wk1 = wid wk"
    "\<not> did_work \<Longrightarrow> \<forall>x \<in> set (actors (pool wk1)). dead_slot (snd x) \<or> idle_slot (snd x)"
  proof (atomize (full), cases "vital_dirty (pool wk)")
    case True
    then have pub: "publish_actor_stats S (clock 6) did_work (wk, s2) = (wk1, s3)" using 1(5) by simp
    show "hm_inv (actors (pool wk1)) \<and> wid wk1 = wid wk \<and>
      (\<not> did_work \<longrightarrow> (\<forall>x \<in> set (actors (pool wk1)). dead_slot (snd x) \<or> idle_slot (snd x)))"
      using publish_worker_inv(1,4) [OF pub] publish_fields(1) [OF pub] assms(2,3) by simp
  next
    case False
    then show "hm_inv (actors (pool wk1)) \<and> wid wk1 = wid wk \<and>
      (\<not> did_work \<longrightarrow> (\<forall>x \<in> set (actors (pool wk1)). dead_slot (snd x) \<or> idle_slot (snd x)))"
      using 1(5) assms(2,3) by simp
  qed
  note c = cleanup_result [OF 1(6) wk1(1)]
  have p: "pool (wk1\<lparr>pool := p, wext := wx, deferred_transfers := dt\<rparr>) = p" by simp
  note q = publish_worker_inv [OF 1(9), unfolded p]
  have "\<forall>x \<in> set (actors p). \<not> dead_slot (snd x) \<and> idle_slot (snd x)" if "\<not> did"
  proof -
    have "\<not> cleaned" "\<not> did_work" using that 1(8) by auto
    with c wk1(3) show ?thesis by blast
  qed
  then show ?thesis using c q 1(10) publish_fields(1) [OF 1(9)] wk1(2) by (auto simp: worker_inv_def)
qed

lemma try_tick_worker_inv:
  assumes "worker_inv wk" "try_tick S clock (wk, s) = Some (did, wk', s')"
  shows "worker_inv wk' \<and> has_backlog wk' = did \<and> wid wk' = wid wk"
proof (cases "has_work S s wk")
  case False
  then have pub: "publish_actor_stats S (clock 0) False (wk, s) = (wk', s')" and "\<not> did"
    using assms(2) by (auto simp: try_tick_def)
  moreover have "\<not> has_backlog wk" using False by (simp add: has_work_def)
  ultimately show ?thesis
    using assms(1) publish_worker_inv [OF pub] publish_fields(1,2) [OF pub] by (simp add: worker_inv_def)
next
  case True
  obtain did1 wk1 s1 where i: "ingress S (wk, s) = Some (did1, wk1, s1)"
    using assms(2) True by (auto simp: try_tick_def split: bind_splits)
  obtain n did2 wk2 s2 where r: "run_actors S (wk1, s1) = (n, did2, wk2, s2)" by (metis surj_pair)
  have f: "finish_pass S clock n (did1 \<or> did2) (wk2, s2) = (did, wk', s')"
    using assms(2) True i r by (simp add: try_tick_def)
  have "hm_inv (actors (pool wk1))" "wid wk1 = wid wk"
    using ingress_distinct [OF i] assms(1) by (auto simp: worker_inv_def)
  with run_actors_result [OF r] finish_result [OF f] show ?thesis by auto
qed

lemma drain_deferred_rotates:
  assumes "\<forall>e \<in> set d. stuck s w p e" "d \<noteq> []" "cnt \<le> budget" "budget > 0"
  shows "drain_deferred s w budget cnt did p d = Some (budget, did, p, rotate (budget - cnt) d)"
  using assms
proof (induction "budget - cnt" arbitrary: cnt d)
  case 0
  then show ?case by (subst drain_deferred.simps) simp
next
  case (Suc k)
  then obtain e rest where d: "d = e # rest" by (cases d) auto
  have r: "deliver_or_defer_transfer s w e (p, rest) = (False, p, rest @ [e])"
    using Suc.prems(1) d by (simp add: deliver_or_defer_transfer_def stuck_def)
  have "drain_deferred s w budget (cnt + 1) did p (rest @ [e]) = Some (budget, did, p, rotate (budget - (cnt + 1)) (rest @ [e]))"
    using Suc d by (intro Suc.hyps(1)) auto
  moreover have "rotate (budget - cnt) d = rotate (budget - (cnt + 1)) (rest @ [e])"
  proof -
    have "budget - cnt = Suc (budget - (cnt + 1))" using Suc.hyps(2) by simp
    then show ?thesis using d by (simp add: rotate1_rotate_swap)
  qed
  moreover have "cnt < budget" using Suc.hyps(2) by simp
  ultimately show ?case using d r by (subst drain_deferred.simps) simp
qed

section \<open>Properties\<close>

text \<open>C9. A worker's pass never leaves a runnable actor without asking for another pass: when
  \<open>try_tick\<close> returns \<open>false\<close>, every actor on the worker is suspended or has started and has an
  empty mailbox, and none is waiting for cleanup. A pass also leaves no poisoned actor behind.\<close>

theorem no_lost_wakeups:
  assumes "worker_inv wk" "try_tick S clock (wk, s) = Some (did, wk', s')"
  shows "worker_inv wk' \<and> (\<forall>x \<in> set (actors (pool wk')). \<not> poisoned (snd x)) \<and>
    (\<not> did \<longrightarrow> (\<forall>x \<in> set (actors (pool wk')). \<not> stopping (snd x) \<and>
        (suspended (snd x) \<or> started (snd x) \<and> mailbox (snd x) = [])))"
  using try_tick_worker_inv [OF assms] by (auto simp: worker_inv_def dead_slot_def idle_slot_def)

definition fresh_worker :: "(unit, unit, unit) worker" where
  "fresh_worker = (worker_new 0)\<lparr>pool := busy_pool, has_backlog := True\<rparr>"

lemma fresh_worker_inv: "worker_inv fresh_worker"
  by (simp add: worker_inv_def fresh_worker_def worker_new_def busy_pool_def slot_new_def)

theorem no_lost_wakeups_witness:
  "\<exists>did wk' s'. try_tick mute_system (\<lambda>_. 0) (fresh_worker, shared_new runtime_config_default) = Some (did, wk', s') \<and>
     worker_inv wk'"
proof -
  have "drain_deferred s 0 1024 0 False p [] = Some (0, False, p, [])" for s :: "(unit, unit) runtime_shared" and p
    by (subst drain_deferred.simps) simp
  moreover have "drain_deferred_admin mute_system 0 1024 0 False p s [] = Some (0, False, p, s, [])" for s p
    by (subst drain_deferred_admin.simps) simp
  ultimately have "\<exists>r. ingress mute_system (fresh_worker, shared_new runtime_config_default) = Some r"
    by (simp add: ingress_def fresh_worker_def worker_new_def shared_new_def runtime_config_default_def Let_def
        drain_transfers_def drain_admin_def) blast
  then have "\<exists>r. try_tick mute_system (\<lambda>_. 0) (fresh_worker, shared_new runtime_config_default) = Some r"
    by (auto simp: try_tick_def has_work_def fresh_worker_def split: prod.split) (metis surj_pair)
  then obtain did wk' s' where
    t: "try_tick mute_system (\<lambda>_. 0) (fresh_worker, shared_new runtime_config_default) = Some (did, wk', s')"
    by (metis surj_pair)
  with no_lost_wakeups [OF fresh_worker_inv t] show ?thesis by blast
qed

text \<open>C10. Draining the transfer queue loses and duplicates nothing: every envelope that was retained
  or queued is delivered once to an installed actor, or still retained or queued, or dropped
  because its destination is neither installed on this worker nor mapped to it.\<close>

theorem transfers_conserved:
  assumes "drain_transfers s w budget p deferred q = Some (did, p', deferred', q')"
  shows "\<exists>delivered dropped. mset (deferred @ q) = mset delivered + mset dropped + mset (deferred' @ q') \<and>
    p' = fold (\<lambda>e p. snd (pool_deliver (dest e) (payload e) p)) delivered p \<and>
    (\<forall>e \<in> set delivered. pool_contains p (dest e)) \<and>
    (\<forall>e \<in> set dropped. \<not> pool_contains p (dest e) \<and> worker_of s (dest e) \<noteq> Some w)"
  using drain_transfers_accounted [OF assms] unfolding accounted_def deliver_all_def by blast

definition two_envelopes :: "unit envelope list" where
  "two_envelopes = [envelope_new (ActorAddress 1) (User ()), envelope_new (ActorAddress 2) (User ())]"

lemma drain_two: "drain_transfers (shared_new runtime_config_default) 0 1024 busy_pool [] two_envelopes =
    Some (True, snd (pool_deliver (ActorAddress 1) (User ()) busy_pool), [], [])"
proof -
  have "drain_deferred (shared_new runtime_config_default) 0 1024 0 False busy_pool [] = Some (0, False, busy_pool, [])"
    by (subst drain_deferred.simps) simp
  then show ?thesis
    by (simp add: drain_transfers_def two_envelopes_def deliver_or_defer_transfer_def pool_contains_def
        envelope_new_def busy_pool_def shared_new_def worker_of_def pool_deliver_def)
qed

theorem transfers_conserved_witness:
  "\<exists>delivered dropped. mset two_envelopes = mset delivered + mset dropped \<and>
     (\<forall>e \<in> set delivered. dest e = ActorAddress 1)"
  using transfers_conserved [OF drain_two] by (auto simp: pool_contains_def busy_pool_def split: if_splits)

text \<open>When no destination is waiting for its spawn, draining handles the retained envelopes and
  then the queue strictly in order, up to the ingress budget: every actor that is not suspended gets
  the payloads addressed to it appended to its mailbox in queue order, and the rest stays in order.\<close>

theorem transfers_in_order:
  assumes "\<forall>e \<in> set (deferred @ q). pool_contains p (dest e) \<or> worker_of s (dest e) \<noteq> Some w"
    and "map_of (actors p) a = Some slot" "\<not> suspended slot"
    and n_def: "n = (if budget = 0 then length (deferred @ q) else min budget (length (deferred @ q)))"
  shows "\<exists>did p' deferred' q' slot'. drain_transfers s w budget p deferred q = Some (did, p', deferred', q') \<and>
    deferred' @ q' = drop n (deferred @ q) \<and> map_of (actors p') a = Some slot' \<and>
    mailbox slot' = mailbox slot @ map payload (filter (\<lambda>e. dest e = a) (take n (deferred @ q)))"
proof -
  let ?here = "\<lambda>e. pool_contains p (dest e)"
  let ?n1 = "batch budget 0 deferred" let ?n2 = "batch budget ?n1 q"
  have ns: "\<forall>e \<in> set deferred. \<not> stuck s w p e" "\<forall>e \<in> set q. \<not> stuck s w p e"
    using assms(1) by (auto simp: stuck_def)
  let ?p1 = "deliver_all (filter ?here (take ?n1 deferred)) p"
  have ns1: "\<forall>e \<in> set q. \<not> stuck s w ?p1 e" using ns(2) by (simp add: stuck_def)
  let ?p2 = "deliver_all (filter ?here (take ?n2 q)) ?p1"
  obtain did where dr: "drain_transfers s w budget p deferred q = Some (did, ?p2, drop ?n1 deferred, drop ?n2 q)"
    using drain_deferred_prefix [OF ns(1), of budget 0 False] drain_envelopes_prefix [OF ns1, of budget "?n1" "drop ?n1 deferred"]
    by (simp add: drain_transfers_def Let_def)
  have n: "take n (deferred @ q) = take ?n1 deferred @ take ?n2 q" "drop n (deferred @ q) = drop ?n1 deferred @ drop ?n2 q"
    unfolding n_def batch_def by (auto simp: min_def)
  let ?es = "filter ?here (take n (deferred @ q))"
  have p2: "?p2 = deliver_all ?es p" unfolding n by simp
  have here: "?here e" if "dest e = a" for e using assms(2) that by (simp add: pool_contains_def)
  obtain slot' where slot': "map_of (actors (deliver_all ?es p)) a = Some slot'"
    "mailbox slot' = mailbox slot @ map payload (filter (\<lambda>e. dest e = a) ?es)"
    using deliver_all_mailbox [OF assms(2,3), of ?es] by blast
  have "filter (\<lambda>e. dest e = a) ?es = filter (\<lambda>e. dest e = a) (take n (deferred @ q))"
    unfolding filter_filter using here by (intro filter_cong) auto
  with dr slot' n(2) show ?thesis unfolding p2 by metis
qed

theorem transfers_in_order_witness:
  "\<exists>did p' deferred' q' slot'.
     drain_transfers (shared_new runtime_config_default) 0 1 busy_pool [] two_envelopes = Some (did, p', deferred', q') \<and>
     deferred' @ q' = [envelope_new (ActorAddress 2) (User ())] \<and>
     map_of (actors p') (ActorAddress 1) = Some slot' \<and> mailbox slot' = [User (), User (), User (), User ()]"
proof -
  have a: "\<forall>e \<in> set ([] @ two_envelopes). pool_contains busy_pool (dest e) \<or>
      worker_of (shared_new runtime_config_default :: (unit, unit) runtime_shared) (dest e) \<noteq> Some 0"
    by (simp add: two_envelopes_def shared_new_def worker_of_def)
  have b: "map_of (actors busy_pool) (ActorAddress 1) = Some (snd (hd (actors busy_pool)))"
    "\<not> suspended (snd (hd (actors busy_pool)))"
    by (simp_all add: busy_pool_def slot_new_def)
  from transfers_in_order [OF a b refl, of 1] show ?thesis
    by (simp add: two_envelopes_def envelope_new_def busy_pool_def)
qed

text \<open>C11. Draining the transfer queue returns exactly when it has an ingress budget or no retained
  envelope waits for a spawn. With the unlimited budget \<open>0\<close> a single retained envelope whose
  destination is mapped to the worker but not yet installed makes the pass run forever, because it is
  put back at the end of the queue that the loop empties.\<close>

theorem drain_transfers_returns_iff:
  "drain_transfers s w budget p deferred q = None \<longleftrightarrow>
     budget = 0 \<and> (\<exists>e. e \<in> set deferred \<and> \<not> pool_contains p (dest e) \<and> worker_of s (dest e) = Some w)"
proof -
  have "drain_transfers s w budget p deferred q = None \<longleftrightarrow> drain_deferred s w budget 0 False p deferred = None"
    by (auto simp: drain_transfers_def Let_def bind_eq_None_conv split: prod.splits)
  moreover have "drain_deferred s w budget 0 False p deferred \<noteq> None" if "budget > 0"
    using drain_deferred_budget_returns [OF that, of s w 0 False p deferred] by auto
  moreover have "drain_deferred s w 0 0 False p deferred = None \<longleftrightarrow> (\<exists>e \<in> set deferred. stuck s w p e)"
    using drain_deferred_unbounded_returns [of deferred s w p 0 False]
      drain_deferred_unbounded_result [of s w 0 0 False p deferred] by (metis not_None_eq)
  ultimately show ?thesis by (cases "budget = 0") (auto simp: stuck_def)
qed

text \<open>While spawns are outstanding a bounded drain reorders messages: if every retained envelope
  waits for its spawn, a pass rotates the retained queue by the budget and takes nothing from the
  transfer queue. Two messages of one sender to one target change places whenever the budget is not
  a multiple of the number of retained envelopes, against the documented per-sender order.\<close>

theorem retained_transfers_rotate:
  assumes "\<forall>e \<in> set deferred. \<not> pool_contains p (dest e) \<and> worker_of s (dest e) = Some w"
    and "deferred \<noteq> []" "budget > 0"
  shows "drain_transfers s w budget p deferred q = Some (False, p, rotate budget deferred, q)"
proof -
  have "drain_deferred s w budget 0 False p deferred = Some (budget, False, p, rotate budget deferred)"
    using assms drain_deferred_rotates [of deferred s w p 0 budget False] by (simp add: stuck_def)
  moreover have "drain_envelopes s w budget budget p (rotate budget deferred) q = (p, rotate budget deferred, q)"
    using assms(3) by (cases q) auto
  ultimately show ?thesis by (simp add: drain_transfers_def)
qed

theorem retained_transfers_rotate_witness:
  "drain_transfers (address_insert (ActorAddress 5) 0 (shared_new runtime_config_default) :: (unit, nat) runtime_shared)
     0 1 pool_new [envelope_new (ActorAddress 5) (User 1), envelope_new (ActorAddress 5) (User 2)] [] =
   Some (False, pool_new, [envelope_new (ActorAddress 5) (User 2), envelope_new (ActorAddress 5) (User 1)], [])"
  using retained_transfers_rotate [of "[envelope_new (ActorAddress 5) (User 1), envelope_new (ActorAddress 5) (User (2 :: nat))]"
      "pool_new :: (unit, nat) actor_pool" "address_insert (ActorAddress 5) 0 (shared_new runtime_config_default)" 0 1 "[]"]
  by (simp add: envelope_new_def pool_contains_def pool_new_def address_insert_def shared_new_def worker_of_def)

end
