(* ===== verification/Tick_Invariants.thy ===== *)
theory Tick_Invariants
  imports Worker_Passes
begin

text \<open>
  Lifting facts about single calls to whole passes. The locale \<open>tick_relation\<close> is the contract: a
  reflexive and transitive relation on tick states that holds across every call a callback can
  make and across the worker's own bookkeeping. Inside it the relation is shown to hold across
  callbacks, message loops, passes over the pool and cleanups. The theory
  \<open>Placement\<close> interprets it on the placement of actors.
\<close>

locale tick_relation =
  fixes S :: "('a, 'm, 'r, 'w) system" and w :: worker_id
    and R :: "('a, 'm, 'r) tick_state \<Rightarrow> ('a, 'm, 'r) tick_state \<Rightarrow> bool"
  assumes rel_refl: "R st st"
    and rel_trans: "R st1 st2 \<Longrightarrow> R st2 st3 \<Longrightarrow> R st1 st3"
    and rel_call: "R st (snd (run_call S w cx c st))"
    and rel_stats: "R st (on_shared (upd_stats w f) st)"
    and rel_stop_with: "R st (snd (take_stop_with addr st))"
begin

lemma rel_prog: "R st (snd (run_prog S w cx p st))"
  by (rule run_prog_lift [of R]) (auto intro: rel_refl rel_trans rel_call)

lemma rel_handle_any: "R st (snd (handle_any S w cx a msg st))"
  by (cases msg) (simp_all add: handle_any_def case_prod_unfold rel_prog rel_refl)

lemma rel_process: "R st (snd (snd (snd (snd (process_message S w budget cx k slot msg st)))))"
proof (cases "msg = StopSignal \<or> (\<exists>v. msg = StopWithSignal v)")
  case True
  then show ?thesis by (auto simp: process_message_def rel_stats)
next
  case False
  obtain p h a st1 where h: "handle_any S w cx (actor slot) msg st = ((p, h, a), st1)" by (metis surj_pair)
  have r1: "R st st1" using rel_handle_any [of st cx "actor slot" msg] h by simp
  define st2 where "st2 = (case h of None \<Rightarrow> on_shared (upd_stats w bump_mismatches) st1 | Some t \<Rightarrow> st1)"
  have r2: "R st st2" using r1 rel_trans [OF r1 rel_stats] by (simp add: st2_def split: option.split)
  obtain v st3 where t: "take_stop_with (self_addr cx) st2 = (v, st3)" by (metis surj_pair)
  have r3: "R st st3" using r2 rel_trans [OF _ rel_stop_with [of st2 "self_addr cx"]] t by simp
  show ?thesis unfolding process_message_unfold [OF False h refl st2_def t]
    using rel_trans [OF r1 rel_stats] rel_trans [OF r3 rel_stats] r3 by simp
qed

lemma rel_on_start: "R st (snd (snd (snd (run_on_start S w cx slot st))))"
proof -
  obtain p a st1 where r: "run_prog S w cx (on_start S (actor slot) cx) st = ((p, a), st1)" by (metis surj_pair)
  have r1: "R st st1" using rel_prog [of st cx "on_start S (actor slot) cx"] r by simp
  obtain v st2 where t: "take_stop_with (self_addr cx) st1 = (v, st2)" by (metis surj_pair)
  have r2: "R st st2" using rel_trans [OF r1 rel_stop_with [of st1 "self_addr cx"]] t by simp
  have "snd (snd (snd (run_on_start S w cx slot st))) =
      (if p then on_shared (upd_stats w bump_panics) st1
       else if self_addr cx \<in> set (stop_requests (snd st1))
         then snd (take_stop_with (self_addr cx) (on_shared (upd_stats w bump_stops) st1))
       else if v \<noteq> None then on_shared (upd_stats w bump_stops) st2 else st2)"
    by (cases v) (simp_all add: run_on_start_def Let_def r t split: prod.split)
  then show ?thesis
    using rel_trans [OF r1 rel_stats] rel_trans [OF rel_trans [OF r1 rel_stats] rel_stop_with]
      rel_trans [OF r2 rel_stats] r2 by simp
qed

lemma rel_drain: "R st (snd (snd (snd (drain_mailbox S w budget cx k slot ms st))))"
proof (induction ms arbitrary: k slot st)
  case (Cons msg ms)
  obtain over k1 d1 slot1 st1
    where pm: "process_message S w budget cx k (slot\<lparr>mailbox := ms\<rparr>) msg st = (over, k1, d1, slot1, st1)"
    by (metis surj_pair)
  then have "R st st1" using rel_process [of st budget cx k "slot\<lparr>mailbox := ms\<rparr>" msg] by simp
  moreover have "snd (snd (snd (drain_mailbox S w budget cx k slot (msg # ms) st))) =
      (if over then st1 else snd (snd (snd (drain_mailbox S w budget cx k1 slot1 ms st1))))" by (simp add: pm)
  ultimately show ?case using Cons.IH [of st1 k1 slot1] by (cases over) (simp_all add: rel_trans)
qed (simp add: rel_refl)

lemma rel_slot: "R st (snd (snd (snd (tick_slot S w budget addr slot st))))"
proof (cases "should_skip_actor (poisoned slot) (stopping slot) (suspended slot)")
  case False
  obtain over d1 slot1 st1 where s: "(if started slot then (False, False, slot, st)
      else run_on_start S w (slot_ctx addr slot) slot st) = (over, d1, slot1, st1)" by (metis surj_pair)
  then have "R st st1"
    using rel_refl rel_on_start [of st "slot_ctx addr slot" slot] by (auto split: if_splits)
  moreover have "snd (snd (snd (tick_slot S w budget addr slot st))) =
      (if over then st1 else snd (snd (snd (drain_mailbox S w budget (slot_ctx addr slot) 0 slot1 (mailbox slot1) st1))))"
    using s False by (simp add: tick_slot_def Let_def)
  ultimately show ?thesis
    using rel_drain [of st1 budget "slot_ctx addr slot" 0 slot1 "mailbox slot1"]
    by (cases over) (simp_all add: rel_trans)
qed (simp add: tick_slot_def rel_refl)

lemma rel_slots: "R st (snd (snd (snd (tick_slots S w budget slots st))))"
proof (induction slots arbitrary: st)
  case (Cons x slots)
  obtain addr slot where x: "x = (addr, slot)" by fastforce
  obtain n1 d1 slot1 st1 where h: "tick_slot S w budget addr slot st = (n1, d1, slot1, st1)"
    by (metis surj_pair)
  have "R st st1" using rel_slot [of st budget addr slot] h by simp
  moreover have "snd (snd (snd (tick_slots S w budget (x # slots) st))) =
      snd (snd (snd (tick_slots S w budget slots st1)))" by (simp add: x h case_prod_unfold)
  ultimately show ?case using Cons.IH [of st1] by (simp only:) (rule rel_trans)
qed (simp add: rel_refl)

lemma rel_tick_all:
  assumes "tick_all S w budget p st = (n, p', st')" shows "R st st'"
proof -
  have "st' = snd (snd (tick_all S w budget p st))" by (simp add: assms)
  then have "st' = snd (snd (snd (tick_slots S w budget (actors p) st)))"
    by (simp add: tick_all_def case_prod_unfold)
  then show ?thesis by (simp only: rel_slots)
qed

lemma rel_cleanup_each: "R st (snd (snd (cleanup_each S w addrs p st)))"
proof (induction addrs arbitrary: p st)
  case (Cons a addrs)
  show ?case
  proof (cases "map_of (actors p) a")
    case None
    then show ?thesis using Cons.IH by simp
  next
    case (Some slot)
    let ?cx = "slot_ctx a slot"
    define st1 where "st1 = (if is_on_stop_eligible (stopping slot) (poisoned slot)
        then snd (run_prog S w ?cx (on_stop S (actor slot) ?cx) st) else st)"
    have "R st st1" unfolding st1_def using rel_prog rel_refl by simp
    moreover have "snd (snd (cleanup_each S w (a # addrs) p st)) =
        snd (snd (cleanup_each S w addrs \<lparr>actors = hm_remove a (actors p), vital_dirty = True\<rparr> st1))"
      using Some by (simp add: Let_def st1_def case_prod_unfold)
    ultimately show ?thesis
      using Cons.IH [of st1 "\<lparr>actors = hm_remove a (actors p), vital_dirty = True\<rparr>"]
      by (simp only:) (rule rel_trans)
  qed
qed (simp add: rel_refl)

lemma rel_cleanup:
  assumes "pool_cleanup_dead S w p st = (dead, p', st')" shows "R st st'"
proof -
  have "st' = snd (snd (pool_cleanup_dead S w p st))" by (simp add: assms)
  then show ?thesis unfolding pool_cleanup_dead_def by (simp only: rel_cleanup_each)
qed

end

end
