(* ===== verification/Placement.thy ===== *)
theory Placement
  imports Tick_Invariants
begin

text \<open>
  Where actors live. An address is mapped to a worker exactly when that worker has the actor in its
  pool or its spawn request queued, each address is in one place only, and every mapped address was
  drawn from the random source. The invariant \<open>placed\<close> says this of the shared state and of the
  pools' address sets; it is kept by every call of a callback and by every part of a pass as long as
  the addresses drawn so far are different (\<open>unique_addrs\<close>). Addresses are finitely many, so this is
  asked only of the addresses that were really drawn, and every part of a pass draws forward.
\<close>

section \<open>The invariant\<close>

definition queued :: "('a, 'm) runtime_shared \<Rightarrow> worker_id \<Rightarrow> actor_address set" where
  "queued s i = sr_addr ` set (spawn_qs s ! i)"

definition placed ::
  "('m, 'z) net_scheme \<Rightarrow> nat \<Rightarrow> (worker_id \<Rightarrow> actor_address set) \<Rightarrow> ('a, 'm) runtime_shared \<Rightarrow> bool" where
  "placed N n PK s \<longleftrightarrow>
     length (spawn_qs s) = n \<and> length (transfer_qs s) = n \<and> length (admin_qs s) = n \<and> length (stats s) = n \<and>
     (\<forall>i < n. distinct (map sr_addr (spawn_qs s ! i)) \<and> queued s i \<inter> PK i = {}) \<and>
     (\<forall>a i. worker_of s a = Some i \<longleftrightarrow> i < n \<and> a \<in> queued s i \<union> PK i) \<and>
     (\<forall>a. worker_of s a \<noteq> None \<longrightarrow> a \<in> addr_source N ` {..<next_addr s})"

definition unique_addrs :: "('m, 'z) net_scheme \<Rightarrow> ('a, 'm) runtime_shared \<Rightarrow> bool" where
  "unique_addrs N s \<longleftrightarrow> inj_on (addr_source N) {..<next_addr s}"

lemma unique_mono: "unique_addrs N s' \<Longrightarrow> next_addr s \<le> next_addr s' \<Longrightarrow> unique_addrs N s"
  by (auto simp: unique_addrs_def intro: inj_on_subset)

lemma placed_same:
  assumes "same_placement s s'" "placed N n PK s" shows "placed N n PK s'"
  using assms by (simp add: placed_def same_placement_def queued_def worker_of_def)

lemma placed_drawn: "placed N n PK s \<Longrightarrow> worker_of s a = Some i \<Longrightarrow> a \<in> addr_source N ` {..<next_addr s}"
  unfolding placed_def by (metis option.distinct(1))

lemma placed_spawn:
  assumes "unique_addrs N s1" "w < n" "placed N n PK s" "new_random N s = (a, s1)" "sr_addr r = a"
  shows "placed N n PK (spawn_send w r (address_insert a w s1))"
proof -
  let ?s = "spawn_send w r (address_insert a w s1)"
  have a: "a = addr_source N (next_addr s)" and s1: "s1 = s\<lparr>next_addr := Suc (next_addr s)\<rparr>"
    using assms(4) by (auto simp: new_random_def)
  have fresh: "worker_of s a = None"
  proof (rule ccontr)
    assume "worker_of s a \<noteq> None"
    then have "a \<in> addr_source N ` {..<next_addr s}" using assms(3) by (simp add: placed_def)
    then show False using a assms(1) by (auto simp: unique_addrs_def s1 dest: inj_onD)
  qed
  have w: "worker_of ?s b = (if b = a then Some w else worker_of s b)" for b
    by (simp add: worker_of_def spawn_send_def address_insert_def s1 update_conv')
  have q: "queued ?s i = (if i = w then insert a (queued s i) else queued s i)" if "i < n" for i
    using assms(2,3,5) that by (auto simp: queued_def spawn_send_def address_insert_def s1 placed_def nth_list_update)
  have out: "a \<notin> queued s i \<union> PK i" if "i < n" for i
    using fresh assms(3) that unfolding placed_def by (metis option.distinct(1))
  have d: "distinct (map sr_addr (spawn_qs ?s ! i)) \<and> queued ?s i \<inter> PK i = {}" if "i < n" for i
    using assms(2,3,5) out [OF that] that
    by (auto simp: q spawn_send_def address_insert_def s1 placed_def nth_list_update queued_def)
  have m: "worker_of ?s b = Some i \<longleftrightarrow> i < n \<and> b \<in> queued ?s i \<union> PK i" for b i
  proof (cases "i < n")
    case True
    have "worker_of s b = Some i \<longleftrightarrow> b \<in> queued s i \<union> PK i" using assms(3) True by (auto simp: placed_def)
    with True q [OF True] w out [OF True] assms(2) show ?thesis by auto
  next
    case False
    then show ?thesis using assms(2,3) by (auto simp: w placed_def)
  qed
  have drawn: "\<forall>b. worker_of ?s b \<noteq> None \<longrightarrow> b \<in> addr_source N ` {..<next_addr ?s}"
  proof (intro allI impI)
    fix b assume "worker_of ?s b \<noteq> None"
    then have "b = a \<or> b \<in> addr_source N ` {..<next_addr s}"
      using placed_drawn [OF assms(3), of b] by (auto simp: w split: if_splits)
    then show "b \<in> addr_source N ` {..<next_addr ?s}"
      by (auto simp: a spawn_send_def address_insert_def s1 lessThan_Suc)
  qed
  show ?thesis
    using assms(3) d m drawn unfolding placed_def
    by (simp add: spawn_send_def address_insert_def s1)
qed

definition placement_rel ::
  "('m, 'z) net_scheme \<Rightarrow> nat \<Rightarrow> worker_id \<Rightarrow> ('a, 'm, 'r) tick_state \<Rightarrow> ('a, 'm, 'r) tick_state \<Rightarrow> bool" where
  "placement_rel N n w st st' \<longleftrightarrow> next_addr (fst st) \<le> next_addr (fst st') \<and>
     (unique_addrs N (fst st') \<and> w < n \<longrightarrow>
     (\<forall>PK. placed N n PK (fst st) \<longrightarrow> placed N n PK (fst st') \<and>
       (\<forall>a \<in> addr_source N ` {..<next_addr (fst st)}. worker_of (fst st') a = worker_of (fst st) a)))"

lemma same_placement_facts:
  "same_placement s s' \<Longrightarrow> worker_of s' a = worker_of s a"
  "same_placement s s' \<Longrightarrow> next_addr s' = next_addr s"
  by (simp_all add: same_placement_def worker_of_def)

lemma placement_rel_same: "same_placement (fst st) (fst st') \<Longrightarrow> placement_rel N n w st st'"
  by (auto simp: placement_rel_def same_placement_facts intro: placed_same)

lemma same_placement_send_any: "same_placement (fst st) (fst (snd (send_any N w a m st)))"
proof -
  obtain s c where st: "st = (s, c)" by fastforce
  have "same_placement s (snd (route_nonlocal N a m (upd_stats w bump_inbox s)))"
    "same_placement s (transfer_send v e (upd_stats w bump_local s))" for v e
    using same_placement_trans same_placement_delivery by blast+
  then show ?thesis unfolding st by (auto simp: case_prod_unfold split: option.split)
qed

lemma placement_spawn: "placement_rel N n w st (snd (ctx_spawn_with N w cx x env st))"
proof (cases "case ctx_capabilities cx of Some caps \<Rightarrow> check_spawn caps | None \<Rightarrow> Inr ()")
  case (Inl e)
  then show ?thesis by (auto simp: ctx_spawn_with_def intro: placement_rel_same)
next
  case (Inr u)
  obtain s c where st: "st = (s, c)" by fastforce
  obtain a s1 where r: "new_random N s = (a, s1)" by fastforce
  let ?req = "\<lparr>sr_addr = a, sr_actor = x, sr_parent = Some (self_addr cx), sr_env = env\<rparr>"
  have e: "snd (ctx_spawn_with N w cx x env st) = (spawn_send w ?req (address_insert a w s1), c)"
    using Inr r st by (simp add: ctx_spawn_with_def)
  have keep: "worker_of (spawn_send w ?req (address_insert a w s1)) b = worker_of s b"
    if "unique_addrs N s1" "b \<in> addr_source N ` {..<next_addr s}" for b
  proof -
    have "b \<noteq> a" using that r by (auto simp: new_random_def unique_addrs_def dest: inj_onD)
    then show ?thesis using r
      by (auto simp: worker_of_def spawn_send_def address_insert_def new_random_def update_conv')
  qed
  moreover have "next_addr (spawn_send w ?req (address_insert a w s1)) = Suc (next_addr s)"
    using r by (auto simp: spawn_send_def address_insert_def new_random_def)
  moreover have "unique_addrs N (spawn_send w ?req (address_insert a w s1)) = unique_addrs N s1"
    by (simp add: unique_addrs_def spawn_send_def address_insert_def)
  ultimately have "placement_rel N n w (s, c) (spawn_send w ?req (address_insert a w s1), c)"
    unfolding placement_rel_def using placed_spawn [of N s1 w n _ s a ?req] r by auto
  then show ?thesis using e st by simp
qed

lemma placement_call: "placement_rel N n w st (snd (run_call N w cx c st))"
proof (cases c)
  case (CallSend a m)
  then show ?thesis
    using same_placement_send_any [of st N w a m]
    by (auto simp: ctx_send_def split: option.split sum.split prod.split intro!: placement_rel_same)
next
  case (CallStopActor a)
  then show ?thesis
    using same_placement_send_any [of st N w a StopSignal]
    by (auto simp: ctx_stop_actor_def split: option.split sum.split prod.split intro!: placement_rel_same)
next
  case (RawSend a m)
  then show ?thesis
    using same_placement_send_any [of st N w a m] by (auto split: prod.split intro!: placement_rel_same)
next
  case (CallSpawn x)
  then show ?thesis using placement_spawn [of N n w st cx x "self_env cx"]
    by (auto simp: ctx_spawn_def split: prod.split)
next
  case (CallSpawnBuilder x vs)
  then show ?thesis
    using placement_spawn [of N n w st cx x "fold (\<lambda>(t, v). env_set t v) vs (self_env cx)"]
    by (auto simp: spawn_builder_finish_def split: prod.split)
next
  case (CallWatch a)
  then show ?thesis
    by (cases st) (auto simp: same_placement_def split: option.splits intro!: placement_rel_same)
next
  case (CallJoinGroup g)
  then show ?thesis
    by (cases st) (auto simp: same_placement_def split: option.splits intro!: placement_rel_same)
qed (cases st; auto intro!: placement_rel_same)+

interpretation placement: tick_relation S w "placement_rel S n w"
  for S :: "('a, 'm, 'r, 'w) system" and n and w :: worker_id
proof
  fix st1 st2 st3 :: "('a, 'm, 'r) tick_state"
  assume r: "placement_rel S n w st1 st2" "placement_rel S n w st2 st3"
  show "placement_rel S n w st1 st3"
    unfolding placement_rel_def
  proof (intro impI allI conjI ballI)
    show m: "next_addr (fst st1) \<le> next_addr (fst st3)" using r by (simp add: placement_rel_def)
    fix PK
    assume h: "unique_addrs S (fst st3) \<and> w < n" and p: "placed S n PK (fst st1)"
    have h2: "unique_addrs S (fst st2) \<and> w < n"
      using h r(2) unique_mono [of S "fst st3" "fst st2"] by (simp add: placement_rel_def)
    have a: "placed S n PK (fst st2)"
      "\<forall>a \<in> addr_source S ` {..<next_addr (fst st1)}. worker_of (fst st2) a = worker_of (fst st1) a"
      using r(1) [unfolded placement_rel_def, THEN conjunct2, THEN mp, OF h2, THEN spec, THEN mp, OF p] by simp_all
    have b: "placed S n PK (fst st3)"
      "\<forall>a \<in> addr_source S ` {..<next_addr (fst st2)}. worker_of (fst st3) a = worker_of (fst st2) a"
      using r(2) [unfolded placement_rel_def, THEN conjunct2, THEN mp, OF h, THEN spec, THEN mp, OF a(1)] by simp_all
    show "placed S n PK (fst st3)" by (fact b)
    fix x assume x: "x \<in> addr_source S ` {..<next_addr (fst st1)}"
    then have x2: "x \<in> addr_source S ` {..<next_addr (fst st2)}"
      using r(1) by (auto simp: placement_rel_def)
    from bspec [OF a(2) x] bspec [OF b(2) x2] show "worker_of (fst st3) x = worker_of (fst st1) x" by simp
  qed
qed (auto simp: on_shared_def take_stop_with_def placement_call split: option.split intro!: placement_rel_same)

section \<open>The parts of a pass\<close>

definition keys :: "('a, 'm) actor_pool \<Rightarrow> actor_address set" where
  "keys p = set (map fst (actors p))"

text \<open>What one worker's step does to the addresses drawn so far: only its own may disappear.\<close>

definition settled :: "('m, 'z) net_scheme \<Rightarrow> worker_id \<Rightarrow> ('a, 'm) runtime_shared \<Rightarrow> ('a, 'm) runtime_shared \<Rightarrow> bool" where
  "settled N w s s' \<longleftrightarrow> next_addr s \<le> next_addr s' \<and>
     (\<forall>a \<in> addr_source N ` {..<next_addr s}. worker_of s' a = worker_of s a \<or>
        worker_of s a = Some w \<and> worker_of s' a = None)"

lemma settled_trans:
  assumes a: "settled N w s t" "settled N w t u"
  shows "settled N w s u"
  unfolding settled_def
proof (intro conjI ballI)
  show "next_addr s \<le> next_addr u" using a by (simp add: settled_def)
  fix x assume x: "x \<in> addr_source N ` {..<next_addr s}"
  then have x2: "x \<in> addr_source N ` {..<next_addr t}" using a(1) by (auto simp: settled_def)
  from bspec [OF conjunct2 [OF a(1) [unfolded settled_def]] x]
    bspec [OF conjunct2 [OF a(2) [unfolded settled_def]] x2]
  show "worker_of u x = worker_of s x \<or> worker_of s x = Some w \<and> worker_of u x = None" by auto
qed

lemma settled_same: "same_placement s s' \<Longrightarrow> settled N w s s'"
  by (simp add: settled_def same_placement_def worker_of_def)

lemma settled_rel:
  "unique_addrs N s' \<Longrightarrow> w < n \<Longrightarrow> placed N n PK s \<Longrightarrow> placement_rel N n w (s, c) (s', c') \<Longrightarrow>
   placed N n PK s' \<and> settled N w s s'"
  unfolding placement_rel_def settled_def by simp

lemma keys_dom: "keys p = dom (map_of (actors p))"
  by (simp add: keys_def dom_map_of_conv_image_fst)

lemma keys_pool_insert: "keys (pool_insert r p) = insert (sr_addr r) (keys p)"
  by (simp add: keys_dom pool_insert_def update_conv')

lemma keys_fold_insert: "keys (fold pool_insert reqs p) = keys p \<union> sr_addr ` set reqs"
  by (induction reqs arbitrary: p) (auto simp: keys_pool_insert)

lemma placed_drain_spawns:
  assumes "placed N n PK s" "w < n" "PK w = keys p"
    and d: "drain_spawns x budget 0 p (spawn_qs s ! w) = (p', q')"
    and s': "s' = s\<lparr>spawn_qs := (spawn_qs s)[w := q']\<rparr>"
  shows "placed N n (PK(w := keys p')) s' \<and> settled N w s s'"
proof -
  let ?q = "spawn_qs s ! w" let ?k = "batch budget 0 ?q"
  have p': "p' = fold pool_insert (take ?k ?q) p" and q': "q' = drop ?k ?q"
    using d by (auto simp: drain_spawns_0)
  have all: "take ?k ?q @ drop ?k ?q = ?q" by simp
  have split: "set ?q = set (take ?k ?q) \<union> set q'" unfolding q' by (metis all set_append)
  have kp: "keys p' = PK w \<union> sr_addr ` set (take ?k ?q)" by (simp add: p' keys_fold_insert assms(3))
  have dist: "distinct (map sr_addr ?q)" "queued s w \<inter> PK w = {}" using assms(1,2) by (auto simp: placed_def)
  have "distinct (map sr_addr (take ?k ?q) @ map sr_addr (drop ?k ?q))"
    using dist(1) unfolding map_append [symmetric] all .
  then have dj: "distinct (map sr_addr q')" "sr_addr ` set (take ?k ?q) \<inter> sr_addr ` set q' = {}"
    unfolding q' distinct_append by simp_all
  have wo: "worker_of s' a = worker_of s a" for a by (simp add: s' worker_of_def)
  have nx: "next_addr s' = next_addr s" by (simp add: s')
  have qd: "queued s' i = (if i = w then sr_addr ` set q' else queued s i)" if "i < n" for i
    using that assms(1,2) by (auto simp: queued_def s' placed_def nth_list_update)
  have qw: "queued s w = sr_addr ` set (take ?k ?q) \<union> sr_addr ` set q'"
    unfolding queued_def split by (rule image_Un)
  have un: "queued s' i \<union> (PK(w := keys p')) i = queued s i \<union> PK i" if "i < n" for i
    using qd [OF that] kp qw by auto
  have "distinct (map sr_addr (spawn_qs s' ! i)) \<and> queued s' i \<inter> (PK(w := keys p')) i = {}" if "i < n" for i
  proof (cases "i = w")
    case True
    have "spawn_qs s' ! w = q'" using assms(1,2) by (simp add: s' placed_def)
    with True dj dist(2) kp qw qd [OF that] show ?thesis by auto
  next
    case False
    then show ?thesis using that assms(1) qd [OF that] by (simp add: s' placed_def)
  qed
  moreover have "(worker_of s' a = Some i) = (i < n \<and> a \<in> queued s' i \<union> (PK(w := keys p')) i)" for a i
    using assms(1) un [of i] unfolding wo placed_def by (cases "i < n") simp_all
  moreover have "worker_of s' a \<noteq> None \<longrightarrow> a \<in> addr_source N ` {..<next_addr s'}" for a
    using placed_drawn [OF assms(1), of a] nx by (auto simp: wo)
  ultimately have "placed N n (PK(w := keys p')) s'"
    using assms(1) unfolding placed_def by (simp add: s')
  moreover have "settled N w s s'" unfolding settled_def by (simp add: wo nx)
  ultimately show ?thesis ..
qed

lemma fold_remove_frame:
  fixes s :: "('a, 'm) runtime_shared"
  shows "spawn_qs (fold address_remove as s) = spawn_qs s" "transfer_qs (fold address_remove as s) = transfer_qs s"
    "admin_qs (fold address_remove as s) = admin_qs s" "stats (fold address_remove as s) = stats s"
    "next_addr (fold address_remove as s) = next_addr s"
    "worker_of (fold address_remove as s) a = (if a \<in> set as then None else worker_of s a)"
  by (induction as arbitrary: s) (auto simp: address_remove_def worker_of_def delete_conv')

lemma placed_remove:
  assumes "placed N n PK s" "w < n" "set as \<subseteq> PK w"
  shows "placed N n (PK(w := PK w - set as)) (fold address_remove as s) \<and> settled N w s (fold address_remove as s)"
proof -
  let ?s = "fold address_remove as s"
  note f = fold_remove_frame(1-5) [of as s] and wo = fold_remove_frame(6) [of as s]
  have qd: "queued ?s i = queued s i" for i by (simp add: queued_def f)
  have here: "worker_of s a = Some w" if "a \<in> set as" for a
    using that assms by (auto simp: placed_def)
  have dis: "queued s w \<inter> PK w = {}" using assms(1,2) by (simp add: placed_def)
  have "(worker_of ?s a = Some i) = (i < n \<and> a \<in> queued ?s i \<union> (PK(w := PK w - set as)) i)" for a i
  proof (cases "a \<in> set as")
    case True
    have "a \<notin> queued s i \<union> (PK(w := PK w - set as)) i" if "i < n"
    proof (cases "i = w")
      case True
      with \<open>a \<in> set as\<close> dis assms(3) show ?thesis by auto
    next
      case False
      then have "worker_of s a \<noteq> Some i" using here [OF True] by simp
      then show ?thesis using assms(1) that False by (auto simp: placed_def)
    qed
    with True show ?thesis by (auto simp: wo qd)
  next
    case False
    then show ?thesis using assms(1) by (auto simp: wo qd placed_def)
  qed
  moreover have "worker_of ?s a \<noteq> None \<longrightarrow> a \<in> addr_source N ` {..<next_addr ?s}" for a
    using placed_drawn [OF assms(1), of a] by (auto simp: wo f)
  moreover have "distinct (map sr_addr (spawn_qs ?s ! i)) \<and> queued ?s i \<inter> (PK(w := PK w - set as)) i = {}" if "i < n" for i
    using assms(1) that by (auto simp: qd f placed_def)
  ultimately have "placed N n (PK(w := PK w - set as)) ?s"
    using assms(1) unfolding placed_def by (simp add: f)
  moreover have "settled N w s ?s" using here by (auto simp: settled_def f wo)
  ultimately show ?thesis ..
qed

section \<open>A whole pass\<close>

lemma same_placement_list_actors: "same_placement s (apply_list_actors S w acc p s)"
  by (auto simp: apply_list_actors_def Let_def same_placement_def transfer_send_def try_deliver_def split: option.split)

lemma same_placement_admin: "same_placement s (snd (apply_admin_command S w cmd (p, s)))"
proof (cases cmd)
  case (StopActor a r)
  have "same_placement s (send_admin_reply S r x (upd_stats w f s))" for x f
    unfolding send_admin_reply_def using same_placement_trans same_placement_delivery by blast
  with StopActor show ?thesis by (auto split: prod.split)
qed (auto simp: same_placement_list_actors send_admin_reply_def Let_def split: option.split prod.split)

lemma same_placement_route_all: "same_placement (snd ps) (snd (route_all S ms ps))"
proof (induction ms arbitrary: ps)
  case (Cons x ms)
  obtain d m where x: "x = (d, m)" by fastforce
  have "same_placement (snd ps) (snd (route_runtime_message S d m ps))"
    by (cases ps) (auto simp: route_runtime_message_def split: option.split)
  with Cons.IH [of "route_runtime_message S d m ps"] show ?case
    using same_placement_trans by (auto simp: route_all_def x)
qed (simp add: route_all_def)

lemma same_placement_notify: "same_placement (snd ps) (snd (notify_deaths S dead ps))"
proof -
  obtain p s where ps: "ps = (p, s)" by fastforce
  have e: "same_placement s (s\<lparr>ext := x\<rparr>)" for x by (simp add: same_placement_def)
  show ?thesis unfolding ps notify_deaths_def
    using same_placement_trans [OF e] same_placement_route_all [of "(p, _)" S]
    by (auto split: option.split prod.split)
qed

lemma keys_deliver_all [simp]: "keys (deliver_all es p) = keys p"
  by (simp add: keys_def del: set_map)

lemma keys_eq: "map fst (actors p') = map fst (actors p) \<Longrightarrow> keys p' = keys p"
  by (simp only: keys_def)

lemma same_placement_queues [simp]:
  "same_placement s (s\<lparr>transfer_qs := (transfer_qs s)[w := q]\<rparr>)"
  "same_placement s (s\<lparr>admin_qs := (admin_qs s)[w := q']\<rparr>)"
  by (simp_all add: same_placement_def)

lemma ingress_next:
  assumes "ingress S (wk, s) = Some (did, wk', s')" shows "next_addr s' = next_addr s"
  using assms
proof (cases rule: ingress_elim)
  case (1 p1 sq1 s1 did2 p2 dt tq s2 did3 p3 s3 da aq)
  have "next_addr s3 = next_addr s2"
    by (rule drain_admin_invariant [of "\<lambda>p s. next_addr s = next_addr s2", OF _ 1(5)])
      (auto simp: same_placement_facts(2) [OF same_placement_admin])
  then show ?thesis using 1(2,4,7) by simp
qed

lemma ingress_placed:
  assumes "ingress S (wk, s) = Some (did, wk', s')"
    and "placed S n PK s" "wid wk < n" "PK (wid wk) = keys (pool wk)"
  shows "placed S n (PK(wid wk := keys (pool wk'))) s' \<and> settled S (wid wk) s s'"
  using assms(1)
proof (cases rule: ingress_elim)
  case (1 p1 sq1 s1 did2 p2 dt tq s2 did3 p3 s3 da aq)
  have a: "placed S n (PK(wid wk := keys p1)) s1 \<and> settled S (wid wk) s s1"
    using placed_drain_spawns [OF assms(2,3,4) 1(1,2)] .
  have "keys p2 = keys p1" using drain_transfers_accounted [OF 1(3)] by (auto simp: accounted_def)
  moreover have s2: "same_placement s1 s2" unfolding 1(4) by simp
  have "map fst (actors p3) = map fst (actors p2) \<and> same_placement s2 s3"
    by (rule drain_admin_invariant [of "\<lambda>p s. map fst (actors p) = map fst (actors p2) \<and> same_placement s2 s", OF _ 1(5)])
      (auto simp: apply_admin_keys intro: same_placement_trans same_placement_admin)
  moreover from this have s': "same_placement s1 s'"
    unfolding 1(7) using s2 same_placement_trans same_placement_queues(2) by blast
  ultimately have k: "keys (pool wk') = keys p1" using keys_eq [of p3 p2] 1(6) by simp
  show ?thesis unfolding k
    using placed_same [OF s' conjunct1 [OF a]] settled_trans [OF conjunct2 [OF a] settled_same [OF s']] by (rule conjI)
qed

lemma run_actors_next:
  assumes "run_actors S (wk, s) = (m, did, wk', s')" shows "next_addr s \<le> next_addr s'"
  using assms
proof (cases rule: run_actors_elim)
  case (1 ms wx1 p1 s1 p2 s2 c p3 sq1 s3 p4 dt)
  have "same_placement s s1" using same_placement_route_all [of "(pool wk, s)" S ms] 1(1) by simp
  moreover have "next_addr s1 \<le> next_addr s2"
    using placement.rel_tick_all [OF 1(2)] by (simp add: placement_rel_def)
  ultimately show ?thesis using 1(4,7) by (simp add: same_placement_facts)
qed

lemma run_actors_placed:
  assumes "run_actors S (wk, s) = (m, did, wk', s')"
    and "unique_addrs S s'" "placed S n PK s" "wid wk < n" "PK (wid wk) = keys (pool wk)"
  shows "placed S n (PK(wid wk := keys (pool wk'))) s' \<and> settled S (wid wk) s s'"
  using assms(1)
proof (cases rule: run_actors_elim)
  case (1 ms wx1 p1 s1 p2 s2 c p3 sq1 s3 p4 dt)
  have r: "same_placement s s1" using same_placement_route_all [of "(pool wk, s)" S ms] 1(1) by simp
  obtain es where "p1 = deliver_all es (pool wk)" using route_all_spec [of S ms "(pool wk, s)"] 1(1) by auto
  then have k1: "keys p1 = PK (wid wk)" using assms(5) by simp
  have t: "placed S n PK s2 \<and> settled S (wid wk) s1 s2"
    using settled_rel [OF unique_mono [OF assms(2)] assms(4) placed_same [OF r assms(3)] placement.rel_tick_all [OF 1(2)]]
      1(4,7) by simp
  have k2: "PK (wid wk) = keys p2" using keys_eq [OF tick_all_keys [OF 1(2)]] k1 by simp
  have d: "placed S n (PK(wid wk := keys p3)) s3 \<and> settled S (wid wk) s2 s3"
    using placed_drain_spawns [OF conjunct1 [OF t] assms(4) k2 1(3,4)] .
  obtain fs where "p4 = deliver_all fs p3"
    using deliver_pending_spec [of s3 "wid wk" "pending_local c" p3 "deferred_transfers wk"] 1(5) by auto
  then have k4: "keys (pool wk') = keys p3" using 1(6) by simp
  show ?thesis unfolding k4 1(7)
    using conjunct1 [OF d]
      settled_trans [OF settled_trans [OF settled_same [OF r] conjunct2 [OF t]] conjunct2 [OF d]] by (rule conjI)
qed

lemma keys_filter_diff:
  "distinct (map fst m) \<Longrightarrow> set (map fst (filter (\<lambda>(_, x). \<not> P x) m)) =
     set (map fst m) - set (map fst (filter (\<lambda>(_, x). P x) m))"
proof (induction m)
  case (Cons kv m)
  have "fst ` set (filter (\<lambda>(_, x). P x) m) \<subseteq> fst ` set m" "fst ` set (filter (\<lambda>(_, x). \<not> P x) m) \<subseteq> fst ` set m"
    by auto
  with Cons show ?case by (cases kv) auto
qed simp

lemma cleanup_next:
  assumes "cleanup_dead_actors S w p wx deferred s = (cleaned, p', wx', deferred', s')"
    and "pool_cleanup_dead S w p (s, worker_context_new) = (dead, p1, s1, c1)"
  shows "next_addr s \<le> next_addr s1 \<and> next_addr s' = next_addr s1"
  using assms(1)
proof (cases rule: cleanup_elim)
  case (1 dead2 p2 s2 c2 p3 s3)
  have e: "dead2 = dead" "s2 = s1" "p2 = p1" using 1(1) assms(2) by simp_all
  let ?s = "fold (\<lambda>(a, _, _). address_remove a) dead s1"
  have fs: "?s = fold address_remove (map fst dead) s1" by (simp add: fold_map comp_def case_prod_unfold)
  have "same_placement ?s s3"
  proof (cases "dead = []")
    case False
    with 1(4) e obtain s4 where n: "notify_deaths S dead (p1, ?s) = (p3, s4)"
      and s3: "s3 = upd_stats w (\<lambda>ws. ws\<lparr>num_actors := pool_len p3\<rparr>) s4" by blast
    have "same_placement ?s s4" using same_placement_notify [of "(p1, ?s)" S dead] n by simp
    then show ?thesis unfolding s3 using same_placement_trans same_placement_delivery(3) by blast
  qed (use 1(3) e in simp)
  then have "next_addr s' = next_addr ?s" using 1(6) by (simp add: same_placement_facts)
  moreover have "next_addr s \<le> next_addr s1"
    using placement.rel_cleanup [OF assms(2)] by (simp add: placement_rel_def)
  ultimately show ?thesis unfolding fs by (simp add: fold_remove_frame)
qed

lemma cleanup_placed:
  assumes "cleanup_dead_actors S w p wx deferred s = (cleaned, p', wx', deferred', s')"
    and "unique_addrs S s'" "placed S n PK s" "w < n" "PK w = keys p" "hm_inv (actors p)"
  shows "placed S n (PK(w := keys p')) s' \<and> settled S w s s'"
  using assms(1)
proof (cases rule: cleanup_elim)
  case (1 dead p1 s1 c1 p2 s2)
  note spec = pool_cleanup_dead_spec [OF assms(6) 1(1)]
  have c: "placed S n PK s1 \<and> settled S w s s1"
    using settled_rel [OF unique_mono [OF assms(2)] assms(4,3) placement.rel_cleanup [OF 1(1)]]
      cleanup_next [OF assms(1) 1(1)] by simp
  let ?s = "fold (\<lambda>(a, _, _). address_remove a) dead s1"
  have fs: "?s = fold address_remove (map fst dead) s1" by (simp add: fold_map comp_def case_prod_unfold)
  have sub: "set (map fst dead) \<subseteq> PK w" unfolding spec(2) assms(5) keys_def by auto
  have k1: "keys p1 = PK w - set (map fst dead)"
    unfolding spec(2) assms(5) keys_def spec(1) by (rule keys_filter_diff [OF assms(6)])
  have rem: "placed S n (PK(w := keys p1)) ?s \<and> settled S w s1 ?s"
    unfolding k1 fs using placed_remove [OF conjunct1 [OF c] assms(4) sub] .
  have p2: "keys p2 = keys p1 \<and> same_placement ?s s2"
  proof (cases "dead = []")
    case True
    with 1(3) show ?thesis by simp
  next
    case False
    with 1(4) obtain s3 where n: "notify_deaths S dead (p1, ?s) = (p2, s3)"
      and s2: "s2 = upd_stats w (\<lambda>ws. ws\<lparr>num_actors := pool_len p2\<rparr>) s3" by blast
    have "same_placement ?s s3" using same_placement_notify [of "(p1, ?s)" S dead] n by simp
    moreover obtain es where "p2 = deliver_all es p1" using notify_deaths_pool [of S dead p1 ?s] n by auto
    then have "keys p2 = keys p1" by simp
    ultimately show ?thesis unfolding s2 using same_placement_trans same_placement_delivery(3) by blast
  qed
  obtain fs where "p' = deliver_all fs p2"
    using deliver_pending_spec [of s2 w "pending_local c1" p2 deferred] 1(5) by auto
  then have k': "keys p' = keys p1" using p2 by simp
  have "placed S n (PK(w := keys p1)) s2" using placed_same [OF conjunct2 [OF p2] conjunct1 [OF rem]] .
  moreover have "settled S w s s2"
    using settled_trans [OF settled_trans [OF conjunct2 [OF c] conjunct2 [OF rem]] settled_same [OF conjunct2 [OF p2]]] .
  ultimately show ?thesis unfolding k' 1(6) ..
qed

lemma publish_placed:
  assumes "publish_actor_stats S now b (wk, s) = (wk', s')"
  shows "keys (pool wk') = keys (pool wk)" "same_placement s s'" "wid wk' = wid wk"
  using publish_fields(1,6) [OF assms] keys_eq [OF publish_fields(10) [OF assms]] by simp_all

lemma finish_next:
  assumes "finish_pass S clock m dw (wk, s) = (did, wk', s')" shows "next_addr s \<le> next_addr s'"
  using assms
proof (cases rule: finish_elim)
  case (1 s2 wk1 s3 cleaned p wx dt s4 s5 wk2)
  have "same_placement s2 s3"
    using 1(5) publish_placed(2) [of S "clock 6" dw wk s2 wk1 s3] by (auto split: if_splits)
  then have "same_placement s s3" using same_placement_trans [OF 1(1)] by blast
  moreover obtain dead p1 s6 c1 where "pool_cleanup_dead S (wid wk) (pool wk1) (s3, worker_context_new) = (dead, p1, s6, c1)"
    by (metis surj_pair)
  then have "next_addr s3 \<le> next_addr s4" using cleanup_next [OF 1(6)] by force
  ultimately show ?thesis
    using same_placement_facts(2) [OF publish_placed(2) [OF 1(9)]] 1(7) by (simp add: same_placement_facts upd_stats_def)
qed

lemma finish_placed:
  assumes "finish_pass S clock m dw (wk, s) = (did, wk', s')"
    and "unique_addrs S s'" "placed S n PK s" "wid wk < n" "PK (wid wk) = keys (pool wk)" "hm_inv (actors (pool wk))"
  shows "placed S n (PK(wid wk := keys (pool wk'))) s' \<and> settled S (wid wk) s s'"
  using assms(1)
proof (cases rule: finish_elim)
  case (1 s2 wk1 s3 cleaned p wx dt s4 s5 wk2)
  have wk1: "keys (pool wk1) = PK (wid wk) \<and> same_placement s2 s3 \<and> hm_inv (actors (pool wk1))"
  proof (cases "vital_dirty (pool wk)")
    case True
    then have pub: "publish_actor_stats S (clock 6) dw (wk, s2) = (wk1, s3)" using 1(5) by simp
    show ?thesis using publish_placed [OF pub] publish_fields(10) [OF pub] assms(5,6) by simp
  qed (use 1(5) assms(5,6) in simp)
  have s3: "same_placement s s3" using same_placement_trans [OF 1(1)] wk1 by blast
  have s5: "same_placement s4 s5" unfolding 1(7) by simp
  have pub: "keys (pool wk2) = keys p" "same_placement s5 s'" using publish_placed [OF 1(9)] by simp_all
  have s': "same_placement s4 s'" using same_placement_trans [OF s5 pub(2)] .
  have c: "placed S n (PK(wid wk := keys p)) s4 \<and> settled S (wid wk) s3 s4"
    using cleanup_placed [OF 1(6) unique_mono [OF assms(2)] placed_same [OF s3 assms(3)] assms(4)] wk1
      same_placement_facts(2) [OF s'] by simp
  have "settled S (wid wk) s s'"
    using settled_trans [OF settled_trans [OF settled_same [OF s3] conjunct2 [OF c]] settled_same [OF s']] .
  with placed_same [OF s' conjunct1 [OF c]] show ?thesis unfolding 1(10) using pub(1) by simp
qed

lemma try_tick_next:
  assumes "try_tick S clock (wk, s) = Some (did, wk', s')" shows "next_addr s \<le> next_addr s'"
proof (cases "has_work S s wk")
  case False
  then have "publish_actor_stats S (clock 0) False (wk, s) = (wk', s')" using assms by (auto simp: try_tick_def)
  then show ?thesis using same_placement_facts(2) [OF publish_placed(2)] by force
next
  case True
  obtain did1 wk1 s1 where i: "ingress S (wk, s) = Some (did1, wk1, s1)"
    using assms True by (auto simp: try_tick_def split: bind_splits)
  obtain m did2 wk2 s2 where r: "run_actors S (wk1, s1) = (m, did2, wk2, s2)" by (metis surj_pair)
  have "finish_pass S clock m (did1 \<or> did2) (wk2, s2) = (did, wk', s')"
    using assms True i r by (simp add: try_tick_def)
  then show ?thesis using ingress_next [OF i] run_actors_next [OF r] finish_next by fastforce
qed

lemma try_tick_placed:
  assumes "try_tick S clock (wk, s) = Some (did, wk', s')"
    and "unique_addrs S s'" "placed S n PK s" "wid wk < n" "PK (wid wk) = keys (pool wk)" "hm_inv (actors (pool wk))"
  shows "placed S n (PK(wid wk := keys (pool wk'))) s' \<and> settled S (wid wk) s s'"
proof (cases "has_work S s wk")
  case False
  then have pub: "publish_actor_stats S (clock 0) False (wk, s) = (wk', s')"
    using assms(1) by (auto simp: try_tick_def)
  have "PK(wid wk := keys (pool wk')) = PK"
    using publish_placed(1) [OF pub] assms(5) by (metis fun_upd_triv)
  with placed_same [OF publish_placed(2) [OF pub] assms(3)] settled_same [OF publish_placed(2) [OF pub]]
  show ?thesis by simp
next
  case True
  obtain did1 wk1 s1 where i: "ingress S (wk, s) = Some (did1, wk1, s1)"
    using assms(1) True by (auto simp: try_tick_def split: bind_splits)
  obtain m did2 wk2 s2 where r: "run_actors S (wk1, s1) = (m, did2, wk2, s2)" by (metis surj_pair)
  have f: "finish_pass S clock m (did1 \<or> did2) (wk2, s2) = (did, wk', s')"
    using assms(1) True i r by (simp add: try_tick_def)
  have w1: "hm_inv (actors (pool wk1))" "wid wk1 = wid wk" using ingress_distinct [OF i assms(6)] by simp_all
  have w2: "hm_inv (actors (pool wk2))" "wid wk2 = wid wk" using run_actors_result [OF r w1(1)] w1(2) by simp_all
  have p1: "placed S n (PK(wid wk := keys (pool wk1))) s1 \<and> settled S (wid wk) s s1"
    using ingress_placed [OF i assms(3,4,5)] .
  have p2: "placed S n (PK(wid wk := keys (pool wk2))) s2 \<and> settled S (wid wk) s1 s2"
    using run_actors_placed [OF r unique_mono [OF assms(2) finish_next [OF f]] conjunct1 [OF p1]] w1(2) assms(4) by simp
  have p3: "placed S n (PK(wid wk := keys (pool wk'))) s' \<and> settled S (wid wk) s2 s'"
    using finish_placed [OF f assms(2) conjunct1 [OF p2] _ _ w2(1)] w2(2) assms(4) by simp
  show ?thesis
    using conjunct1 [OF p3] settled_trans [OF settled_trans [OF conjunct2 [OF p1] conjunct2 [OF p2]] conjunct2 [OF p3]]
    by (rule conjI)
qed

end
