(* ===== verification/Runtime_Host.thy ===== *)
theory Runtime_Host
  imports Placement
begin

text \<open>
  The runtime handle and its host (\<open>src/runtime.rs\<close>, \<open>src/admin.rs\<close>, \<open>src/std/runtime_ext.rs\<close>):
  construction, spawning, sending, inboxes, administration requests, names and groups, and the
  single-threaded host that passes over every worker. \<open>runtime_step\<close> is one operation of any of
  these, or one worker's pass, so its sequences are the runs of a runtime whose passes are atomic.
\<close>

section \<open>Construction\<close>

record ('a, 'm, 'w) runtime =
  shared :: "('a, 'm) runtime_shared"
  workers :: "('a, 'm, 'w) worker list"

text \<open>\<open>None\<close> is the assertion failure for a worker count of zero.\<close>

definition runtime_new :: "runtime_config \<Rightarrow> ('a, 'm, 'w) runtime option" where
  "runtime_new c =
     (if worker_count c \<ge> 1
      then Some \<lparr>shared = shared_new c, workers = map worker_new [0..<worker_count c]\<rparr>
      else None)"

text \<open>
  \<open>create i\<close> is what the extension's \<open>create_worker_extension\<close> answers for the \<open>i\<close>-th worker (the
  standard extension keeps the trait's default, \<open>None\<close>). A second call replaces the worker
  extensions and keeps the first runtime extension (\<open>OnceLock::set\<close>).
\<close>

definition set_worker_ext :: "'w option \<Rightarrow> ('a, 'm, 'w) worker \<Rightarrow> ('a, 'm, 'w) worker" where
  "set_worker_ext x w = (case x of Some e \<Rightarrow> w\<lparr>wext := Some e\<rparr> | None \<Rightarrow> w)"

definition with_extension ::
  "std_extension \<Rightarrow> (worker_id \<Rightarrow> 'w option) \<Rightarrow> ('a, 'm, 'w) runtime \<Rightarrow> ('a, 'm, 'w) runtime" where
  "with_extension e create r =
     \<lparr>shared = (case ext (shared r) of None \<Rightarrow> (shared r)\<lparr>ext := Some e\<rparr> | Some _ \<Rightarrow> shared r),
      workers = map (\<lambda>w. set_worker_ext (create (wid w)) w) (workers r)\<rparr>"

text \<open>\<open>set_stats_hook\<close> on the handle and \<open>with_stats_hook\<close> on the parts set the same cell.\<close>

definition set_stats_hook :: "('a, 'm) runtime_shared \<Rightarrow> ('a, 'm) runtime_shared" where
  "set_stats_hook s = s\<lparr>stats_hook := True\<rparr>"

definition with_stats_hook :: "('a, 'm, 'w) runtime \<Rightarrow> ('a, 'm, 'w) runtime" where
  "with_stats_hook r = r\<lparr>shared := set_stats_hook (shared r)\<rparr>"

section \<open>Spawning and sending\<close>

definition next_worker :: "('a, 'm) runtime_shared \<Rightarrow> worker_id \<times> ('a, 'm) runtime_shared" where
  "next_worker s = (rr_worker s mod length (stats s), s\<lparr>rr_worker := (rr_worker s + 1) mod 2 ^ 64\<rparr>)"

definition spawn_with_env ::
  "('m, 'z) net_scheme \<Rightarrow> 'a \<Rightarrow> environment \<Rightarrow> ('a, 'm) runtime_shared \<Rightarrow> actor_address \<times> ('a, 'm) runtime_shared" where
  "spawn_with_env N x env s =
     (case new_random N s of (addr, s1) \<Rightarrow>
      case next_worker s1 of (w, s2) \<Rightarrow>
        (addr, spawn_send w \<lparr>sr_addr = addr, sr_actor = x, sr_parent = None, sr_env = env\<rparr> (address_insert addr w s2)))"

definition spawn :: "('m, 'z) net_scheme \<Rightarrow> 'a \<Rightarrow> ('a, 'm) runtime_shared \<Rightarrow> actor_address \<times> ('a, 'm) runtime_shared" where
  "spawn N x s = spawn_with_env N x environment_new s"

definition is_local_actor :: "('a, 'm) runtime_shared \<Rightarrow> actor_address \<Rightarrow> bool" where
  "is_local_actor s addr \<longleftrightarrow> worker_of s addr \<noteq> None"

definition send_to ::
  "('m, 'z) net_scheme \<Rightarrow> actor_address \<Rightarrow> 'm any \<Rightarrow> ('a, 'm) runtime_shared \<Rightarrow> (error + unit) \<times> ('a, 'm) runtime_shared" where
  "send_to N addr msg s =
     (case worker_of s addr of
        Some w \<Rightarrow> (Inr (), transfer_send w (envelope_new addr msg) s)
      | None \<Rightarrow> route_nonlocal N addr msg s)"

definition external_send_to ::
  "actor_address \<Rightarrow> 'm any \<Rightarrow> ('a, 'm) runtime_shared \<Rightarrow> (error + unit) \<times> ('a, 'm) runtime_shared" where
  "external_send_to addr msg s =
     (case worker_of s addr of
        Some w \<Rightarrow> (Inr (), transfer_send w (envelope_new addr msg) s)
      | None \<Rightarrow> (Inl ''Address not found'', s))"

definition stop_actor :: "actor_address \<Rightarrow> ('a, 'm) runtime_shared \<Rightarrow> (error + unit) \<times> ('a, 'm) runtime_shared" where
  "stop_actor addr s =
     (case worker_of s addr of
        Some w \<Rightarrow> (Inr (), transfer_send w (envelope_new addr StopSignal) s)
      | None \<Rightarrow> (Inl ''Actor not found'', s))"

definition deliver_raw ::
  "('m, 'z) net_scheme \<Rightarrow> actor_address \<Rightarrow> 'm any \<Rightarrow> ('a, 'm) runtime_shared \<Rightarrow> (error + unit) \<times> ('a, 'm) runtime_shared" where
  "deliver_raw N addr msg s =
     (case worker_of s addr of
        Some w \<Rightarrow> (Inr (), transfer_send w (envelope_new addr msg) s)
      | None \<Rightarrow> try_deliver N addr msg s)"

section \<open>Inboxes\<close>

definition new_inbox ::
  "('m, 'z) net_scheme \<Rightarrow> type_id \<Rightarrow> ('a, 'm) runtime_shared \<Rightarrow> actor_address \<times> ('a, 'm) runtime_shared" where
  "new_inbox N t s =
     (case new_random N s of (addr, s1) \<Rightarrow> (addr, inbox_register addr \<lparr>ib_type = t, ib_queue = []\<rparr> s1))"

definition inbox_try_recv :: "actor_address \<Rightarrow> ('a, 'm) runtime_shared \<Rightarrow> 'm any option \<times> ('a, 'm) runtime_shared" where
  "inbox_try_recv addr s =
     (case map_of (inboxes s) addr of
        None \<Rightarrow> (None, s)
      | Some ib \<Rightarrow>
          (case ib_queue ib of
             [] \<Rightarrow> (None, s)
           | m # ms \<Rightarrow> (Some m, s\<lparr>inboxes := hm_insert addr (ib\<lparr>ib_queue := ms\<rparr>) (inboxes s)\<rparr>)))"

definition ask ::
  "('m, 'z) net_scheme \<Rightarrow> type_id \<Rightarrow> actor_address \<Rightarrow> (actor_address \<Rightarrow> 'm any) \<Rightarrow> ('a, 'm) runtime_shared
    \<Rightarrow> (error + actor_address) \<times> ('a, 'm) runtime_shared" where
  "ask N t addr msg_builder s =
     (case new_inbox N t s of (inbox, s1) \<Rightarrow>
      case send_to N addr (msg_builder inbox) s1 of
        (Inl e, s2) \<Rightarrow> (Inl e, inbox_unregister inbox s2)
      | (Inr _, s2) \<Rightarrow> (Inr inbox, s2))"

section \<open>Administration\<close>

text \<open>A request answers on a fresh inbox; unknown actors are answered at once.\<close>

definition admin_ready ::
  "('m, 'z) net_scheme \<Rightarrow> type_id \<Rightarrow> 'm any \<Rightarrow> ('a, 'm) runtime_shared \<Rightarrow> actor_address \<times> ('a, 'm) runtime_shared" where
  "admin_ready N t result s =
     (case new_inbox N t s of (reply_to, s1) \<Rightarrow> (reply_to, snd (try_deliver N reply_to result s1)))"

definition admin_request ::
  "('m, 'z) net_scheme \<Rightarrow> type_id \<Rightarrow> actor_address \<Rightarrow> 'm any \<Rightarrow> (actor_address \<Rightarrow> ('a, 'm) admin_command)
    \<Rightarrow> ('a, 'm) runtime_shared \<Rightarrow> actor_address \<times> ('a, 'm) runtime_shared" where
  "admin_request N t addr not_found cmd s =
     (case worker_of s addr of
        None \<Rightarrow> admin_ready N t not_found s
      | Some w \<Rightarrow> (case new_inbox N t s of (reply_to, s1) \<Rightarrow> (reply_to, admin_send w (cmd reply_to) s1)))"

definition admin_inspect_actor ::
  "('m, 'z) net_scheme \<Rightarrow> type_id \<Rightarrow> actor_address \<Rightarrow> ('a, 'm) runtime_shared \<Rightarrow> actor_address \<times> ('a, 'm) runtime_shared" where
  "admin_inspect_actor N t addr s =
     admin_request N t addr (AdminReplyMsg (InspectReply (Inl (ActorNotFound addr)))) (InspectActor addr) s"

definition admin_stop_actor ::
  "('m, 'z) net_scheme \<Rightarrow> type_id \<Rightarrow> actor_address \<Rightarrow> ('a, 'm) runtime_shared \<Rightarrow> actor_address \<times> ('a, 'm) runtime_shared" where
  "admin_stop_actor N t addr s =
     admin_request N t addr (AdminReplyMsg (OperationReply (Inl (ActorNotFound addr)))) (StopActor addr) s"

definition admin_suspend_actor ::
  "('m, 'z) net_scheme \<Rightarrow> type_id \<Rightarrow> actor_address \<Rightarrow> ('a, 'm) runtime_shared \<Rightarrow> actor_address \<times> ('a, 'm) runtime_shared" where
  "admin_suspend_actor N t addr s =
     admin_request N t addr (AdminReplyMsg (OperationReply (Inl (ActorNotFound addr)))) (SuspendActor addr) s"

definition admin_resume_actor ::
  "('m, 'z) net_scheme \<Rightarrow> type_id \<Rightarrow> actor_address \<Rightarrow> ('a, 'm) runtime_shared \<Rightarrow> actor_address \<times> ('a, 'm) runtime_shared" where
  "admin_resume_actor N t addr s =
     admin_request N t addr (AdminReplyMsg (OperationReply (Inl (ActorNotFound addr)))) (ResumeActor addr) s"

text \<open>
  The typed requests carry the closures of the source. \<open>A\<close> and \<open>M\<close> are the type names the caller
  expects, \<open>pack\<close> boxes the typed answer.
\<close>

definition admin_get_actor_state ::
  "('a, 'm, 'r, 'w) system \<Rightarrow> type_id \<Rightarrow> string \<Rightarrow> string \<Rightarrow> (admin_error + actor_address \<times> string \<times> string \<times> 'a \<Rightarrow> 'm any)
    \<Rightarrow> actor_address \<Rightarrow> ('a, 'm) runtime_shared \<Rightarrow> actor_address \<times> ('a, 'm) runtime_shared" where
  "admin_get_actor_state S t A M pack addr s =
     admin_request S t addr (pack (Inl (ActorNotFound addr)))
       (\<lambda>reply_to. GetActorState addr reply_to
          (\<lambda>a x. if actor_type_name S x \<noteq> A \<or> message_type_name S x \<noteq> M
                 then pack (Inl (TypeMismatch A M (actor_type_name S x) (message_type_name S x)))
                 else pack (Inr (a, actor_type_name S x, message_type_name S x, x)))
          (\<lambda>a. pack (Inl (ActorNotFound a)))) s"

definition admin_replace_actor_state ::
  "('a, 'm, 'r, 'w) system \<Rightarrow> type_id \<Rightarrow> string \<Rightarrow> string \<Rightarrow> actor_address \<Rightarrow> actor_address \<Rightarrow> 'a
    \<Rightarrow> ('a, 'm) runtime_shared \<Rightarrow> actor_address \<times> ('a, 'm) runtime_shared" where
  "admin_replace_actor_state S t A M addr snapshot_addr instance s =
     (if snapshot_addr \<noteq> addr
      then admin_ready S t (AdminReplyMsg (OperationReply (Inl (AddressMismatch addr snapshot_addr)))) s
      else admin_request S t addr (AdminReplyMsg (OperationReply (Inl (ActorNotFound addr))))
        (\<lambda>reply_to. ReplaceActorState addr reply_to
           (\<lambda>x. if actor_type_name S x \<noteq> A \<or> message_type_name S x \<noteq> M
                then (Inl (TypeMismatch A M (actor_type_name S x) (message_type_name S x)), x)
                else (Inr True, instance))) s)"

text \<open>The request handle is the accumulator's number.\<close>

definition start_actor_census ::
  "actor_address \<Rightarrow> (actor_summary list \<Rightarrow> 'm any) \<Rightarrow> ('a, 'm) runtime_shared \<Rightarrow> nat \<times> ('a, 'm) runtime_shared" where
  "start_actor_census reply_to reply s =
     (next_acc s,
      s\<lparr>list_accs := hm_insert (next_acc s) \<lparr>la_remaining = length (stats s), la_summaries = [],
           la_reply_to = reply_to, la_reply = reply\<rparr> (list_accs s),
        next_acc := Suc (next_acc s),
        admin_qs := map (\<lambda>q. q @ [ListActors (next_acc s)]) (admin_qs s)\<rparr>)"

definition census_cancel :: "nat \<Rightarrow> ('a, 'm) runtime_shared \<Rightarrow> ('a, 'm) runtime_shared" where
  "census_cancel acc s = s\<lparr>list_accs := hm_remove acc (list_accs s)\<rparr>"

definition admin_list_actors ::
  "('m, 'z) net_scheme \<Rightarrow> type_id \<Rightarrow> ('a, 'm) runtime_shared
    \<Rightarrow> (actor_address \<times> nat) \<times> ('a, 'm) runtime_shared" where
  "admin_list_actors N t s =
     (case new_inbox N t s of (reply_to, s1) \<Rightarrow>
      case start_actor_census reply_to (\<lambda>ss. AdminReplyMsg (ListReply ss)) s1 of (acc, s2) \<Rightarrow>
        ((reply_to, acc), s2))"

definition admin_list_actors_to ::
  "actor_address \<Rightarrow> (actor_summary list \<Rightarrow> 'm any) \<Rightarrow> ('a, 'm) runtime_shared
    \<Rightarrow> (error + nat) \<times> ('a, 'm) runtime_shared" where
  "admin_list_actors_to reply_to reply s =
     (if \<not> is_local_actor s reply_to then (Inl ''Actor not found'', s)
      else case start_actor_census reply_to reply s of (acc, s') \<Rightarrow> (Inr acc, s'))"

section \<open>Statistics\<close>

record worker_info =
  wi_id :: nat
  wi_num_actors :: nat
  wi_mailbox_depth :: nat
  wi_messages_processed :: nat
  wi_local_sends :: nat
  wi_inbox_sends :: nat
  wi_type_mismatches :: nat
  wi_panics :: nat
  wi_stops :: nat

definition stats_snapshot :: "worker_stats \<Rightarrow> nat \<Rightarrow> worker_info" where
  "stats_snapshot ws i = \<lparr>wi_id = i, wi_num_actors = num_actors ws,
     wi_mailbox_depth = total_mailbox_depth ws, wi_messages_processed = ws_messages_processed ws,
     wi_local_sends = local_sends ws, wi_inbox_sends = inbox_sends ws,
     wi_type_mismatches = type_mismatches ws, wi_panics = panics ws, wi_stops = stops ws\<rparr>"

text \<open>The \<open>actor_details\<close> of the source are always empty and have no field here.\<close>

record runtime_stats =
  rs_num_workers :: nat
  rs_uptime_ms :: nat
  rs_actors :: "(actor_address \<times> nat) list"
  rs_workers :: "worker_info list"
  rs_tick_timings :: "tick_timing list list"

definition stats_of :: "nat \<Rightarrow> ('a, 'm) runtime_shared \<Rightarrow> runtime_stats \<times> ('a, 'm) runtime_shared" where
  "stats_of uptime_ms s =
     (\<lparr>rs_num_workers = length (stats s), rs_uptime_ms = uptime_ms, rs_actors = address_map s,
        rs_workers = map (\<lambda>(i, ws). stats_snapshot ws i) (enumerate 0 (stats s)),
        rs_tick_timings = map (\<lambda>ws. fst (drain_tick_timings ws)) (stats s)\<rparr>,
      s\<lparr>stats := map (\<lambda>ws. snd (drain_tick_timings ws)) (stats s)\<rparr>)"

section \<open>Names and groups\<close>

text \<open>\<open>None\<close> is the panic of the extension traits when no extension is installed.\<close>

definition register_name ::
  "string \<Rightarrow> actor_address \<Rightarrow> ('a, 'm) runtime_shared \<Rightarrow> ((error + unit) \<times> ('a, 'm) runtime_shared) option" where
  "register_name name addr s =
     map_option (\<lambda>e. case name_register (name_reg e) name addr of
         Inl err \<Rightarrow> (Inl err, s)
       | Inr r \<Rightarrow> (Inr (), s\<lparr>ext := Some (e\<lparr>name_reg := r\<rparr>)\<rparr>)) (ext s)"

definition unregister_name ::
  "string \<Rightarrow> ('a, 'm) runtime_shared \<Rightarrow> (actor_address option \<times> ('a, 'm) runtime_shared) option" where
  "unregister_name name s =
     map_option (\<lambda>e. case name_unregister (name_reg e) name of
         (r, reg) \<Rightarrow> (r, s\<lparr>ext := Some (e\<lparr>name_reg := reg\<rparr>)\<rparr>)) (ext s)"

definition where_is :: "string \<Rightarrow> ('a, 'm) runtime_shared \<Rightarrow> actor_address option option" where
  "where_is name s = map_option (\<lambda>e. name_lookup (name_reg e) name) (ext s)"

definition runtime_registered_names :: "('a, 'm) runtime_shared \<Rightarrow> string list option" where
  "runtime_registered_names s = map_option (\<lambda>e. registered_names (name_reg e)) (ext s)"

definition runtime_join_group :: "actor_address \<Rightarrow> string \<Rightarrow> ('a, 'm) runtime_shared \<Rightarrow> ('a, 'm) runtime_shared option" where
  "runtime_join_group addr g s =
     map_option (\<lambda>e. s\<lparr>ext := Some (e\<lparr>group_reg := join_group (group_reg e) g addr\<rparr>)\<rparr>) (ext s)"

definition runtime_leave_group :: "actor_address \<Rightarrow> string \<Rightarrow> ('a, 'm) runtime_shared \<Rightarrow> ('a, 'm) runtime_shared option" where
  "runtime_leave_group addr g s =
     map_option (\<lambda>e. s\<lparr>ext := Some (e\<lparr>group_reg := leave_group (group_reg e) g addr\<rparr>)\<rparr>) (ext s)"

fun publish_each ::
  "('m, 'z) net_scheme \<Rightarrow> actor_address list \<Rightarrow> 'm any \<Rightarrow> nat \<Rightarrow> ('a, 'm) runtime_shared \<Rightarrow> nat \<times> ('a, 'm) runtime_shared" where
  "publish_each N [] msg k s = (k, s)"
| "publish_each N (m # ms) msg k s =
     (case send_to N m msg s of (r, s') \<Rightarrow> publish_each N ms msg (if r = Inr () then k + 1 else k) s')"

definition publish_to ::
  "('m, 'z) net_scheme \<Rightarrow> string \<Rightarrow> 'm any \<Rightarrow> ('a, 'm) runtime_shared \<Rightarrow> (nat \<times> ('a, 'm) runtime_shared) option" where
  "publish_to N g msg s = map_option (\<lambda>e. publish_each N (group_members (group_reg e) g) msg 0 s) (ext s)"

definition runtime_group_members :: "string \<Rightarrow> ('a, 'm) runtime_shared \<Rightarrow> actor_address list option" where
  "runtime_group_members g s = map_option (\<lambda>e. group_members (group_reg e) g) (ext s)"

definition runtime_groups :: "('a, 'm) runtime_shared \<Rightarrow> string list option" where
  "runtime_groups s = map_option (\<lambda>e. group_names (group_reg e)) (ext s)"

section \<open>The single-threaded host\<close>

definition host_has_work :: "('a, 'm, 'r, 'w) system \<Rightarrow> ('a, 'm, 'w) runtime \<Rightarrow> bool" where
  "host_has_work S r \<longleftrightarrow> (\<exists>wk \<in> set (workers r). has_work S (shared r) wk)"

definition tick_worker ::
  "('a, 'm, 'r, 'w) system \<Rightarrow> (nat \<Rightarrow> nat) \<Rightarrow> nat \<Rightarrow> ('a, 'm, 'w) runtime \<Rightarrow> (bool \<times> ('a, 'm, 'w) runtime) option" where
  "tick_worker S clock i r =
     do {
       (did, wk, s) \<leftarrow> try_tick S clock (workers r ! i, shared r);
       Some (did, \<lparr>shared = s, workers = (workers r)[i := wk]\<rparr>)
     }"

fun tick_workers ::
  "('a, 'm, 'r, 'w) system \<Rightarrow> (nat \<Rightarrow> nat \<Rightarrow> nat) \<Rightarrow> nat list \<Rightarrow> ('a, 'm, 'w) runtime \<Rightarrow> (bool \<times> ('a, 'm, 'w) runtime) option" where
  "tick_workers S clock [] r = Some (False, r)"
| "tick_workers S clock (i # is) r =
     do {
       (did, r1) \<leftarrow> tick_worker S (clock i) i r;
       (did', r2) \<leftarrow> tick_workers S clock is r1;
       Some (did \<or> did', r2)
     }"

definition host_try_tick ::
  "('a, 'm, 'r, 'w) system \<Rightarrow> (nat \<Rightarrow> nat \<Rightarrow> nat) \<Rightarrow> ('a, 'm, 'w) runtime \<Rightarrow> (bool \<times> ('a, 'm, 'w) runtime) option" where
  "host_try_tick S clock r = tick_workers S clock [0..<length (workers r)] r"

text \<open>
  Receiving while driving the host: at most \<open>max_ticks\<close> rounds, stopping at the first message. The
  outer \<open>None\<close> is a host pass that does not return. An admin request that saw no answer is a timeout.
\<close>

fun recv_ticking ::
  "('a, 'm, 'r, 'w) system \<Rightarrow> (nat \<Rightarrow> nat \<Rightarrow> nat \<Rightarrow> nat) \<Rightarrow> actor_address \<Rightarrow> nat \<Rightarrow> ('a, 'm, 'w) runtime
    \<Rightarrow> ('m any option \<times> ('a, 'm, 'w) runtime) option" where
  "recv_ticking S clock addr 0 r = Some (None, r)"
| "recv_ticking S clock addr (Suc k) r =
     do {
       (did, r1) \<leftarrow> host_try_tick S (clock k) r;
       (case inbox_try_recv addr (shared r1) of
          (Some msg, s) \<Rightarrow> Some (Some msg, r1\<lparr>shared := s\<rparr>)
        | (None, _) \<Rightarrow> recv_ticking S clock addr k r1)
     }"

definition admin_recv_ticking ::
  "('a, 'm, 'r, 'w) system \<Rightarrow> (nat \<Rightarrow> nat \<Rightarrow> nat \<Rightarrow> nat) \<Rightarrow> actor_address \<Rightarrow> nat \<Rightarrow> ('a, 'm, 'w) runtime
    \<Rightarrow> ((admin_error + 'm any) \<times> ('a, 'm, 'w) runtime) option" where
  "admin_recv_ticking S clock addr max_ticks r =
     map_option (\<lambda>(x, r'). (case x of Some m \<Rightarrow> Inr m | None \<Rightarrow> Inl Timeout, r')) (recv_ticking S clock addr max_ticks r)"

end
