(* ===== verification/Runtime_Runs.thy ===== *)
theory Runtime_Runs
  imports Runtime_Host
begin

text \<open>
  Runs of a runtime. \<open>handle_op\<close> is one call on a runtime handle, an inbox or an admin request,
  \<open>runtime_step\<close> is such a call or one pass of one worker, in any order: passes and calls are
  atomic, so the interleavings are those of the single-threaded host and of any scheduler that
  does not overlap passes. The invariant \<open>runtime_inv\<close> joins the placement of actors with the
  invariant of each worker, and the properties follow from it by induction over runs.
\<close>

section \<open>Steps\<close>

inductive handle_op ::
  "('a, 'm, 'r, 'w) system \<Rightarrow> ('a, 'm) runtime_shared \<Rightarrow> ('a, 'm) runtime_shared \<Rightarrow> bool" for S where
  op_spawn: "handle_op S s (snd (spawn S x s))"
| op_spawn_env: "handle_op S s (snd (spawn_with_env S x env s))"
| op_send: "handle_op S s (snd (send_to S a m s))"
| op_external: "handle_op S s (snd (external_send_to a m s))"
| op_stop: "handle_op S s (snd (stop_actor a s))"
| op_raw: "handle_op S s (snd (deliver_raw S a m s))"
| op_inbox: "handle_op S s (snd (new_inbox S t s))"
| op_drop: "handle_op S s (inbox_unregister a s)"
| op_recv: "handle_op S s (snd (inbox_try_recv a s))"
| op_ask: "handle_op S s (snd (ask S t a b s))"
| op_inspect: "handle_op S s (snd (admin_inspect_actor S t a s))"
| op_admin_stop: "handle_op S s (snd (admin_stop_actor S t a s))"
| op_suspend: "handle_op S s (snd (admin_suspend_actor S t a s))"
| op_resume: "handle_op S s (snd (admin_resume_actor S t a s))"
| op_get_state: "handle_op S s (snd (admin_get_actor_state S t A M pack a s))"
| op_replace: "handle_op S s (snd (admin_replace_actor_state S t A M a b x s))"
| op_list: "handle_op S s (snd (admin_list_actors S t s))"
| op_list_to: "handle_op S s (snd (admin_list_actors_to a f s))"
| op_cancel: "handle_op S s (census_cancel acc s)"
| op_stats: "handle_op S s (snd (stats_of u s))"
| op_hook: "handle_op S s (set_stats_hook s)"
| op_register: "register_name n a s = Some (res, s') \<Longrightarrow> handle_op S s s'"
| op_unregister: "unregister_name n s = Some (old, s') \<Longrightarrow> handle_op S s s'"
| op_join: "runtime_join_group a g s = Some s' \<Longrightarrow> handle_op S s s'"
| op_leave: "runtime_leave_group a g s = Some s' \<Longrightarrow> handle_op S s s'"
| op_publish: "publish_to S g m s = Some (k, s') \<Longrightarrow> handle_op S s s'"

inductive runtime_step ::
  "('a, 'm, 'r, 'w) system \<Rightarrow> ('a, 'm, 'w) runtime \<Rightarrow> ('a, 'm, 'w) runtime \<Rightarrow> bool" for S where
  step_op: "handle_op S (shared r) s' \<Longrightarrow> runtime_step S r (r\<lparr>shared := s'\<rparr>)"
| step_pass: "i < length (workers r) \<Longrightarrow> tick_worker S clock i r = Some (did, r') \<Longrightarrow> runtime_step S r r'"

text \<open>Parts under construction, and the states of a runtime built from them.\<close>

inductive runtime_parts :: "('a, 'm, 'w) runtime \<Rightarrow> bool" where
  parts_new: "runtime_new c = Some r \<Longrightarrow> runtime_parts r"
| parts_ext: "runtime_parts r \<Longrightarrow> runtime_parts (with_extension e create r)"
| parts_hook: "runtime_parts r \<Longrightarrow> runtime_parts (with_stats_hook r)"

abbreviation runtime_run ::
  "('a, 'm, 'r, 'w) system \<Rightarrow> ('a, 'm, 'w) runtime \<Rightarrow> ('a, 'm, 'w) runtime \<Rightarrow> bool" where
  "runtime_run S \<equiv> (runtime_step S)\<^sup>*\<^sup>*"

definition reachable :: "('a, 'm, 'r, 'w) system \<Rightarrow> ('a, 'm, 'w) runtime \<Rightarrow> bool" where
  "reachable S r \<longleftrightarrow> (\<exists>r0. runtime_parts r0 \<and> runtime_run S r0 r)"

section \<open>Handle calls keep the placement\<close>

text \<open>
  A call draws addresses forward and, while those drawn are different, keeps \<open>placed\<close> and the worker
  of every address drawn before.
\<close>

definition keeps :: "('m, 'z) net_scheme \<Rightarrow> nat \<Rightarrow> ('a, 'm) runtime_shared \<Rightarrow> ('a, 'm) runtime_shared \<Rightarrow> bool" where
  "keeps N n s s' \<longleftrightarrow> next_addr s \<le> next_addr s' \<and> (unique_addrs N s' \<longrightarrow>
     (\<forall>PK. placed N n PK s \<longrightarrow> placed N n PK s') \<and>
     (\<forall>a \<in> addr_source N ` {..<next_addr s}. worker_of s' a = worker_of s a))"

lemma keeps_same: "same_placement s s' \<Longrightarrow> keeps N n s s'"
  by (auto simp: keeps_def same_placement_facts intro: placed_same)

lemma keeps_trans [trans]:
  assumes "keeps N n s t" "keeps N n t u" shows "keeps N n s u"
proof -
  have "unique_addrs N t" if "unique_addrs N u"
    using unique_mono [OF that, of t] assms(2) by (simp add: keeps_def)
  moreover have "addr_source N ` {..<next_addr s} \<subseteq> addr_source N ` {..<next_addr t}"
    using assms(1) by (auto simp: keeps_def)
  ultimately show ?thesis using assms unfolding keeps_def by (simp add: subset_iff)
qed

lemma keeps_draw: "keeps N n s (s\<lparr>next_addr := Suc (next_addr s)\<rparr>)"
proof -
  have "addr_source N ` {..<next_addr s} \<subseteq> addr_source N ` {..<Suc (next_addr s)}" by auto
  then show ?thesis unfolding keeps_def placed_def queued_def worker_of_def by (simp add: subset_iff)
qed

lemma keeps_inbox: "keeps N n s (snd (new_inbox N t s))"
proof -
  have "same_placement (s\<lparr>next_addr := Suc (next_addr s)\<rparr>) (snd (new_inbox N t s))"
    by (simp add: new_inbox_def runtime_defs same_placement_def)
  with keeps_draw keeps_same keeps_trans show ?thesis by blast
qed

lemma keeps_inboxE: "new_inbox N t s = (a, s') \<Longrightarrow> keeps N n s s'"
  using keeps_inbox [of N n s t] by simp

lemma keeps_spawn:
  assumes "n > 0"
  shows "keeps N n s (snd (spawn_with_env N x env s))"
proof -
  obtain a s1 where d: "new_random N s = (a, s1)" by fastforce
  let ?w = "rr_worker s1 mod length (stats s1)" and ?s2 = "s1\<lparr>rr_worker := (rr_worker s1 + 1) mod 2 ^ 64\<rparr>"
  let ?req = "\<lparr>sr_addr = a, sr_actor = x, sr_parent = None, sr_env = env\<rparr>"
  have e: "snd (spawn_with_env N x env s) = spawn_send ?w ?req (address_insert a ?w ?s2)"
    by (simp add: spawn_with_env_def next_worker_def d)
  let ?s' = "s\<lparr>rr_worker := (rr_worker s1 + 1) mod 2 ^ 64\<rparr>"
  have d2: "new_random N ?s' = (a, ?s2)" using d by (auto simp: new_random_def)
  have st: "stats s1 = stats s" using d by (auto simp: new_random_def)
  have same: "same_placement s ?s'" by (simp add: same_placement_def)
  let ?s3 = "spawn_send ?w ?req (address_insert a ?w ?s2)"
  have n: "next_addr ?s3 = Suc (next_addr s)" "a = addr_source N (next_addr s)"
    using d by (auto simp: new_random_def spawn_send_def address_insert_def)
  have u: "unique_addrs N ?s2" if "unique_addrs N ?s3"
    using that by (simp add: unique_addrs_def spawn_send_def address_insert_def)
  have "placed N n PK ?s3" if "unique_addrs N ?s3" "placed N n PK s" for PK
  proof (rule placed_spawn [OF u [OF that(1)] _ placed_same [OF same that(2)] d2])
    show "?w < n" using that(2) assms st by (simp add: placed_def)
  qed simp
  moreover have "worker_of ?s3 b = worker_of s b"
    if "unique_addrs N ?s3" "b \<in> addr_source N ` {..<next_addr s}" for b
  proof -
    have "b \<noteq> a" using that n by (auto simp: unique_addrs_def dest: inj_onD)
    then show ?thesis using d by (auto simp: new_random_def worker_of_def spawn_send_def address_insert_def update_conv')
  qed
  moreover have "next_addr s \<le> next_addr ?s3" using n(1) by simp
  ultimately show ?thesis unfolding e keeps_def by blast
qed

lemma same_placement_send_to: "same_placement s (snd (send_to N a m s))"
  by (simp add: send_to_def split: option.split)

lemma same_placement_inbox:
  "same_placement s (inbox_unregister a s)" "same_placement s (snd (inbox_try_recv a s))"
  by (simp_all add: runtime_defs inbox_try_recv_def same_placement_def split: option.split list.split)

lemma keeps_ask: "keeps N n s (snd (ask N t a b s))"
proof -
  obtain i s1 where n: "new_inbox N t s = (i, s1)" by fastforce
  obtain res s2 where r: "send_to N a (b i) s1 = (res, s2)" by fastforce
  have "same_placement s1 s2" using same_placement_send_to [of s1 N a "b i"] r by simp
  then have "same_placement s1 (snd (ask N t a b s))"
    using n r by (auto simp: ask_def split: sum.split intro: same_placement_trans [OF _ same_placement_inbox(1)])
  with keeps_inboxE [OF n] keeps_same keeps_trans show ?thesis by blast
qed

lemma keeps_ready: "keeps N n s (snd (admin_ready N t m s))"
proof -
  obtain i s1 where i: "new_inbox N t s = (i, s1)" by fastforce
  have "same_placement s1 (snd (admin_ready N t m s))" by (simp add: admin_ready_def i)
  with keeps_inboxE [OF i] keeps_same keeps_trans show ?thesis by blast
qed

lemma keeps_request: "keeps N n s (snd (admin_request N t a m cmd s))"
proof (cases "worker_of s a")
  case None
  then show ?thesis using keeps_ready by (simp add: admin_request_def)
next
  case (Some w)
  obtain i s1 where i: "new_inbox N t s = (i, s1)" by fastforce
  have "same_placement s1 (snd (admin_request N t a m cmd s))" by (simp add: admin_request_def i Some)
  with keeps_inboxE [OF i] keeps_same keeps_trans show ?thesis by blast
qed

lemma same_placement_census: "same_placement s (snd (start_actor_census a f s))"
  by (simp add: start_actor_census_def same_placement_def)

lemma keeps_list: "keeps N n s (snd (admin_list_actors N t s))"
proof -
  obtain i s1 where i: "new_inbox N t s = (i, s1)" by fastforce
  have "same_placement s1 (snd (admin_list_actors N t s))"
    using same_placement_census by (simp add: admin_list_actors_def i case_prod_unfold)
  with keeps_inboxE [OF i] keeps_same keeps_trans show ?thesis by blast
qed

lemma same_placement_publish: "same_placement s (snd (publish_each N ms m k s))"
proof (induction ms arbitrary: k s)
  case (Cons a ms)
  show ?case
    using same_placement_trans [OF same_placement_send_to [of s N a m] Cons.IH] by (simp add: case_prod_unfold)
qed simp

lemma same_placement_ext: "same_placement s (s\<lparr>ext := e\<rparr>)"
  by (simp add: same_placement_def)

lemmas keeps_ops = keeps_spawn keeps_inbox keeps_ask keeps_ready keeps_request keeps_list

lemma handle_op_keeps:
  assumes "handle_op S s s'" "n > 0"
  shows "keeps S n s s'"
  using assms(1)
proof cases
  case (op_register m a res)
  then show ?thesis
    by (cases "name_register (name_reg (the (ext s))) m a")
      (auto simp: register_name_def same_placement_ext intro!: keeps_same)
next
  case (op_unregister m old)
  then show ?thesis by (auto simp: unregister_name_def case_prod_unfold same_placement_ext intro!: keeps_same)
next
  case (op_publish g m k)
  then obtain e :: std_extension where "publish_each S (group_members (group_reg e) g) m 0 s = (k, s')"
    by (auto simp: publish_to_def)
  with same_placement_publish [of s S "group_members (group_reg e) g" m 0] show ?thesis
    by (auto intro: keeps_same)
qed (auto simp: assms keeps_ops spawn_def admin_inspect_actor_def admin_stop_actor_def
    admin_suspend_actor_def admin_resume_actor_def admin_get_actor_state_def
    admin_replace_actor_state_def runtime_join_group_def runtime_leave_group_def
    external_send_to_def stop_actor_def deliver_raw_def admin_list_actors_to_def census_cancel_def
    stats_of_def set_stats_hook_def same_placement_def case_prod_unfold
    start_actor_census_def transfer_send_def
    intro!: keeps_same same_placement_send_to same_placement_inbox same_placement_census
      same_placement_delivery split: option.split)

section \<open>The invariant of a runtime\<close>

definition homes :: "('a, 'm, 'w) runtime \<Rightarrow> worker_id \<Rightarrow> actor_address set" where
  "homes r i = keys (pool (workers r ! i))"

lemma homes_shared [simp]: "homes (r\<lparr>shared := s\<rparr>) = homes r"
  by (simp add: homes_def fun_eq_iff)

definition runtime_inv :: "('m, 'z) net_scheme \<Rightarrow> ('a, 'm, 'w) runtime \<Rightarrow> bool" where
  "runtime_inv N r \<longleftrightarrow> length (workers r) > 0 \<and>
     (\<forall>i < length (workers r). wid (workers r ! i) = i \<and> worker_inv (workers r ! i)) \<and>
     placed N (length (workers r)) (homes r) (shared r)"

lemma placed_cong:
  "(\<And>i. i < n \<Longrightarrow> PK i = PK' i) \<Longrightarrow> placed N n PK s = placed N n PK' s"
  unfolding placed_def by (intro conj_cong refl all_cong1 iffI) auto

lemma inv_runtime_new:
  assumes "runtime_new c = Some r" shows "runtime_inv N r"
proof -
  have c: "worker_count c \<ge> 1" and r: "r = \<lparr>shared = shared_new c, workers = map worker_new [0..<worker_count c]\<rparr>"
    using assms by (auto simp: runtime_new_def split: if_splits)
  have "placed N (worker_count c) (\<lambda>_. {}) (shared_new c)"
    by (auto simp: placed_def shared_new_def queued_def worker_of_def)
  moreover have "homes r i = {}" if "i < worker_count c" for i
    using that by (simp add: homes_def r worker_new_def keys_def pool_new_def)
  ultimately have "placed N (worker_count c) (homes r) (shared_new c)"
    using placed_cong [of "worker_count c" "homes r" "\<lambda>_. {}"] by blast
  then show ?thesis
    using c unfolding runtime_inv_def by (simp add: r worker_inv_new) (simp add: worker_new_def)
qed

lemma inv_parts: "runtime_parts r \<Longrightarrow> runtime_inv N r"
proof (induction rule: runtime_parts.induct)
  case (parts_new c r)
  then show ?case by (rule inv_runtime_new)
next
  case (parts_ext r e create)
  let ?r = "with_extension e create r"
  have w: "pool (set_worker_ext x wk) = pool wk" "wid (set_worker_ext x wk) = wid wk"
    "worker_inv (set_worker_ext x wk) = worker_inv wk" for x and wk :: "('a, 'b, 'c) worker"
    by (simp_all add: set_worker_ext_def worker_inv_def split: option.split)
  have "homes ?r i = homes r i" if "i < length (workers r)" for i
    using that by (simp add: homes_def with_extension_def w)
  then have "placed N (length (workers r)) (homes ?r) s = placed N (length (workers r)) (homes r) s" for s :: "('a, 'b) runtime_shared"
    by (rule placed_cong)
  moreover have "same_placement (shared r) (shared ?r)"
    by (simp add: with_extension_def same_placement_def split: option.split)
  then have "placed N (length (workers r)) (homes r) (shared ?r)"
    using parts_ext.IH by (auto simp: runtime_inv_def intro: placed_same)
  ultimately have "placed N (length (workers r)) (homes ?r) (shared ?r)" by blast
  moreover have "length (workers ?r) = length (workers r)" by (simp add: with_extension_def)
  moreover have "wid (workers ?r ! i) = i \<and> worker_inv (workers ?r ! i)" if "i < length (workers r)" for i
    using that parts_ext.IH by (simp add: with_extension_def w runtime_inv_def)
  ultimately show ?case using parts_ext.IH by (simp add: runtime_inv_def)
next
  case (parts_hook r)
  have "same_placement (shared r) (set_stats_hook (shared r))" by (simp add: set_stats_hook_def same_placement_def)
  then have "placed N n PK (shared r) \<Longrightarrow> placed N n PK (set_stats_hook (shared r))" for n PK
    by (rule placed_same)
  then show ?case using parts_hook.IH by (simp add: runtime_inv_def with_stats_hook_def)
qed

text \<open>What one step does to an address that is already drawn.\<close>

definition moves_on :: "('m, 'z) net_scheme \<Rightarrow> ('a, 'm) runtime_shared \<Rightarrow> ('a, 'm) runtime_shared \<Rightarrow> bool" where
  "moves_on N s s' \<longleftrightarrow> next_addr s \<le> next_addr s' \<and>
     (\<forall>a \<in> addr_source N ` {..<next_addr s}. worker_of s' a = worker_of s a \<or> worker_of s' a = None)"

lemma moves_on_refl: "moves_on N s s"
  by (simp add: moves_on_def)

lemma moves_on_trans:
  assumes "moves_on N s t" "moves_on N t u" shows "moves_on N s u"
proof -
  have "addr_source N ` {..<next_addr s} \<subseteq> addr_source N ` {..<next_addr t}"
    using assms(1) by (auto simp: moves_on_def)
  then have "worker_of u a = worker_of s a \<or> worker_of u a = None" if "a \<in> addr_source N ` {..<next_addr s}" for a
    using that bspec [OF conjunct2 [OF assms(1) [unfolded moves_on_def]] that]
      bspec [OF conjunct2 [OF assms(2) [unfolded moves_on_def]], of a] by (simp add: subset_iff) argo
  then show ?thesis using assms by (simp add: moves_on_def)
qed

lemma pass_next: "tick_worker S clock i r = Some (did, r') \<Longrightarrow> next_addr (shared r) \<le> next_addr (shared r')"
  by (auto simp: tick_worker_def dest: try_tick_next split: bind_splits)

lemma step_next: "runtime_step S r r' \<Longrightarrow> next_addr (shared r) \<le> next_addr (shared r')"
  by (erule runtime_step.cases) (auto simp: pass_next keeps_def dest: handle_op_keeps [where n = 1])

lemma step_inv:
  assumes "runtime_step S r r'" "runtime_inv S r" "unique_addrs S (shared r')"
  shows "runtime_inv S r' \<and> moves_on S (shared r) (shared r') \<and> length (workers r') = length (workers r)"
  using assms(1)
proof cases
  case (step_op s')
  let ?n = "length (workers r)"
  have k: "keeps S ?n (shared r) s'" using handle_op_keeps [OF step_op(2)] assms(2) by (auto simp: runtime_inv_def)
  then show ?thesis using assms(2,3) unfolding step_op(1) keeps_def runtime_inv_def moves_on_def by simp
next
  case (step_pass i clock did)
  let ?n = "length (workers r)" and ?wk = "workers r ! i"
  obtain wk' s' where t: "try_tick S clock (?wk, shared r) = Some (did, wk', s')"
    and r': "r' = \<lparr>shared = s', workers = (workers r)[i := wk']\<rparr>"
    using step_pass(2) by (auto simp: tick_worker_def split: bind_splits)
  have wi: "wid ?wk = i" "worker_inv ?wk" and pl: "placed S ?n (homes r) (shared r)"
    using assms(2) step_pass(1) by (auto simp: runtime_inv_def)
  have w': "worker_inv wk'" "wid wk' = i" using try_tick_worker_inv [OF wi(2) t] wi(1) by auto
  have p: "placed S ?n ((homes r)(i := keys (pool wk'))) s' \<and> settled S i (shared r) s'"
    using try_tick_placed [OF t _ pl] wi assms(3) r' step_pass(1) by (auto simp: homes_def worker_inv_def)
  have "homes r' j = ((homes r)(i := keys (pool wk'))) j" if "j < ?n" for j
    using that by (simp add: homes_def r' nth_list_update)
  then have "placed S ?n (homes r') s'" using p placed_cong [of ?n "homes r'"] by blast
  moreover have "moves_on S (shared r) s'" using p by (auto simp: settled_def moves_on_def)
  moreover have "wid (workers r' ! j) = j \<and> worker_inv (workers r' ! j)" if "j < ?n" for j
    using that assms(2) w' by (cases "j = i") (simp_all add: r' runtime_inv_def)
  ultimately show ?thesis using step_pass(1) unfolding runtime_inv_def by (auto simp: r')
qed

lemma run_inv:
  assumes "runtime_run S r r'" "runtime_inv S r" "unique_addrs S (shared r')"
  shows "runtime_inv S r' \<and> moves_on S (shared r) (shared r') \<and> length (workers r') = length (workers r)"
  using assms
proof (induction rule: rtranclp_induct)
  case base
  then show ?case by (simp add: moves_on_refl)
next
  case (step y z)
  have "unique_addrs S (shared y)" using unique_mono [OF step.prems(2) step_next [OF step.hyps(2)]] .
  note y = step.IH [OF step.prems(1) this]
  note z = step_inv [OF step.hyps(2) conjunct1 [OF y] step.prems(2)]
  show ?case using y z moves_on_trans [of S "shared r" "shared y" "shared z"] by simp
qed

lemma reachable_inv: "reachable S r \<Longrightarrow> unique_addrs S (shared r) \<Longrightarrow> runtime_inv S r"
  unfolding reachable_def using run_inv [OF _ inv_parts] by blast

text \<open>The workers' own invariant needs nothing of the addresses.\<close>

definition workers_ok :: "('a, 'm, 'w) runtime \<Rightarrow> bool" where
  "workers_ok r \<longleftrightarrow> (\<forall>i < length (workers r). wid (workers r ! i) = i \<and> worker_inv (workers r ! i))"

lemma step_workers_ok: "runtime_step S r r' \<Longrightarrow> workers_ok r \<Longrightarrow> workers_ok r'"
proof (erule runtime_step.cases)
  fix q i clock did q' assume a: "r = q" "r' = q'" "i < length (workers q)" "workers_ok r"
    and t: "tick_worker S clock i q = Some (did, q')"
  obtain wk' s' where t': "try_tick S clock (workers q ! i, shared q) = Some (did, wk', s')"
    and q': "q' = \<lparr>shared = s', workers = (workers q)[i := wk']\<rparr>"
    using t by (auto simp: tick_worker_def split: bind_splits)
  have "worker_inv wk' \<and> wid wk' = i" using try_tick_worker_inv [OF _ t'] a by (auto simp: workers_ok_def)
  with a show "workers_ok r'" by (auto simp: workers_ok_def q' nth_list_update)
qed (auto simp: workers_ok_def)

lemma reachable_workers_ok: "reachable S r \<Longrightarrow> workers_ok r"
  unfolding reachable_def
proof (elim exE conjE)
  fix r0 assume "runtime_parts r0" "runtime_run S r0 r"
  from this(2,1) show "workers_ok r"
    by (induction rule: rtranclp_induct)
      (auto simp: workers_ok_def runtime_inv_def dest: inv_parts [where N = S] step_workers_ok)
qed

section \<open>Properties\<close>

text \<open>C1. In every state a runtime can reach, an address is mapped to a worker exactly when that worker
  has the actor in its pool or its spawn request queued, and never both. So every actor lives on one
  worker, and a message sent to a mapped address always reaches the worker that has, or is about to
  install, that actor. The only hypothesis is that the random addresses drawn so far are different.\<close>

theorem every_actor_has_one_home:
  assumes "reachable S r" "unique_addrs S (shared r)"
  shows "(worker_of (shared r) a = Some i \<longleftrightarrow> i < length (workers r) \<and>
      (a \<in> fst ` set (actors (pool (workers r ! i))) \<or> a \<in> sr_addr ` set (spawn_qs (shared r) ! i))) \<and>
    \<not> (i < length (workers r) \<and> a \<in> fst ` set (actors (pool (workers r ! i))) \<and>
       a \<in> sr_addr ` set (spawn_qs (shared r) ! i))"
proof -
  have p: "placed S (length (workers r)) (homes r) (shared r)"
    using reachable_inv [OF assms] by (simp add: runtime_inv_def)
  have h: "homes r i = fst ` set (actors (pool (workers r ! i)))" by (simp add: homes_def keys_def)
  show ?thesis using p unfolding placed_def queued_def h [symmetric] by blast
qed

definition one_worker :: "(unit, unit, unit) runtime" where
  "one_worker = the (runtime_new runtime_config_default)"

lemma one_worker_new: "runtime_new runtime_config_default = Some one_worker"
  by (simp add: one_worker_def runtime_new_def runtime_config_default_def)

lemma one_worker_reachable: "reachable mute_system one_worker"
  unfolding reachable_def using parts_new [OF one_worker_new] by blast

definition spawned_worker :: "(unit, unit, unit) runtime" where
  "spawned_worker = one_worker\<lparr>shared := snd (spawn mute_system () (shared one_worker))\<rparr>"

lemma spawned_run: "runtime_run mute_system one_worker spawned_worker"
  unfolding spawned_worker_def by (intro r_into_rtranclp step_op op_spawn)

lemma spawned_reachable: "reachable mute_system spawned_worker"
  unfolding reachable_def using parts_new [OF one_worker_new] spawned_run by blast

lemma spawned_state:
  "next_addr (shared spawned_worker) = 1" "workers spawned_worker = [worker_new 0]"
  "map sr_addr (spawn_qs (shared spawned_worker) ! 0) = [ActorAddress 0]"
  "worker_of (shared spawned_worker) (ActorAddress 0) = Some 0" "next_addr (shared one_worker) = 0"
  by (simp_all add: spawned_worker_def one_worker_def runtime_new_def runtime_config_default_def spawn_def
      spawn_with_env_def new_random_def next_worker_def shared_new_def mute_system_def spawn_send_def
      address_insert_def worker_of_def)

lemma spawned_unique: "unique_addrs mute_system (shared spawned_worker)"
  by (simp add: unique_addrs_def spawned_state inj_on_def)

theorem every_actor_has_one_home_witness:
  "worker_of (shared spawned_worker) (ActorAddress 0) = Some 0 \<and>
   ActorAddress 0 \<in> sr_addr ` set (spawn_qs (shared spawned_worker) ! 0) \<and>
   ActorAddress 0 \<notin> fst ` set (actors (pool (workers spawned_worker ! 0)))"
  using every_actor_has_one_home [OF spawned_reachable spawned_unique, of "ActorAddress 0" 0] spawned_state
  by (simp add: worker_new_def pool_new_def)


definition twice_spawned :: "(unit, unit, unit) runtime" where
  "twice_spawned = spawned_worker\<lparr>shared := snd (spawn mute_system () (shared spawned_worker))\<rparr>"


text \<open>C3. A quiet host is really done: in every reachable state in which \<open>has_work\<close> answers \<open>false\<close>, every
  queue of every worker is empty and every actor is suspended or has started and handled all its mail,
  and none is waiting for cleanup.\<close>

theorem quiet_host_is_idle:
  assumes "reachable S r" "\<not> host_has_work S r" "i < length (workers r)"
  shows "spawn_qs (shared r) ! i = [] \<and> transfer_qs (shared r) ! i = [] \<and> admin_qs (shared r) ! i = [] \<and>
    deferred_transfers (workers r ! i) = [] \<and> deferred_admin (workers r ! i) = [] \<and>
    (\<forall>x \<in> set (actors (pool (workers r ! i))). \<not> poisoned (snd x) \<and> \<not> stopping (snd x) \<and>
       (suspended (snd x) \<or> started (snd x) \<and> mailbox (snd x) = []))"
proof -
  have w: "wid (workers r ! i) = i" "worker_inv (workers r ! i)"
    using reachable_workers_ok [OF assms(1)] assms(3) by (auto simp: workers_ok_def)
  have "\<not> has_work S (shared r) (workers r ! i)" using assms(2,3) by (auto simp: host_has_work_def)
  then show ?thesis using w by (auto simp: has_work_def worker_inv_def dead_slot_def idle_slot_def)
qed

theorem quiet_host_is_idle_witness:
  "transfer_qs (shared one_worker) ! 0 = [] \<and> spawn_qs (shared one_worker) ! 0 = []"
proof -
  have "\<not> host_has_work mute_system one_worker" "0 < length (workers one_worker)"
    by (simp_all add: host_has_work_def one_worker_def runtime_new_def runtime_config_default_def has_work_def
        worker_new_def shared_new_def)
  from quiet_host_is_idle [OF one_worker_reachable this] show ?thesis by simp
qed

end
