(* ===== verification/Runtime_Requests.thy ===== *)
theory Runtime_Requests
  imports Runtime_Runs
begin

text \<open>
  What the calls of a runtime handle promise by themselves: round-robin spawning, the clean failure
  of \<open>ask\<close>, and the actor census that every worker contributes to once.
\<close>

section \<open>Round-robin spawning\<close>

fun spawn_all :: "('m, 'z) net_scheme \<Rightarrow> 'a list \<Rightarrow> ('a, 'm) runtime_shared \<Rightarrow> ('a, 'm) runtime_shared" where
  "spawn_all N [] s = s"
| "spawn_all N (x # xs) s = spawn_all N xs (snd (spawn N x s))"

lemma spawn_all_append: "spawn_all N (xs @ ys) s = spawn_all N ys (spawn_all N xs s)"
  by (induction xs arbitrary: s) auto

lemma spawn_fields:
  "rr_worker (snd (spawn N x s)) = (rr_worker s + 1) mod 2 ^ 64"
  "stats (snd (spawn N x s)) = stats s"
  "length (spawn_qs (snd (spawn N x s))) = length (spawn_qs s)"
  "rr_worker s mod length (stats s) < length (spawn_qs s) \<Longrightarrow> i < length (spawn_qs s) \<Longrightarrow>
   map sr_actor (spawn_qs (snd (spawn N x s)) ! i) =
     map sr_actor (spawn_qs s ! i) @ (if rr_worker s mod length (stats s) = i then [x] else [])"
  by (simp_all add: spawn_def spawn_with_env_def new_random_def next_worker_def spawn_send_def
      address_insert_def nth_list_update)

lemma spawn_all_state:
  assumes "length xs \<le> 2 ^ 64" "worker_count c \<ge> 1"
  shows "rr_worker (spawn_all N xs (shared_new c)) = length xs mod 2 ^ 64 \<and>
    length (stats (spawn_all N xs (shared_new c))) = worker_count c \<and>
    length (spawn_qs (spawn_all N xs (shared_new c))) = worker_count c \<and>
    (\<forall>i < worker_count c. map sr_actor (spawn_qs (spawn_all N xs (shared_new c)) ! i) =
       map (\<lambda>j. xs ! j) (filter (\<lambda>j. j mod worker_count c = i) [0..<length xs]))"
  using assms(1)
proof (induction xs rule: rev_induct)
  case Nil
  then show ?case by (simp add: shared_new_def)
next
  case (snoc x xs)
  let ?s = "spawn_all N xs (shared_new c)" and ?n = "worker_count c"
  have lt: "length xs < 2 ^ 64" using snoc.prems by simp
  then have IH: "rr_worker ?s = length xs" "length (stats ?s) = ?n" "length (spawn_qs ?s) = ?n"
    "\<forall>i < ?n. map sr_actor (spawn_qs ?s ! i) = map (\<lambda>j. xs ! j) (filter (\<lambda>j. j mod ?n = i) [0..<length xs])"
    using snoc.IH by simp_all
  have "map sr_actor (spawn_qs (snd (spawn N x ?s)) ! i) =
      map (\<lambda>j. (xs @ [x]) ! j) (filter (\<lambda>j. j mod ?n = i) [0..<length (xs @ [x])])" if "i < ?n" for i
  proof -
    have "map (\<lambda>j. (xs @ [x]) ! j) (filter (\<lambda>j. j mod ?n = i) [0..<length xs]) =
        map (\<lambda>j. xs ! j) (filter (\<lambda>j. j mod ?n = i) [0..<length xs])"
      by (auto simp: nth_append)
    then show ?thesis using spawn_fields(4) [of ?s i N x] IH that assms(2) by simp
  qed
  then show ?case using IH by (simp add: spawn_all_append spawn_fields)
qed

text \<open>Spawning through the handle deals the actors out in turn: of up to \<open>2^64\<close> actors spawned on a
  new runtime with \<open>n\<close> workers, worker \<open>i\<close> is sent exactly those whose position is \<open>i\<close> modulo \<open>n\<close>, in the
  order they were spawned. (Beyond that the cursor wraps, and unless \<open>n\<close> divides \<open>2^64\<close> a turn is
  skipped.)\<close>

theorem spawns_are_dealt_round_robin:
  assumes "runtime_new c = Some r" "length xs \<le> 2 ^ 64" "i < length (workers r)"
  shows "map sr_actor (spawn_qs (spawn_all N xs (shared r)) ! i) =
    map (\<lambda>j. xs ! j) (filter (\<lambda>j. j mod length (workers r) = i) [0..<length xs])"
proof -
  have "worker_count c \<ge> 1" "shared r = shared_new c" "length (workers r) = worker_count c"
    using assms(1) by (auto simp: runtime_new_def split: if_splits)
  then show ?thesis using spawn_all_state [OF assms(2), of c N] assms(3) by simp
qed

definition two_workers :: "(nat, unit, unit) runtime" where
  "two_workers = the (runtime_new (runtime_config_default\<lparr>worker_count := 2\<rparr>))"

section \<open>Asking\<close>

lemma delete_update_fresh: "map_of m k = None \<Longrightarrow> hm_remove k (hm_insert k v m) = m"
  by (induction m) (auto simp: AList.delete_eq split: if_splits intro: filter_True)

lemma send_to_failed:
  assumes "send_to N a m s = (Inl e, s')"
  shows "s' = s\<lparr>remote_out := remote_out s'\<rparr> \<and> worker_of s a = None \<and> map_of (inboxes s) a = None"
  using assms
  by (cases "worker_of s a"; cases "map_of (inboxes s) a"; cases "remote_sink N")
    (auto simp: send_to_def route_nonlocal_def inbox_contains_def try_deliver_def)

text \<open>C12. A request that cannot be sent leaves nothing behind: when \<open>ask\<close> fails, the destination is no
  actor and no inbox of this runtime, and the state is the old one except for the address that was drawn
  and for what the remote sink was handed. In particular the temporary inbox is gone again.\<close>

theorem failed_ask_leaves_nothing:
  assumes "ask N t a build s = (Inl e, s')" "map_of (inboxes s) (addr_source N (next_addr s)) = None"
  shows "s' = s\<lparr>next_addr := Suc (next_addr s), remote_out := remote_out s'\<rparr> \<and>
    worker_of s a = None \<and> map_of (inboxes s) a = None"
proof -
  obtain i s1 where n: "new_inbox N t s = (i, s1)" by fastforce
  obtain s2 where r: "send_to N a (build i) s1 = (Inl e, s2)" and s': "s' = inbox_unregister i s2"
    using assms(1) n by (auto simp: ask_def split: prod.splits sum.splits)
  have s1: "i = addr_source N (next_addr s)"
    "s1 = s\<lparr>next_addr := Suc (next_addr s), inboxes := hm_insert i \<lparr>ib_type = t, ib_queue = []\<rparr> (inboxes s)\<rparr>"
    using n by (auto simp: new_inbox_def new_random_def inbox_register_def)
  have s2: "s2 = s1\<lparr>remote_out := remote_out s2\<rparr>" "worker_of s1 a = None" "map_of (inboxes s1) a = None"
    using send_to_failed [OF r] by blast+
  have "inboxes s2 = inboxes s1" by (subst s2(1)) simp
  then have "s' = s\<lparr>next_addr := Suc (next_addr s), remote_out := remote_out s2\<rparr>"
    unfolding s' inbox_unregister_def by (subst (2) s2(1)) (simp add: s1 delete_update_fresh assms(2))
  moreover have "worker_of s a = None" "map_of (inboxes s) a = None"
    using s2(2,3) by (auto simp: s1(2) worker_of_def update_conv' split: if_splits)
  ultimately show ?thesis by (simp add: s' inbox_unregister_def)
qed

theorem failed_ask_leaves_nothing_witness:
  "inboxes (snd (ask mute_system ''t'' (ActorAddress 9) (\<lambda>_. User ()) (shared one_worker))) = []"
proof -
  let ?s = "shared one_worker"
  have n: "inboxes ?s = []" by (simp add: one_worker_def runtime_new_def runtime_config_default_def shared_new_def)
  have "fst (ask mute_system ''t'' (ActorAddress 9) (\<lambda>_. User ()) ?s) = Inl ''Address not found''"
    by (simp add: ask_def new_inbox_def new_random_def inbox_register_def send_to_def worker_of_def
        route_nonlocal_def inbox_contains_def try_deliver_def mute_system_def one_worker_def runtime_new_def
        runtime_config_default_def shared_new_def)
  then obtain s' where a: "ask mute_system ''t'' (ActorAddress 9) (\<lambda>_. User ()) ?s = (Inl ''Address not found'', s')"
    by (metis surjective_pairing)
  have "s' = ?s\<lparr>next_addr := Suc (next_addr ?s), remote_out := remote_out s'\<rparr>"
    using failed_ask_leaves_nothing [OF a] n by simp
  then have "inboxes s' = inboxes ?s" by (metis runtime_shared.select_convs(3) runtime_shared.surjective
        runtime_shared.update_convs(13,14))
  then show ?thesis using a n by simp
qed

section \<open>The actor census\<close>

definition sample :: "('a, 'm, 'r, 'w) system \<Rightarrow> nat \<Rightarrow> (worker_id \<times> ('a, 'm) actor_pool) list
    \<Rightarrow> ('a, 'm) runtime_shared \<Rightarrow> ('a, 'm) runtime_shared" where
  "sample S acc wps s = fold (\<lambda>(w, p). apply_list_actors S w acc p) wps s"

definition census_of :: "('a, 'm, 'r, 'w) system \<Rightarrow> (worker_id \<times> ('a, 'm) actor_pool) list \<Rightarrow> actor_summary list" where
  "census_of S wps = concat (map (\<lambda>(w, p). map (\<lambda>(a, slot). actor_summary_from_slot S w a slot) (actors p)) wps)"

definition send_reply :: "('m, 'z) net_scheme \<Rightarrow> actor_address \<Rightarrow> 'm any \<Rightarrow> ('a, 'm) runtime_shared \<Rightarrow> ('a, 'm) runtime_shared" where
  "send_reply N a m s = (case worker_of s a of
     Some v \<Rightarrow> transfer_send v (envelope_new a m) s | None \<Rightarrow> snd (try_deliver N a m s))"

lemma sample_partial:
  assumes "map_of (list_accs s) acc = Some st" "length wps < la_remaining st"
  shows "\<exists>m. sample S acc wps s = s\<lparr>list_accs := m\<rparr> \<and>
    map_of m = (map_of (list_accs s))(acc \<mapsto> st\<lparr>la_remaining := la_remaining st - length wps,
       la_summaries := la_summaries st @ census_of S wps\<rparr>)"
  using assms
proof (induction wps arbitrary: s st)
  case Nil
  then show ?case by (intro exI [of _ "list_accs s"]) (auto simp: sample_def census_of_def)
next
  case (Cons wp wps)
  obtain w p where wp: "wp = (w, p)" by fastforce
  let ?st = "st\<lparr>la_summaries := actor_summaries_into S w (la_summaries st) p, la_remaining := la_remaining st - 1\<rparr>"
  let ?s = "s\<lparr>list_accs := hm_insert acc ?st (list_accs s)\<rparr>"
  have a: "apply_list_actors S w acc p s = ?s"
    using Cons.prems by (simp add: apply_list_actors_def Let_def)
  have "map_of (list_accs ?s) acc = Some ?st" "length wps < la_remaining ?st"
    using Cons.prems(2) by (simp_all add: update_conv')
  from Cons.IH [OF this] obtain m where "sample S acc wps ?s = ?s\<lparr>list_accs := m\<rparr>"
    "map_of m = (map_of (list_accs ?s))(acc \<mapsto> ?st\<lparr>la_remaining := la_remaining ?st - length wps,
       la_summaries := la_summaries ?st @ census_of S wps\<rparr>)"
    by blast
  then show ?case
    by (intro exI [of _ m]) (simp add: sample_def wp a update_conv' actor_summaries_into_def census_of_def)
qed

text \<open>A census is answered once, by the last worker: after the request any proper part of the workers
  samples without sending anything, and when as many as there are workers have sampled, the request is
  closed and exactly one reply is sent, to the requester, with the summaries of all actors of all sampled
  pools in sampling order. Later samples of the same request change nothing.\<close>

theorem census_is_answered_once:
  assumes "start_actor_census reply_to reply s = (acc, s1)" "acc \<notin> fst ` set (list_accs s)"
    and "length wps + 1 = length (stats s)"
  shows "(\<exists>m. sample S acc wps s1 = s1\<lparr>list_accs := m\<rparr>) \<and>
    (\<exists>m. sample S acc (wps @ [wp]) s1 =
       send_reply S reply_to (reply (census_of S (wps @ [wp]))) (s1\<lparr>list_accs := m\<rparr>) \<and>
       map_of m = map_of (list_accs s)) \<and>
    sample S acc (wps @ [wp] @ rest) s1 = sample S acc (wps @ [wp]) s1"
proof -
  let ?st = "\<lparr>la_remaining = length (stats s), la_summaries = [], la_reply_to = reply_to, la_reply = reply\<rparr>"
  obtain w p where wp: "wp = (w, p)" by fastforce
  have s1: "map_of (list_accs s1) = (map_of (list_accs s))(acc \<mapsto> ?st)"
    using assms(1) by (auto simp: start_actor_census_def update_conv')
  then obtain m where m: "sample S acc wps s1 = s1\<lparr>list_accs := m\<rparr>"
    "map_of m = (map_of (list_accs s))(acc \<mapsto> ?st\<lparr>la_remaining := 1, la_summaries := census_of S wps\<rparr>)"
    using sample_partial [of s1 acc ?st wps S] assms(3) [symmetric] by auto
  let ?m = "hm_remove acc m"
  have none: "map_of (list_accs s) acc = None" using assms(2) by (simp add: map_of_eq_None_iff)
  have m': "map_of ?m = map_of (list_accs s)" using m(2) none by (auto simp: delete_conv' fun_eq_iff)
  have last: "sample S acc (wps @ [wp]) s1 =
      send_reply S reply_to (reply (census_of S (wps @ [wp]))) (s1\<lparr>list_accs := ?m\<rparr>)"
    using m by (simp add: sample_def wp apply_list_actors_def Let_def send_reply_def census_of_def
        actor_summaries_into_def worker_of_def split: option.split)
  have "map_of (list_accs (sample S acc (wps @ [wp]) s1)) acc = None"
    unfolding last using m' none
    by (simp add: send_reply_def transfer_send_def try_deliver_def worker_of_def split: option.split)
  then have "sample S acc rest (sample S acc (wps @ [wp]) s1) = sample S acc (wps @ [wp]) s1"
    by (induction rest) (auto simp: sample_def apply_list_actors_def)
  moreover have "sample S acc (wps @ [wp] @ rest) s1 = sample S acc rest (sample S acc (wps @ [wp]) s1)"
    by (simp add: sample_def)
  ultimately show ?thesis using m(1) last m' by auto
qed

theorem census_is_answered_once_witness:
  "\<exists>m. sample mute_system 0 [(0, busy_pool)] (snd (start_actor_census (ActorAddress 7) (\<lambda>ss. AdminReplyMsg (ListReply ss)) (shared one_worker))) =
     send_reply mute_system (ActorAddress 7) (AdminReplyMsg (ListReply (census_of mute_system [(0, busy_pool)])))
       ((snd (start_actor_census (ActorAddress 7) (\<lambda>ss. AdminReplyMsg (ListReply ss)) (shared one_worker)))\<lparr>list_accs := m\<rparr>)"
proof -
  let ?c = "start_actor_census (ActorAddress 7) (\<lambda>ss. AdminReplyMsg (ListReply ss)) (shared one_worker)"
  have c: "?c = (0, snd ?c)" "0 \<notin> fst ` set (list_accs (shared one_worker))"
    "length ([] :: (worker_id \<times> (unit, unit) actor_pool) list) + 1 = length (stats (shared one_worker))"
    by (simp_all add: start_actor_census_def one_worker_def runtime_new_def runtime_config_default_def shared_new_def)
  from census_is_answered_once [OF c, of mute_system "(0, busy_pool)" "[]"] show ?thesis by auto
qed

end
