(* ===== verification/Gossip_Laws.thy ===== *)
theory Gossip_Laws
  imports Prelude "HOL-Library.Multiset"
begin

text \<open>
  Two interfaces that several parts of the distribution layer implement: a keyed last-writer-wins
  register (\<open>lww_register\<close>) and a queue whose entries carry a transmit budget (\<open>budget_queue\<close>). The
  facts about them are proved once here and used through the interpretations of the components.
\<close>

section \<open>Last-writer-wins registers\<close>

text \<open>
  Membership lists, the cluster registry, node metadata, the actor directory and the SWIM
  dissemination queue all hold one value per key and replace it exactly when an incoming value
  has a strictly higher rank. \<open>get\<close> reads the value of a key, \<open>merge\<close> delivers one value,
  \<open>admits\<close> is the filter applied before the comparison (a node keeps no entry about itself, an
  unverified claim is dropped), and \<open>inv\<close> is the component's well-formedness.
\<close>

locale lww_register =
  fixes get :: "'s \<Rightarrow> 'k \<Rightarrow> 'v option"
    and merge :: "'s \<Rightarrow> 'k \<Rightarrow> 'v \<Rightarrow> 's"
    and rank :: "'v \<Rightarrow> 'r::linorder"
    and admits :: "'s \<Rightarrow> 'k \<Rightarrow> 'v \<Rightarrow> bool"
    and inv :: "'s \<Rightarrow> bool"
  assumes get_merge: "inv s \<Longrightarrow> get (merge s k v) k' =
      (if k' = k \<and> admits s k v \<and> (\<forall>old. get s k = Some old \<longrightarrow> rank old < rank v)
       then Some v else get s k')"
    and admits_merge: "inv s \<Longrightarrow> admits (merge s k v) = admits s"
    and inv_merge: "inv s \<Longrightarrow> inv (merge s k v)"
begin

definition deliver :: "('k \<times> 'v) list \<Rightarrow> 's \<Rightarrow> 's" where
  "deliver ms s = fold (\<lambda>(k, v) t. merge t k v) ms s"

definition candidates :: "('k \<times> 'v) list \<Rightarrow> 's \<Rightarrow> 'k \<Rightarrow> 'v set" where
  "candidates ms s k = {v. (k, v) \<in> set ms \<and> admits s k v} \<union> set_option (get s k)"

lemma deliver_simps [simp]:
  "deliver [] s = s" "deliver ((k, v) # ms) s = deliver ms (merge s k v)"
  by (simp_all add: deliver_def)

lemma deliver_append: "deliver (ms @ ns) s = deliver ns (deliver ms s)"
  by (simp add: deliver_def)

lemma inv_deliver: "inv s \<Longrightarrow> inv (deliver ms s)"
  by (induction ms arbitrary: s) (auto simp: inv_merge)

lemma merge_monotone:
  "inv s \<Longrightarrow> get s k' = Some old \<Longrightarrow> \<exists>new. get (merge s k v) k' = Some new \<and> rank old \<le> rank new"
  by (auto simp: get_merge)

lemma merge_idem: "inv s \<Longrightarrow> get (merge (merge s k v) k v) = get (merge s k v)"
  by (auto simp: get_merge inv_merge admits_merge fun_eq_iff)

lemma merge_stale:
  "inv s \<Longrightarrow> get s k = Some old \<Longrightarrow> rank v \<le> rank old \<Longrightarrow> get (merge s k v) = get s"
  by (auto simp: get_merge fun_eq_iff)

lemma merge_wins:
  "inv s \<Longrightarrow> admits s k v \<Longrightarrow> (\<And>old. get s k = Some old \<Longrightarrow> rank old < rank v)
    \<Longrightarrow> get (merge s k v) k = Some v"
  by (auto simp: get_merge)

lemma deliver_monotone:
  "inv s \<Longrightarrow> get s k = Some old \<Longrightarrow> \<exists>new. get (deliver ms s) k = Some new \<and> rank old \<le> rank new"
proof (induction ms arbitrary: s old)
  case Nil
  then show ?case by simp
next
  case (Cons m ms)
  obtain k' v where m: "m = (k', v)" by fastforce
  from merge_monotone [OF Cons.prems] obtain mid
    where "get (merge s k' v) k = Some mid" "rank old \<le> rank mid" by blast
  with Cons.IH [OF inv_merge, OF Cons.prems(1)] show ?case
    unfolding m by (metis deliver_simps(2) order_trans)
qed

text \<open>What a key holds after any sequence of deliveries is a candidate of maximal rank.\<close>

lemma deliver_maximal:
  assumes "inv s"
  shows "(candidates ms s k = {} \<longrightarrow> get (deliver ms s) k = None) \<and>
    (candidates ms s k \<noteq> {} \<longrightarrow>
      (\<exists>w \<in> candidates ms s k. get (deliver ms s) k = Some w \<and>
         (\<forall>u \<in> candidates ms s k. rank u \<le> rank w)))"
  using assms
proof (induction ms arbitrary: s)
  case Nil
  then show ?case by (auto simp: candidates_def split: option.splits)
next
  case (Cons m ms)
  obtain k' v where m: "m = (k', v)" by fastforce
  let ?t = "merge s k' v"
  have inv: "inv ?t" using Cons.prems by (rule inv_merge)
  note IH = Cons.IH [OF inv]
  have adm: "admits ?t = admits s" using Cons.prems by (rule admits_merge)
  have g: "get ?t k = (if k = k' \<and> admits s k' v \<and> (\<forall>old. get s k' = Some old \<longrightarrow> rank old < rank v)
       then Some v else get s k)" using Cons.prems by (rule get_merge)
  have sub: "candidates ms ?t k \<subseteq> candidates (m # ms) s k"
    using g by (auto simp: candidates_def adm m split: if_splits)
  have dom: "\<exists>w \<in> candidates ms ?t k. rank u \<le> rank w" if "u \<in> candidates (m # ms) s k" for u
    using that g by (auto simp: candidates_def adm m not_less split: if_splits)
  show ?case
  proof (cases "candidates ms ?t k = {}")
    case True
    then show ?thesis using IH dom by (force simp: m)
  next
    case False
    then obtain w where w: "w \<in> candidates ms ?t k" "get (deliver ms ?t) k = Some w"
      "\<forall>u \<in> candidates ms ?t k. rank u \<le> rank w" using IH by blast
    have "\<forall>u \<in> candidates (m # ms) s k. rank u \<le> rank w"
      using dom w(3) order_trans by blast
    then show ?thesis using w sub by (auto simp: m)
  qed
qed

text \<open>
  Convergence at a key: two replicas that agree on what they hold and admit there, and that received
  the same values for it, in any order and with any repetitions, end up holding the same value,
  provided no two different candidates share a rank.
\<close>

lemma converges_at:
  assumes "inv s" and "inv t" and eq: "candidates ms s k = candidates ns t k"
    and inj: "\<And>u v. u \<in> candidates ms s k \<Longrightarrow> v \<in> candidates ms s k \<Longrightarrow> rank u = rank v \<Longrightarrow> u = v"
  shows "get (deliver ms s) k = get (deliver ns t) k"
proof (cases "candidates ms s k = {}")
  case True
  then show ?thesis
    using deliver_maximal [OF assms(1), of ms k] deliver_maximal [OF assms(2), of ns k] eq by simp
next
  case False
  then obtain w w' where "w \<in> candidates ms s k" "get (deliver ms s) k = Some w"
    "\<forall>u \<in> candidates ms s k. rank u \<le> rank w"
    "w' \<in> candidates ms s k" "get (deliver ns t) k = Some w'"
    "\<forall>u \<in> candidates ms s k. rank u \<le> rank w'"
    using deliver_maximal [OF assms(1), of ms k] deliver_maximal [OF assms(2), of ns k] eq by auto
  then show ?thesis using inj [of w w'] by (simp add: order_antisym)
qed

end

section \<open>Queues with a transmit budget\<close>

text \<open>
  The gossip queues give every entry a number of transmissions and drop it when the number is
  used up. \<open>owed\<close> is the multiset of transmissions still owed and \<open>take_n\<close> hands out entries for one
  message.
\<close>

locale budget_queue =
  fixes take_n :: "nat \<Rightarrow> 'q \<Rightarrow> 'e list \<times> 'q"
    and owed :: "'q \<Rightarrow> 'e multiset"
    and inv :: "'q \<Rightarrow> bool"
  assumes take_owed: "inv q \<Longrightarrow> owed q = mset (fst (take_n n q)) + owed (snd (take_n n q))"
    and take_some: "inv q \<Longrightarrow> 0 < n \<Longrightarrow> owed q \<noteq> {#} \<Longrightarrow> fst (take_n n q) \<noteq> []"
    and take_bound: "inv q \<Longrightarrow> length (fst (take_n n q)) \<le> n"
    and inv_take: "inv q \<Longrightarrow> inv (snd (take_n n q))"
begin

fun drain :: "nat \<Rightarrow> nat \<Rightarrow> 'q \<Rightarrow> 'e list \<times> 'q" where
  "drain n 0 q = ([], q)"
| "drain n (Suc r) q =
     (fst (take_n n q) @ fst (drain n r (snd (take_n n q))), snd (drain n r (snd (take_n n q))))"

lemma drain_inv: "inv q \<Longrightarrow> inv (snd (drain n r q))"
  by (induction r arbitrary: q) (auto simp: inv_take)

lemma drain_owed: "inv q \<Longrightarrow> owed q = mset (fst (drain n r q)) + owed (snd (drain n r q))"
proof (induction r arbitrary: q)
  case (Suc r)
  have "inv (snd (take_n n q))" using Suc.prems by (rule inv_take)
  from Suc.IH [OF this] take_owed [OF Suc.prems, of n] show ?case by (simp add: add.assoc)
qed simp

text \<open>Quiescence: with no new entries everything owed has been sent after that many messages.\<close>

lemma drain_quiet: "inv q \<Longrightarrow> 0 < n \<Longrightarrow> size (owed q) \<le> r \<Longrightarrow> owed (snd (drain n r q)) = {#}"
proof (induction r arbitrary: q)
  case (Suc r)
  let ?q = "snd (take_n n q)"
  have s: "size (owed q) = length (fst (take_n n q)) + size (owed ?q)"
    using arg_cong [OF take_owed [OF Suc.prems(1), of n], of size] by simp
  have "size (owed ?q) \<le> r"
  proof (cases "owed q = {#}")
    case False
    then show ?thesis using take_some [OF Suc.prems(1,2)] s Suc.prems(3) by (cases "fst (take_n n q)") auto
  qed (use s in simp)
  then show ?case using Suc.IH [OF inv_take, OF Suc.prems(1) Suc.prems(2)] by simp
qed simp

lemma drain_complete:
  "inv q \<Longrightarrow> 0 < n \<Longrightarrow> size (owed q) \<le> r \<Longrightarrow>
   mset (fst (drain n r q)) = owed q \<and> owed (snd (drain n r q)) = {#}"
  using drain_owed [of q n r] drain_quiet [of q n r] by simp

end

end
