(* ===== verification/Swim_Members.thy ===== *)
theory Swim_Members
  imports Gossip_Laws
begin

text \<open>
  The membership list of the SWIM protocol (\<open>crates/distribution/src/swim/member_list.rs\<close> and the
  membership part of \<open>types.rs\<close>): one entry per known node, ordered by incarnation and then by state.
  The list interprets \<open>lww_register\<close>, which gives convergence of the views of different nodes.
  Incarnations are 64-bit; \<open>refute\<close> wraps as release builds do.
\<close>

section \<open>Member states\<close>

datatype member_state = Alive | Suspect | Dead

fun priority :: "member_state \<Rightarrow> nat" where
  "priority Alive = 0"
| "priority Suspect = 1"
| "priority Dead = 2"

lemma priority_inject: "priority a = priority b \<longleftrightarrow> a = b"
  by (cases a; cases b) auto

instantiation member_state :: linorder
begin

definition less_eq_member_state :: "member_state \<Rightarrow> member_state \<Rightarrow> bool" where
  "less_eq_member_state a b \<longleftrightarrow> priority a \<le> priority b"

definition less_member_state :: "member_state \<Rightarrow> member_state \<Rightarrow> bool" where
  "less_member_state a b \<longleftrightarrow> priority a < priority b"

instance
  by standard (auto simp: less_eq_member_state_def less_member_state_def priority_inject)

end

lemma member_state_order [simp]:
  "Alive < Suspect" "Suspect < Dead" "Alive < Dead" "\<not> s < Alive" "\<not> Dead < s" "Alive \<le> s" "s \<le> Dead"
  by (cases s; simp add: less_member_state_def less_eq_member_state_def)+

section \<open>The list\<close>

record node_record =
  nr_node_id :: node_id
  nr_state :: member_state
  nr_incarnation :: u64

record member_entry =
  me_node_id :: node_id
  me_state :: member_state
  me_incarnation :: u64

definition to_record :: "member_entry \<Rightarrow> node_record" where
  "to_record e = \<lparr>nr_node_id = me_node_id e, nr_state = me_state e, nr_incarnation = me_incarnation e\<rparr>"

record member_list =
  ml_self_id :: node_id
  ml_self_incarnation :: u64
  ml_members :: "(node_id \<times> member_entry) list"

definition member_list_new :: "node_id \<Rightarrow> member_list" where
  "member_list_new self = \<lparr>ml_self_id = self, ml_self_incarnation = 0, ml_members = []\<rparr>"

definition ml_refute :: "member_list \<Rightarrow> u64 \<times> member_list" where
  "ml_refute l = (ml_self_incarnation l + 1, l\<lparr>ml_self_incarnation := ml_self_incarnation l + 1\<rparr>)"

definition ml_get :: "member_list \<Rightarrow> node_id \<Rightarrow> member_entry option" where
  "ml_get l i = map_of (ml_members l) i"

definition alive_members :: "member_list \<Rightarrow> member_entry list" where
  "alive_members l = filter (\<lambda>e. me_state e \<noteq> Dead) (map snd (ml_members l))"

definition dead_members :: "member_list \<Rightarrow> member_entry list" where
  "dead_members l = filter (\<lambda>e. me_state e = Dead) (map snd (ml_members l))"

definition all_members :: "member_list \<Rightarrow> member_entry list" where
  "all_members l = map snd (ml_members l)"

definition alive_count :: "member_list \<Rightarrow> nat" where
  "alive_count l = length (filter (\<lambda>e. me_state e \<noteq> Dead) (map snd (ml_members l)))"

definition ml_remove :: "node_id \<Rightarrow> member_list \<Rightarrow> bool \<times> member_list" where
  "ml_remove i l = (ml_get l i \<noteq> None, l\<lparr>ml_members := bt_remove i (ml_members l)\<rparr>)"

definition ml_len :: "member_list \<Rightarrow> nat" where
  "ml_len l = length (ml_members l)"

definition ml_put :: "node_id \<Rightarrow> member_entry \<Rightarrow> member_list \<Rightarrow> member_list" where
  "ml_put i e l = l\<lparr>ml_members := bt_insert i e (ml_members l)\<rparr>"

definition ml_apply :: "node_id \<Rightarrow> member_state \<Rightarrow> u64 \<Rightarrow> member_list \<Rightarrow> bool \<times> member_list" where
  "ml_apply i st inc l =
     (if i = ml_self_id l then (False, l)
      else case ml_get l i of
        Some existing \<Rightarrow>
          (if inc > me_incarnation existing
           then (True, ml_put i (existing\<lparr>me_state := st, me_incarnation := inc\<rparr>) l)
           else if inc = me_incarnation existing \<and> st > me_state existing
           then (True, ml_put i (existing\<lparr>me_state := st\<rparr>) l)
           else (False, l))
      | None \<Rightarrow> (True, ml_put i \<lparr>me_node_id = i, me_state = st, me_incarnation = inc\<rparr> l))"

definition ml_suspect :: "node_id \<Rightarrow> member_list \<Rightarrow> bool \<times> member_list" where
  "ml_suspect i l =
     (case ml_get l i of
        Some e \<Rightarrow> (if me_state e = Alive then (True, ml_put i (e\<lparr>me_state := Suspect\<rparr>) l) else (False, l))
      | None \<Rightarrow> (False, l))"

definition declare_dead :: "node_id \<Rightarrow> member_list \<Rightarrow> bool \<times> member_list" where
  "declare_dead i l =
     (case ml_get l i of
        Some e \<Rightarrow> (if me_state e = Suspect then (True, ml_put i (e\<lparr>me_state := Dead\<rparr>) l) else (False, l))
      | None \<Rightarrow> (False, l))"

definition ml_snapshot :: "member_list \<Rightarrow> node_record list" where
  "ml_snapshot l = map (to_record \<circ> snd) (ml_members l)"

lemmas member_defs [swim_defs] = ml_get_def ml_put_def ml_apply_def ml_suspect_def declare_dead_def
  ml_remove_def member_list_new_def ml_refute_def

section \<open>Well-formedness and the view\<close>

text \<open>The list is sorted by node, entries carry their own key, and the node itself has no entry.\<close>

definition ml_inv :: "member_list \<Rightarrow> bool" where
  "ml_inv l \<longleftrightarrow> bt_inv (ml_members l) \<and> (\<forall>(i, e) \<in> set (ml_members l). me_node_id e = i \<and> i \<noteq> ml_self_id l)"

text \<open>What a node believes of another: its incarnation and state, in the order of the merge rule.\<close>

definition view :: "member_list \<Rightarrow> node_id \<Rightarrow> (u64 \<times> member_state) option" where
  "view l i = map_option (\<lambda>e. (me_incarnation e, me_state e)) (ml_get l i)"

lemma set_bt_insert: "set (bt_insert k v m) \<subseteq> insert (k, v) (set m)"
  by (induction k v m rule: bt_insert.induct) auto

lemma ml_get_entry: "ml_inv l \<Longrightarrow> ml_get l i = Some e \<Longrightarrow> me_node_id e = i \<and> i \<noteq> ml_self_id l"
  by (auto simp: ml_inv_def ml_get_def dest: map_of_SomeD)

lemma ml_inv_new: "ml_inv (member_list_new self)"
  by (simp add: ml_inv_def member_list_new_def)

lemma ml_inv_put: "ml_inv l \<Longrightarrow> me_node_id e = i \<Longrightarrow> i \<noteq> ml_self_id l \<Longrightarrow> ml_inv (ml_put i e l)"
  using set_bt_insert [of i e "ml_members l"] by (auto simp: ml_inv_def ml_put_def)

lemma get_put [simp]: "ml_get (ml_put i e l) = (ml_get l)(i \<mapsto> e)"
  by (simp add: ml_get_def ml_put_def fun_eq_iff)

lemma view_put: "view (ml_put i e l) = (view l)(i \<mapsto> (me_incarnation e, me_state e))"
  by (auto simp: view_def)

lemma self_put [simp]: "ml_self_id (ml_put i e l) = ml_self_id l" "ml_self_incarnation (ml_put i e l) = ml_self_incarnation l"
  by (simp_all add: ml_put_def)

lemma ml_apply_self [simp]:
  "ml_self_id (snd (ml_apply i st inc l)) = ml_self_id l"
  "ml_self_incarnation (snd (ml_apply i st inc l)) = ml_self_incarnation l"
  by (auto simp: ml_apply_def split: option.split)

lemma ml_inv_apply: "ml_inv l \<Longrightarrow> ml_inv (snd (ml_apply i st inc l))"
  by (auto simp: ml_apply_def intro!: ml_inv_put dest: ml_get_entry split: option.split)

lemma view_apply:
  "view (snd (ml_apply i st inc l)) =
     (if i \<noteq> ml_self_id l \<and> (\<forall>old. view l i = Some old \<longrightarrow> old < (inc, st)) then (view l)(i \<mapsto> (inc, st)) else view l)"
  by (cases "ml_get l i") (auto simp: ml_apply_def view_def less_prod_def fun_eq_iff)

lemma apply_changed:
  "fst (ml_apply i st inc l) \<longleftrightarrow> i \<noteq> ml_self_id l \<and> (\<forall>old. view l i = Some old \<longrightarrow> old < (inc, st))"
  by (cases "ml_get l i") (auto simp: ml_apply_def view_def less_prod_def)

lemma suspect_result:
  "fst (ml_suspect i l) \<longleftrightarrow> (\<exists>inc. view l i = Some (inc, Alive))"
  "view (snd (ml_suspect i l)) = (case view l i of Some (inc, Alive) \<Rightarrow> (view l)(i \<mapsto> (inc, Suspect)) | _ \<Rightarrow> view l)"
  by (cases "ml_get l i"; auto simp: ml_suspect_def view_put view_def split: member_state.split)+

lemma declare_dead_result:
  "fst (declare_dead i l) \<longleftrightarrow> (\<exists>inc. view l i = Some (inc, Suspect))"
  "view (snd (declare_dead i l)) = (case view l i of Some (inc, Suspect) \<Rightarrow> (view l)(i \<mapsto> (inc, Dead)) | _ \<Rightarrow> view l)"
  by (cases "ml_get l i"; auto simp: declare_dead_def view_put view_def split: member_state.split)+

lemma ml_inv_marks: "ml_inv l \<Longrightarrow> ml_inv (snd (ml_suspect i l))" "ml_inv l \<Longrightarrow> ml_inv (snd (declare_dead i l))"
  by (auto simp: ml_suspect_def declare_dead_def intro!: ml_inv_put dest: ml_get_entry split: option.split)

lemma marks_self [simp]:
  "ml_self_id (snd (ml_suspect i l)) = ml_self_id l" "ml_self_id (snd (declare_dead i l)) = ml_self_id l"
  by (auto simp: ml_suspect_def declare_dead_def split: option.split)

lemma ml_inv_remove: "ml_inv l \<Longrightarrow> ml_inv (snd (ml_remove i l))"
  by (auto simp: ml_inv_def ml_remove_def bt_remove_def)

lemma view_remove: "view (snd (ml_remove i l)) = (view l)(i := None)"
  by (auto simp: view_def ml_remove_def ml_get_def)

lemma alive_members_set:
  "ml_inv l \<Longrightarrow> set (map me_node_id (alive_members l)) = {i. \<exists>inc st. view l i = Some (inc, st) \<and> st \<noteq> Dead}"
  by (auto simp: alive_members_def view_def ml_get_def ml_inv_def bt_inv_distinct map_of_eq_Some_iff image_iff) fastforce+

lemma alive_members_distinct: "ml_inv l \<Longrightarrow> distinct (map me_node_id (alive_members l))"
proof -
  assume inv: "ml_inv l"
  then have "map me_node_id (map snd (ml_members l)) = map fst (ml_members l)" by (auto simp: ml_inv_def)
  moreover have "distinct (map fst (ml_members l))" using inv by (simp add: ml_inv_def bt_inv_distinct)
  ultimately have "distinct (map me_node_id (map snd (ml_members l)))" by (simp only:)
  then show ?thesis unfolding alive_members_def by (rule distinct_map_filter)
qed

section \<open>Merging\<close>

interpretation member_merge: lww_register view "\<lambda>l i v. snd (ml_apply i (snd v) (fst v) l)" "\<lambda>v. v"
  "\<lambda>l i v. i \<noteq> ml_self_id l" ml_inv
  by unfold_locales (auto simp: view_apply ml_inv_apply)

definition apply_all :: "(node_id \<times> member_state \<times> u64) list \<Rightarrow> member_list \<Rightarrow> member_list" where
  "apply_all us l = fold (\<lambda>(i, st, inc) l. snd (ml_apply i st inc l)) us l"

lemma apply_all_deliver: "apply_all us l = member_merge.deliver (map (\<lambda>(i, st, inc). (i, inc, st)) us) l"
  by (induction us arbitrary: l) (auto simp: apply_all_def)



end
