(* ===== verification/Swim_Dissemination.thy ===== *)
theory Swim_Dissemination
  imports Swim_Members
begin

text \<open>
  The piggyback queue of the SWIM protocol (\<open>swim/dissemination.rs\<close>) and the Lifeguard timeouts
  (\<open>swim/lifeguard.rs\<close>). The queue interprets \<open>budget_queue\<close>. The floating-point \<open>log2().ceil()\<close> of the
  transmit budget is the exact integer function, which it equals for the cluster sizes a 64-bit float
  represents exactly. The JSON codec of the piggyback bytes is a parameter. Durations are natural
  numbers, \<open>usize\<close> quantities that count list elements too.
\<close>

section \<open>Lifeguard\<close>

definition leading_zeros :: "u64 \<Rightarrow> nat" where
  "leading_zeros x = length (takeWhile (\<lambda>i. \<not> bit x i) (rev [0..<64]))"

definition log2_ceil :: "u64 \<Rightarrow> nat" where
  "log2_ceil n = (if n \<le> 1 then 0 else 64 - leading_zeros (n - 1))"

record lifeguard_config =
  max_health_score :: u32
  nack_penalty :: u32
  ack_reward :: u32
  base_suspicion_timeout :: nat
  min_suspicion_timeout :: nat
  max_suspicion_timeout :: nat

definition lifeguard_config_default :: lifeguard_config where
  "lifeguard_config_default = \<lparr>max_health_score = 8, nack_penalty = 1, ack_reward = 1,
     base_suspicion_timeout = 600, min_suspicion_timeout = 300, max_suspicion_timeout = 2400\<rparr>"

record health_multiplier =
  hm_config :: lifeguard_config
  hm_score :: u32

definition health_new :: "lifeguard_config \<Rightarrow> health_multiplier" where
  "health_new c = \<lparr>hm_config = c, hm_score = 0\<rparr>"

definition record_ack :: "health_multiplier \<Rightarrow> health_multiplier" where
  "record_ack h = h\<lparr>hm_score := saturating_sub (hm_score h) (ack_reward (hm_config h))\<rparr>"

text \<open>The addition wraps as in a release build.\<close>

definition record_nack :: "health_multiplier \<Rightarrow> health_multiplier" where
  "record_nack h = h\<lparr>hm_score := min (hm_score h + nack_penalty (hm_config h)) (max_health_score (hm_config h))\<rparr>"

definition multiplier :: "health_multiplier \<Rightarrow> nat" where
  "multiplier h = 1 + unat (hm_score h)"

definition scaled_probe_interval :: "health_multiplier \<Rightarrow> nat \<Rightarrow> nat" where
  "scaled_probe_interval h base = base * multiplier h"

definition scaled_probe_timeout :: "health_multiplier \<Rightarrow> nat \<Rightarrow> nat" where
  "scaled_probe_timeout h base = base * multiplier h"

text \<open>\<open>Duration::clamp\<close> asserts that the bounds are ordered: \<open>None\<close> is that panic.\<close>

definition clamp :: "nat \<Rightarrow> nat \<Rightarrow> nat \<Rightarrow> nat option" where
  "clamp x lo hi = (if lo \<le> hi then Some (max lo (min x hi)) else None)"

definition dynamic_suspicion_timeout :: "health_multiplier \<Rightarrow> nat \<Rightarrow> nat option" where
  "dynamic_suspicion_timeout h cluster_size =
     (let log_n = max (log2_ceil (saturating_add (word_of_nat cluster_size) 1)) 1;
          scale = min (log_n * multiplier h) (2 ^ 32 - 1);
          timeout = base_suspicion_timeout (hm_config h) * scale in
      clamp timeout (min_suspicion_timeout (hm_config h)) (max_suspicion_timeout (hm_config h)))"

lemma bit_top_bound:
  fixes x :: u64
  assumes "\<And>i. i \<ge> k \<Longrightarrow> \<not> bit x i" shows "unat x < 2 ^ k"
proof -
  have "take_bit k x = x" using assms by (intro bit_eqI) (metis bit_take_bit_iff not_le)
  then have "unat x = take_bit k (unat x)" by (metis unsigned_take_bit_eq)
  then show ?thesis by (metis take_bit_nat_less_exp)
qed

lemma bit_le_value:
  fixes x :: u64
  assumes "bit x k" shows "2 ^ k \<le> unat x"
proof -
  have "bit (unat x) k" using assms by (simp add: bit_unsigned_iff)
  then show ?thesis by (metis bit_iff_odd div_less even_zero not_less)
qed

lemma takeWhile_stops: "\<exists>x \<in> set xs. \<not> P x \<Longrightarrow> length (takeWhile P xs) < length xs"
  by (induction xs) auto

lemma leading_zeros_spec:
  assumes "x \<noteq> 0"
  shows "leading_zeros x < 64 \<and> 2 ^ (63 - leading_zeros x) \<le> unat x \<and> unat x < 2 ^ (64 - leading_zeros x)"
proof -
  let ?P = "\<lambda>i. \<not> bit x i" and ?l = "rev [0..<64]"
  have ex: "\<exists>i \<in> set ?l. \<not> ?P i"
  proof (rule ccontr)
    assume "\<not> ?thesis"
    then have "\<not> bit x i" for i
      using bit_imp_le_length [of x i] by (cases "i < 64") (auto simp: not_less)
    then show False using assms by (simp add: bit_eq_iff)
  qed
  let ?k = "leading_zeros x"
  have lt: "?k < length ?l"
    unfolding leading_zeros_def using ex by (rule takeWhile_stops)
  then have hit: "bit x (?l ! ?k)" using nth_length_takeWhile [of ?P ?l] by (simp add: leading_zeros_def)
  have idx: "?l ! j = 63 - j" if "j < 64" for j using that by (simp add: rev_nth)
  have miss: "\<not> bit x i" if "i \<ge> 64 - ?k" for i
  proof (cases "i < 64")
    case True
    then have lt: "63 - i < length (takeWhile ?P ?l)" using that unfolding leading_zeros_def by linarith
    then have "?P (takeWhile ?P ?l ! (63 - i))" using set_takeWhileD [OF nth_mem] by blast
    then have "\<not> bit x (?l ! (63 - i))" using takeWhile_nth [OF lt] by simp
    then show ?thesis using idx [of "63 - i"] True by simp
  next
    case False
    then show ?thesis using bit_imp_le_length [of x i] by auto
  qed
  show ?thesis using lt hit idx [of ?k] bit_le_value [of x "63 - ?k"] bit_top_bound [OF miss] by simp
qed

lemma log2_ceil_spec:
  "unat n \<le> 2 ^ log2_ceil n \<and> (\<forall>j < log2_ceil n. 2 ^ j < unat n) \<and> log2_ceil n \<le> 64"
proof (cases "n \<le> 1")
  case True
  then have "unat n \<le> 1" by (simp add: word_le_nat_alt)
  then show ?thesis using True by (simp add: log2_ceil_def)
next
  case False
  then have n0: "n - 1 \<noteq> 0" and u: "unat (n - 1) = unat n - 1" "unat n > 1"
    by (auto simp: word_le_nat_alt unat_sub not_le)
  note z = leading_zeros_spec [OF n0]
  have k: "log2_ceil n = 64 - leading_zeros (n - 1)" using False by (simp add: log2_ceil_def)
  have "2 ^ j < unat n" if "j < log2_ceil n" for j
  proof -
    have "(2 :: nat) ^ j \<le> 2 ^ (63 - leading_zeros (n - 1))" using that k by (intro power_increasing) auto
    also have "\<dots> \<le> unat n - 1" using z u by simp
    finally show ?thesis using u by linarith
  qed
  then show ?thesis using z u k by auto
qed

text \<open>The bit trick \<open>64 - (n - 1).leading_zeros()\<close> computes the ceiling of the binary logarithm: for
  every 64-bit \<open>n\<close> above 1 the result \<open>k\<close> is the least number with \<open>n \<le> 2^k\<close>, and for 0 and 1 it is 0.\<close>

theorem log2_ceil_is_least:
  "unat n \<le> 2 ^ log2_ceil n \<and> (\<forall>j < log2_ceil n. 2 ^ j < unat n) \<and> log2_ceil n \<le> 64"
  by (rule log2_ceil_spec)

text \<open>Lifeguard's suspicion timeout always stays within its configured band, never shrinks when the
  node gets less healthy, and is undefined (a panic) only when the band is empty.\<close>

theorem suspicion_timeout_in_band:
  "(dynamic_suspicion_timeout h n = None \<longleftrightarrow> max_suspicion_timeout (hm_config h) < min_suspicion_timeout (hm_config h)) \<and>
   (\<forall>t. dynamic_suspicion_timeout h n = Some t \<longrightarrow>
      min_suspicion_timeout (hm_config h) \<le> t \<and> t \<le> max_suspicion_timeout (hm_config h) \<and>
      (\<forall>sc t'. hm_score h \<le> sc \<longrightarrow> dynamic_suspicion_timeout (h\<lparr>hm_score := sc\<rparr>) n = Some t' \<longrightarrow> t \<le> t'))"
proof -
  define m l where "m = (2 :: nat) ^ 32 - 1" and "l = max (log2_ceil (saturating_add (word_of_nat n) 1)) 1"
  let ?c = "hm_config h"
  let ?raw = "\<lambda>h. base_suspicion_timeout ?c * min (l * multiplier h) m"
  let ?band = "\<lambda>x. max (min_suspicion_timeout ?c) (min x (max_suspicion_timeout ?c))"
  have def: "dynamic_suspicion_timeout h n = clamp (?raw h) (min_suspicion_timeout ?c) (max_suspicion_timeout ?c)"
    "dynamic_suspicion_timeout (h\<lparr>hm_score := sc\<rparr>) n =
       clamp (?raw (h\<lparr>hm_score := sc\<rparr>)) (min_suspicion_timeout ?c) (max_suspicion_timeout ?c)" for sc
    by (simp_all add: dynamic_suspicion_timeout_def Let_def m_def l_def del: power_numeral)
  have "?band (?raw h) \<le> ?band (?raw (h\<lparr>hm_score := sc\<rparr>))" if "hm_score h \<le> sc" for sc
    using that by (intro max.mono min.mono mult_le_mono order_refl) (auto simp: multiplier_def word_le_nat_alt)
  then show ?thesis unfolding def clamp_def by (simp add: not_le)
qed

section \<open>The piggyback queue\<close>

record membership_update =
  mu_node_id :: node_id
  mu_state :: member_state
  mu_incarnation :: u64

record dissemination_entry =
  de_update :: membership_update
  de_remaining :: nat

record dissemination_queue =
  dq_entries :: "dissemination_entry list"
  dq_lambda :: nat

definition dissemination_new :: "nat \<Rightarrow> dissemination_queue" where
  "dissemination_new lambda = \<lparr>dq_entries = [], dq_lambda = lambda\<rparr>"

text \<open>\<open>ceil_log2 n\<close> is \<open>(n as f64).log2().ceil()\<close>.\<close>

fun ceil_log2 :: "nat \<Rightarrow> nat" where
  "ceil_log2 n = (if n \<le> 1 then 0 else Suc (ceil_log2 ((n + 1) div 2)))"

declare ceil_log2.simps [simp del]

definition transmit_budget :: "dissemination_queue \<Rightarrow> nat \<Rightarrow> nat" where
  "transmit_budget q cluster_size = dq_lambda q * max (ceil_log2 (max cluster_size 2)) 1"

definition dominates :: "membership_update \<Rightarrow> membership_update \<Rightarrow> bool" where
  "dominates u v \<longleftrightarrow> mu_incarnation u > mu_incarnation v \<or>
     mu_incarnation u = mu_incarnation v \<and> mu_state u > mu_state v"

fun replace_first :: "membership_update \<Rightarrow> nat \<Rightarrow> dissemination_entry list \<Rightarrow> dissemination_entry list option" where
  "replace_first u budget [] = None"
| "replace_first u budget (e # es) =
     (if mu_node_id (de_update e) = mu_node_id u
      then Some ((if dominates u (de_update e) then \<lparr>de_update = u, de_remaining = budget\<rparr> else e) # es)
      else map_option ((#) e) (replace_first u budget es))"

definition dq_enqueue :: "membership_update \<Rightarrow> nat \<Rightarrow> dissemination_queue \<Rightarrow> dissemination_queue" where
  "dq_enqueue u cluster_size q =
     (let budget = transmit_budget q cluster_size in
      case replace_first u budget (dq_entries q) of
        Some es \<Rightarrow> q\<lparr>dq_entries := es\<rparr>
      | None \<Rightarrow> q\<lparr>dq_entries := dq_entries q @ [\<lparr>de_update = u, de_remaining = budget\<rparr>]\<rparr>)"

definition use_one :: "dissemination_entry \<Rightarrow> dissemination_entry" where
  "use_one e = e\<lparr>de_remaining := de_remaining e - 1\<rparr>"

definition by_priority :: "dissemination_entry list \<Rightarrow> dissemination_entry list" where
  "by_priority es = sort_key (\<lambda>e. 2 - priority (mu_state (de_update e))) es"

definition dq_take :: "nat \<Rightarrow> dissemination_queue \<Rightarrow> membership_update list \<times> dissemination_queue" where
  "dq_take max_count q =
     (let es = by_priority (dq_entries q); count = min max_count (length es) in
      (map de_update (take count es),
       q\<lparr>dq_entries := filter (\<lambda>e. de_remaining e > 0) (map use_one (take count es) @ drop count es)\<rparr>))"

text \<open>\<open>encode\<close> stands for \<open>serde_json::to_vec\<close> of a list of updates and \<open>decode\<close> for \<open>from_slice\<close>.\<close>

type_synonym piggyback = "u8 list"

definition pack_piggyback ::
  "(membership_update list \<Rightarrow> piggyback option) \<Rightarrow> nat \<Rightarrow> dissemination_queue \<Rightarrow> piggyback \<times> dissemination_queue" where
  "pack_piggyback encode max_updates q =
     (case dq_take max_updates q of (updates, q') \<Rightarrow>
        (if updates = [] then ([], q')
         else (case encode updates of Some bytes \<Rightarrow> bytes | None \<Rightarrow> [], q')))"

definition unpack_piggyback :: "(piggyback \<Rightarrow> membership_update list option) \<Rightarrow> piggyback \<Rightarrow> membership_update list" where
  "unpack_piggyback decode bytes =
     (if bytes = [] then [] else case decode bytes of Some us \<Rightarrow> us | None \<Rightarrow> [])"

definition purge_node :: "node_id \<Rightarrow> dissemination_queue \<Rightarrow> dissemination_queue" where
  "purge_node i q = q\<lparr>dq_entries := filter (\<lambda>e. mu_node_id (de_update e) \<noteq> i) (dq_entries q)\<rparr>"

definition membership_update_of :: "node_id \<Rightarrow> member_state \<Rightarrow> u64 \<Rightarrow> membership_update" where
  "membership_update_of i st inc = \<lparr>mu_node_id = i, mu_state = st, mu_incarnation = inc\<rparr>"

section \<open>Facts about the queue\<close>

definition dq_nodes :: "dissemination_queue \<Rightarrow> node_id list" where
  "dq_nodes q = map (\<lambda>e. mu_node_id (de_update e)) (dq_entries q)"

definition dq_inv :: "dissemination_queue \<Rightarrow> bool" where
  "dq_inv q \<longleftrightarrow> dq_lambda q > 0 \<and> (\<forall>e \<in> set (dq_entries q). de_remaining e > 0) \<and> distinct (dq_nodes q)"

definition owed :: "dissemination_entry list \<Rightarrow> membership_update multiset" where
  "owed es = (\<Sum>e \<in># mset es. replicate_mset (de_remaining e) (de_update e))"

lemma owed_simps [simp]:
  "owed [] = {#}" "owed (e # es) = replicate_mset (de_remaining e) (de_update e) + owed es"
  "owed (xs @ ys) = owed xs + owed ys"
  by (simp_all add: owed_def)

lemma owed_perm: "mset xs = mset ys \<Longrightarrow> owed xs = owed ys"
  by (simp add: owed_def)

lemma owed_filter: "owed (filter (\<lambda>e. de_remaining e > 0) es) = owed es"
  by (induction es) auto

lemma owed_use_one:
  "\<forall>e \<in> set es. de_remaining e > 0 \<Longrightarrow> owed es = mset (map de_update es) + owed (map use_one es)"
proof (induction es)
  case (Cons e es)
  then obtain k where "de_remaining e = Suc k" by (auto simp: gr0_conv_Suc)
  with Cons show ?case by (simp add: use_one_def)
qed simp

lemma owed_empty: "owed es = {#} \<longleftrightarrow> (\<forall>e \<in> set es. de_remaining e = 0)"
  by (induction es) auto

lemma by_priority_perm [simp]: "mset (by_priority es) = mset es" "set (by_priority es) = set es" "length (by_priority es) = length es" "by_priority es = [] \<longleftrightarrow> es = []"
  by (simp_all add: by_priority_def) (metis length_0_conv length_sort)

lemma dq_take_owed:
  assumes "\<forall>e \<in> set (dq_entries q). de_remaining e > 0"
  shows "owed (dq_entries q) = mset (fst (dq_take n q)) + owed (dq_entries (snd (dq_take n q)))"
proof -
  let ?es = "by_priority (dq_entries q)" let ?k = "min n (length ?es)"
  have "owed (dq_entries q) = owed (take ?k ?es @ drop ?k ?es)" using owed_perm [of "dq_entries q" ?es] by simp
  moreover have "\<forall>e \<in> set (take ?k ?es). de_remaining e > 0" using assms in_set_takeD by fastforce
  ultimately show ?thesis using owed_use_one [of "take ?k ?es"]
    by (simp add: dq_take_def Let_def owed_filter del: filter_append append_take_drop_id)
qed

lemma dq_take_entries:
  "set (dq_nodes (snd (dq_take n q))) \<subseteq> set (dq_nodes q)" "distinct (dq_nodes q) \<Longrightarrow> distinct (dq_nodes (snd (dq_take n q)))"
  "\<forall>e \<in> set (dq_entries (snd (dq_take n q))). de_remaining e > 0" "dq_lambda (snd (dq_take n q)) = dq_lambda q"
proof -
  let ?es = "by_priority (dq_entries q)" let ?k = "min n (length ?es)"
  let ?f = "\<lambda>e. mu_node_id (de_update e)"
  have m: "map ?f (map use_one (take ?k ?es) @ drop ?k ?es) = map ?f ?es"
    unfolding map_append map_map by (simp add: use_one_def comp_def take_map [symmetric] drop_map [symmetric])
  have p: "mset (map ?f ?es) = mset (dq_nodes q)" by (simp add: dq_nodes_def mset_map)
  have e: "dq_nodes (snd (dq_take n q)) =
      map ?f (filter (\<lambda>e. de_remaining e > 0) (map use_one (take ?k ?es) @ drop ?k ?es))"
    by (simp add: dq_nodes_def dq_take_def Let_def)
  show "set (dq_nodes (snd (dq_take n q))) \<subseteq> set (dq_nodes q)"
    unfolding e using m p by (metis (no_types, lifting) filter_is_subset image_mono list.set_map mset_eq_setD)
  show "distinct (dq_nodes (snd (dq_take n q)))" if "distinct (dq_nodes q)"
    unfolding e by (rule distinct_map_filter) (use m p that mset_eq_imp_distinct_iff in metis)
qed (auto simp: dq_take_def Let_def)

interpretation piggyback: budget_queue dq_take "\<lambda>q. owed (dq_entries q)" dq_inv
proof
  fix q n assume inv: "dq_inv q"
  show "owed (dq_entries q) = mset (fst (dq_take n q)) + owed (dq_entries (snd (dq_take n q)))"
    using inv dq_take_owed by (simp add: dq_inv_def)
  show "length (fst (dq_take n q)) \<le> n" by (simp add: dq_take_def Let_def)
  show "dq_inv (snd (dq_take n q))" using inv dq_take_entries by (simp add: dq_inv_def)
  show "fst (dq_take n q) \<noteq> []" if "0 < n" "owed (dq_entries q) \<noteq> {#}"
    using that by (cases "dq_entries q = []") (auto simp: dq_take_def Let_def)
qed

lemma replace_first_spec:
  "replace_first u b es = None \<longleftrightarrow> mu_node_id u \<notin> mu_node_id ` de_update ` set es"
  "replace_first u b es = Some es' \<Longrightarrow> map (\<lambda>e. mu_node_id (de_update e)) es' = map (\<lambda>e. mu_node_id (de_update e)) es"
  "replace_first u b es = Some es' \<Longrightarrow> set es' \<subseteq> insert \<lparr>de_update = u, de_remaining = b\<rparr> (set es)"
  by (induction es arbitrary: es') (auto split: if_splits)

lemma transmit_budget_pos: "dq_lambda q > 0 \<Longrightarrow> transmit_budget q n > 0"
  by (simp add: transmit_budget_def)

lemma dq_inv_new: "lambda > 0 \<Longrightarrow> dq_inv (dissemination_new lambda)"
  by (simp add: dq_inv_def dissemination_new_def dq_nodes_def)

lemma dq_inv_enqueue:
  assumes "dq_inv q" shows "dq_inv (dq_enqueue u n q)"
proof (cases "replace_first u (transmit_budget q n) (dq_entries q)")
  case None
  then show ?thesis using assms replace_first_spec(1) [of u "transmit_budget q n" "dq_entries q"] transmit_budget_pos [of q n]
    by (auto simp: dq_inv_def dq_enqueue_def dq_nodes_def image_image)
next
  case (Some es)
  have "\<forall>e \<in> set es. de_remaining e > 0"
    using assms replace_first_spec(3) [OF Some] transmit_budget_pos [of q n] by (fastforce simp: dq_inv_def)
  moreover have "distinct (map (\<lambda>e. mu_node_id (de_update e)) es)"
    using assms replace_first_spec(2) [OF Some] by (simp add: dq_inv_def dq_nodes_def)
  ultimately show ?thesis using assms Some by (simp add: dq_inv_def dq_enqueue_def dq_nodes_def)
qed

lemma replace_first_dominating:
  "replace_first u b es = Some es' \<Longrightarrow> \<forall>e \<in> set es. mu_node_id (de_update e) = mu_node_id u \<longrightarrow> dominates u (de_update e) \<Longrightarrow>
   \<lparr>de_update = u, de_remaining = b\<rparr> \<in> set es'"
  by (induction es arbitrary: es') (auto split: if_splits)

lemma enqueue_dominating:
  "\<forall>e \<in> set (dq_entries q). mu_node_id (de_update e) = mu_node_id u \<longrightarrow> dominates u (de_update e) \<Longrightarrow>
   \<lparr>de_update = u, de_remaining = transmit_budget q n\<rparr> \<in> set (dq_entries (dq_enqueue u n q))"
  by (auto simp: dq_enqueue_def Let_def replace_first_dominating split: option.split)

lemma dq_inv_purge: "dq_inv q \<Longrightarrow> dq_inv (purge_node i q)"
  by (auto simp: dq_inv_def purge_node_def dq_nodes_def intro: distinct_map_filter)

lemma dq_inv_pack: "dq_inv q \<Longrightarrow> dq_inv (snd (pack_piggyback encode n q))"
  using piggyback.inv_take by (simp add: pack_piggyback_def case_prod_unfold)

text \<open>Gossip is sent exactly as often as budgeted and then stops: from any well-formed queue, however
  many messages are packed, the updates handed out and those still owed together are exactly the remaining
  transmissions of every entry; no message carries more than its limit; and after as many non-empty packs
  as there are owed transmissions the queue is empty, every update having been sent its exact budget.\<close>

theorem gossip_is_sent_exactly_its_budget:
  assumes "dq_inv q" "0 < n" "size (owed (dq_entries q)) \<le> rounds"
  shows "length (fst (dq_take n q)) \<le> n \<and>
    mset (fst (piggyback.drain n rounds q)) = owed (dq_entries q) \<and>
    dq_entries (snd (piggyback.drain n rounds q)) = []"
proof -
  have inv: "dq_inv (snd (piggyback.drain n rounds q))" using assms(1) by (rule piggyback.drain_inv)
  have d: "mset (fst (piggyback.drain n rounds q)) = owed (dq_entries q)"
    "owed (dq_entries (snd (piggyback.drain n rounds q))) = {#}"
    using piggyback.drain_complete [OF assms] by simp_all
  have "dq_entries (snd (piggyback.drain n rounds q)) = []"
    using d(2) inv by (cases "dq_entries (snd (piggyback.drain n rounds q))") (auto simp: dq_inv_def owed_empty)
  then show ?thesis using d piggyback.take_bound [OF assms(1)] by simp
qed

definition one_update_queue :: dissemination_queue where
  "one_update_queue = dq_enqueue (membership_update_of (NodeId 4) Suspect 0) 3 (dissemination_new 3)"

lemma ceil_log2_least: "n \<le> 2 ^ ceil_log2 n \<and> (\<forall>j < ceil_log2 n. 2 ^ j < n)"
proof (induction n rule: ceil_log2.induct)
  case (1 n)
  show ?case
  proof (cases "n \<le> 1")
    case True
    then show ?thesis by (simp add: ceil_log2.simps)
  next
    case False
    let ?m = "(n + 1) div 2"
    have k: "ceil_log2 n = Suc (ceil_log2 ?m)" using False by (simp add: ceil_log2.simps [of n])
    have IH: "?m \<le> 2 ^ ceil_log2 ?m" "\<forall>j < ceil_log2 ?m. 2 ^ j < ?m" using 1 [OF False] by blast+
    have "2 ^ j < n" if "j < Suc (ceil_log2 ?m)" for j
    proof (cases j)
      case (Suc i)
      then have "2 ^ i < ?m" using IH(2) that by simp
      then show ?thesis using Suc by (simp add: algebra_simps)
    qed (use False in simp)
    moreover have "n \<le> 2 * ?m" by simp
    then have "n \<le> 2 ^ Suc (ceil_log2 ?m)" using IH(1) unfolding power_Suc by linarith
    ultimately show ?thesis unfolding k by blast
  qed
qed

end
