(* ===== verification/Swim_Probe.thy ===== *)
theory Swim_Probe
  imports Swim_Dissemination
begin

text \<open>
  The failure detector of the SWIM protocol (\<open>swim/probe.rs\<close>): a state machine from events to actions,
  driven by the caller's clock. Instants and durations are natural numbers (milliseconds), and
  \<open>saturating_duration_since\<close> is their truncated difference. Counters that wrap are 64-bit words.
  A suspicion timeout that panics (an empty Lifeguard band) makes the step fail, as \<open>None\<close>.
\<close>

section \<open>Configuration, events, actions\<close>

definition PROBE_HISTORY_SIZE :: nat where "PROBE_HISTORY_SIZE = 16"

definition MAX_DEMAND_QUEUE :: nat where "MAX_DEMAND_QUEUE = 32"

datatype probe_mode = Periodic | Reactive nat

record swim_config =
  probe_interval :: nat
  probe_timeout :: nat
  indirect_probes :: nat
  suspicion_timeout :: nat
  dead_reprobe_interval :: nat
  cfg_probe_mode :: probe_mode
  cfg_lifeguard :: "lifeguard_config option"

definition swim_config_default :: swim_config where
  "swim_config_default = \<lparr>probe_interval = 200, probe_timeout = 15000, indirect_probes = 2,
     suspicion_timeout = 45000, dead_reprobe_interval = 1000, cfg_probe_mode = Periodic, cfg_lifeguard = None\<rparr>"

datatype swim_event =
    Tick
  | AckReceived node_id u64
  | IndirectAckReceived node_id u64
  | SendFailed node_id

datatype swim_diag_event =
    ProbeAcked node_id u64 string
  | ProbeTimedOut node_id u64 string nat

datatype swim_action =
    SendPing node_id u64
  | SendPingReq node_id node_id u64
  | SuspectNode node_id
  | DeclareDead node_id
  | Diag swim_diag_event

datatype probe_phase =
    Idle
  | WaitingDirectAck node_id u64 nat
  | WaitingIndirectAck node_id u64 nat

record suspicion_timer =
  stm_node_id :: node_id
  stm_started_at :: nat

record swim_probe =
  sp_config :: swim_config
  sp_now :: nat
  step_counter :: u64
  next_probe_at :: "nat option"
  sp_sequence :: u64
  phase :: probe_phase
  probe_index :: nat
  probe_order :: "node_id list"
  suspicion_timers :: "suspicion_timer list"
  recent_targets :: "node_id list"
  next_reprobe_at :: "nat option"
  reprobe_index :: u64
  demand_queue :: "node_id list"
  next_sweep_at :: "nat option"
  health :: "health_multiplier option"

definition swim_probe_new :: "swim_config \<Rightarrow> nat \<Rightarrow> swim_probe" where
  "swim_probe_new c now = \<lparr>sp_config = c, sp_now = now, step_counter = 0,
     next_probe_at = Some (now + probe_interval c), sp_sequence = 0, phase = Idle, probe_index = 0,
     probe_order = [], suspicion_timers = [], recent_targets = [],
     next_reprobe_at = (if dead_reprobe_interval c > 0 then Some (now + dead_reprobe_interval c) else None),
     reprobe_index = 0, demand_queue = [],
     next_sweep_at = (case cfg_probe_mode c of Reactive i \<Rightarrow> Some (now + i) | Periodic \<Rightarrow> None),
     health = map_option health_new (cfg_lifeguard c)\<rparr>"

section \<open>Choosing targets\<close>

definition next_sequence :: "swim_probe \<Rightarrow> u64 \<times> swim_probe" where
  "next_sequence p = (sp_sequence p + 1, p\<lparr>sp_sequence := sp_sequence p + 1\<rparr>)"

definition list_swap :: "nat \<Rightarrow> nat \<Rightarrow> 'a list \<Rightarrow> 'a list" where
  "list_swap i j xs = xs[i := xs ! j, j := xs ! i]"

text \<open>The loop \<open>for i in (1..n).rev()\<close>, from \<open>i\<close> down.\<close>

fun shuffle :: "u64 \<Rightarrow> nat \<Rightarrow> 'a list \<Rightarrow> 'a list" where
  "shuffle c 0 xs = xs"
| "shuffle c (Suc k) xs =
     shuffle c k (list_swap (Suc k) (unat (c * 31 + word_of_nat (Suc k)) mod (Suc k + 1)) xs)"

definition pick_probe_target :: "member_list \<Rightarrow> swim_probe \<Rightarrow> node_id option \<times> swim_probe" where
  "pick_probe_target l p =
     (let alive = alive_members l in
      if alive = [] then (None, p)
      else
        let p1 = (if probe_index p \<ge> length (probe_order p) \<or> length (probe_order p) \<noteq> length alive
                  then p\<lparr>probe_order := shuffle (step_counter p) (length alive - 1) (map me_node_id alive), probe_index := 0\<rparr>
                  else p) in
        (Some (probe_order p1 ! probe_index p1), p1\<lparr>probe_index := probe_index p1 + 1\<rparr>))"

definition pick_relays :: "member_list \<Rightarrow> node_id \<Rightarrow> swim_probe \<Rightarrow> node_id list" where
  "pick_relays l target p =
     (let alive = filter (\<lambda>e. me_node_id e \<noteq> target) (alive_members l);
          k = min (indirect_probes (sp_config p)) (length alive);
          start = (if alive = [] then 0 else unat (step_counter p) mod length alive) in
      map (\<lambda>i. me_node_id (alive ! ((start + i) mod length alive))) [0..<k])"

definition clone_shallow :: "member_list \<Rightarrow> member_list" where
  "clone_shallow l = fold (\<lambda>e c. snd (ml_apply (me_node_id e) (me_state e) (me_incarnation e) c))
     (all_members l) (member_list_new (ml_self_id l))"

section \<open>The steps\<close>

definition remember_target :: "node_id \<Rightarrow> swim_probe \<Rightarrow> swim_probe" where
  "remember_target i p =
     p\<lparr>recent_targets := (if length (recent_targets p) \<ge> PROBE_HISTORY_SIZE then tl (recent_targets p) else recent_targets p) @ [i]\<rparr>"

definition start_probe_for :: "node_id \<Rightarrow> swim_probe \<Rightarrow> swim_action list \<times> swim_probe" where
  "start_probe_for target p =
     (case next_sequence (remember_target target p) of (seq, p1) \<Rightarrow>
        ([SendPing target seq], p1\<lparr>phase := WaitingDirectAck target seq (sp_now p1)\<rparr>))"

definition not_due :: "nat option \<Rightarrow> nat \<Rightarrow> bool" where
  "not_due at now \<longleftrightarrow> (case at of Some t \<Rightarrow> now < t | None \<Rightarrow> False)"

definition maybe_start_probe :: "member_list \<Rightarrow> swim_probe \<Rightarrow> swim_action list \<times> swim_probe" where
  "maybe_start_probe l p =
     (if not_due (next_probe_at p) (sp_now p) then ([], p)
      else if phase p \<noteq> Idle then ([], p)
      else
        let p1 = p\<lparr>next_probe_at := Some (sp_now p + probe_interval (sp_config p))\<rparr> in
        (case pick_probe_target (clone_shallow l) p1 of
           (None, p2) \<Rightarrow> ([], p2)
         | (Some target, p2) \<Rightarrow> start_probe_for target p2))"

definition start_suspicion_timer :: "node_id \<Rightarrow> swim_probe \<Rightarrow> swim_probe" where
  "start_suspicion_timer i p =
     (if \<exists>t \<in> set (suspicion_timers p). stm_node_id t = i then p
      else p\<lparr>suspicion_timers := suspicion_timers p @ [\<lparr>stm_node_id = i, stm_started_at = sp_now p\<rparr>]\<rparr>)"

definition cancel_suspicion_timer :: "node_id \<Rightarrow> swim_probe \<Rightarrow> swim_probe" where
  "cancel_suspicion_timer i p = p\<lparr>suspicion_timers := filter (\<lambda>t. stm_node_id t \<noteq> i) (suspicion_timers p)\<rparr>"

definition check_probe_timeout :: "member_list \<Rightarrow> swim_probe \<Rightarrow> swim_action list \<times> swim_probe" where
  "check_probe_timeout l p =
     (case phase p of
        WaitingDirectAck target seq sent_at \<Rightarrow>
          (if sp_now p - sent_at \<ge> probe_timeout (sp_config p)
           then (Diag (ProbeTimedOut target seq ''direct'' (probe_timeout (sp_config p))) #
                   map (\<lambda>relay. SendPingReq relay target seq) (pick_relays l target p),
                 p\<lparr>phase := WaitingIndirectAck target seq (sp_now p)\<rparr>)
           else ([], p))
      | WaitingIndirectAck target seq sent_at \<Rightarrow>
          (if sp_now p - sent_at \<ge> probe_timeout (sp_config p)
           then ([Diag (ProbeTimedOut target seq ''indirect'' (probe_timeout (sp_config p))), SuspectNode target],
                 (start_suspicion_timer target p)\<lparr>phase := Idle, health := map_option record_nack (health p)\<rparr>)
           else ([], p))
      | Idle \<Rightarrow> ([], p))"

definition probe_answered :: "node_id \<Rightarrow> swim_probe \<Rightarrow> swim_probe" where
  "probe_answered i p = (cancel_suspicion_timer i p)\<lparr>phase := Idle, health := map_option record_ack (health p)\<rparr>"

definition probe_handle_ack :: "node_id \<Rightarrow> u64 \<Rightarrow> swim_probe \<Rightarrow> swim_action list \<times> swim_probe" where
  "probe_handle_ack src seq p =
     (case phase p of
        WaitingDirectAck target expected _ \<Rightarrow>
          (if src = target \<and> seq = expected then ([Diag (ProbeAcked src seq ''direct'')], probe_answered src p) else ([], p))
      | WaitingIndirectAck target expected _ \<Rightarrow>
          (if src = target \<and> seq = expected then ([Diag (ProbeAcked src seq ''indirect'')], probe_answered src p) else ([], p))
      | Idle \<Rightarrow> ([], p))"

definition probe_handle_indirect_ack :: "node_id \<Rightarrow> u64 \<Rightarrow> swim_probe \<Rightarrow> swim_action list \<times> swim_probe" where
  "probe_handle_indirect_ack target seq p =
     (case phase p of
        WaitingIndirectAck expected expected_seq _ \<Rightarrow>
          (if target = expected \<and> seq = expected_seq
           then ([Diag (ProbeAcked target seq ''indirect'')], probe_answered target p) else ([], p))
      | _ \<Rightarrow> ([], p))"

definition is_currently_probing :: "node_id \<Rightarrow> swim_probe \<Rightarrow> bool" where
  "is_currently_probing i p =
     (case phase p of WaitingDirectAck t _ _ \<Rightarrow> t = i | WaitingIndirectAck t _ _ \<Rightarrow> t = i | Idle \<Rightarrow> False)"

fun expire_each :: "node_id list \<Rightarrow> member_list \<Rightarrow> swim_probe \<Rightarrow> swim_action list \<times> member_list \<times> swim_probe" where
  "expire_each [] l p = ([], l, p)"
| "expire_each (i # is) l p =
     (let still_suspect = (case ml_get l i of Some e \<Rightarrow> me_state e = Suspect | None \<Rightarrow> False);
          (declared, l1) = (if still_suspect then declare_dead i l else (False, l));
          p1 = (if declared \<and> is_currently_probing i p then p\<lparr>phase := Idle\<rparr> else p);
          (as, l2, p2) = expire_each is l1 (cancel_suspicion_timer i p1) in
      ((if declared then [DeclareDead i] else []) @ as, l2, p2))"

definition effective_timeout :: "member_list \<Rightarrow> swim_probe \<Rightarrow> nat option" where
  "effective_timeout l p =
     (case health p of
        Some h \<Rightarrow> map_option (max (suspicion_timeout (sp_config p))) (dynamic_suspicion_timeout h (ml_len l))
      | None \<Rightarrow> Some (suspicion_timeout (sp_config p)))"

definition expired_nodes :: "nat \<Rightarrow> swim_probe \<Rightarrow> node_id list" where
  "expired_nodes timeout p =
     map stm_node_id (filter (\<lambda>t. sp_now p - stm_started_at t \<ge> timeout) (suspicion_timers p))"

definition check_suspicion_timeouts ::
  "member_list \<Rightarrow> swim_probe \<Rightarrow> (swim_action list \<times> member_list \<times> swim_probe) option" where
  "check_suspicion_timeouts l p =
     map_option (\<lambda>timeout. expire_each (expired_nodes timeout p) l p) (effective_timeout l p)"

definition maybe_reprobe_dead :: "member_list \<Rightarrow> swim_probe \<Rightarrow> swim_action list \<times> swim_probe" where
  "maybe_reprobe_dead l p =
     (if dead_reprobe_interval (sp_config p) = 0 then ([], p)
      else if not_due (next_reprobe_at p) (sp_now p) then ([], p)
      else
        let p1 = p\<lparr>next_reprobe_at := Some (sp_now p + dead_reprobe_interval (sp_config p))\<rparr>;
            dead = dead_members l in
        if dead = [] then ([], p1)
        else
          let idx = unat (reprobe_index p1) mod length dead in
          (case next_sequence (p1\<lparr>reprobe_index := reprobe_index p1 + 1\<rparr>) of (seq, p2) \<Rightarrow>
             ([SendPing (me_node_id (dead ! idx)) seq], p2)))"

definition push_demand :: "node_id \<Rightarrow> swim_probe \<Rightarrow> swim_probe" where
  "push_demand i p =
     (if length (demand_queue p) < MAX_DEMAND_QUEUE then p\<lparr>demand_queue := demand_queue p @ [i]\<rparr> else p)"

definition enqueue_demand_probe :: "node_id \<Rightarrow> swim_probe \<Rightarrow> swim_probe" where
  "enqueue_demand_probe i p =
     (if cfg_probe_mode (sp_config p) = Periodic then p
      else if is_currently_probing i p \<or> i \<in> set (demand_queue p) then p
      else push_demand i p)"

definition handle_send_failed :: "node_id \<Rightarrow> member_list \<Rightarrow> swim_probe \<Rightarrow> swim_action list \<times> swim_probe" where
  "handle_send_failed target l p =
     (case ml_get l target of
        None \<Rightarrow> ([], p)
      | Some e \<Rightarrow>
          (if me_state e = Dead then ([], p)
           else if is_currently_probing target p then ([], p)
           else if target \<in> set (demand_queue p) then ([], p)
           else if phase p = Idle then start_probe_for target p
           else ([], push_demand target p)))"

definition maybe_start_demand_probe :: "swim_probe \<Rightarrow> swim_action list \<times> swim_probe" where
  "maybe_start_demand_probe p =
     (if phase p \<noteq> Idle then ([], p)
      else case demand_queue p of [] \<Rightarrow> ([], p) | i # is \<Rightarrow> start_probe_for i (p\<lparr>demand_queue := is\<rparr>))"

definition maybe_safety_sweep :: "member_list \<Rightarrow> swim_probe \<Rightarrow> swim_action list \<times> swim_probe" where
  "maybe_safety_sweep l p =
     (if not_due (next_sweep_at p) (sp_now p) then ([], p)
      else case cfg_probe_mode (sp_config p) of
        Periodic \<Rightarrow> ([], p)
      | Reactive interval \<Rightarrow>
          let p1 = p\<lparr>next_sweep_at := Some (sp_now p + interval)\<rparr> in
          if phase p1 \<noteq> Idle then ([], p1)
          else case pick_probe_target (clone_shallow l) p1 of
            (None, p2) \<Rightarrow> ([], p2)
          | (Some target, p2) \<Rightarrow> start_probe_for target p2)"

definition start_probes :: "member_list \<Rightarrow> swim_probe \<Rightarrow> swim_action list \<times> swim_probe" where
  "start_probes l p =
     (case cfg_probe_mode (sp_config p) of
        Periodic \<Rightarrow> maybe_start_probe l p
      | Reactive _ \<Rightarrow>
          (case maybe_start_demand_probe p of (a1, p1) \<Rightarrow>
           case maybe_safety_sweep l p1 of (a2, p2) \<Rightarrow> (a1 @ a2, p2)))"

fun probe_step :: "nat \<Rightarrow> swim_event \<Rightarrow> member_list \<Rightarrow> swim_probe \<Rightarrow> (swim_action list \<times> member_list \<times> swim_probe) option" where
  "probe_step now Tick l p =
     (case check_probe_timeout l (p\<lparr>sp_now := now, step_counter := step_counter p + 1\<rparr>) of (a1, p1) \<Rightarrow>
      case check_suspicion_timeouts l p1 of
        None \<Rightarrow> None
      | Some (a2, l2, p2) \<Rightarrow>
          (case start_probes l2 p2 of (a3, p3) \<Rightarrow>
           case maybe_reprobe_dead l2 p3 of (a4, p4) \<Rightarrow> Some (a1 @ a2 @ a3 @ a4, l2, p4)))"
| "probe_step now (AckReceived src seq) l p =
     (case probe_handle_ack src seq (p\<lparr>sp_now := now\<rparr>) of (a, p') \<Rightarrow> Some (a, l, p'))"
| "probe_step now (IndirectAckReceived target seq) l p =
     (case probe_handle_indirect_ack target seq (p\<lparr>sp_now := now\<rparr>) of (a, p') \<Rightarrow> Some (a, l, p'))"
| "probe_step now (SendFailed to) l p =
     (case handle_send_failed to l (p\<lparr>sp_now := now\<rparr>) of (a, p') \<Rightarrow> Some (a, l, p'))"


section \<open>The rotation of probe targets\<close>

lemma mset_list_swap: "i < length xs \<Longrightarrow> j < length xs \<Longrightarrow> mset (list_swap i j xs) = mset xs"
  unfolding list_swap_def by (rule mset_swap)

lemma length_list_swap [simp]: "length (list_swap i j xs) = length xs"
  by (simp add: list_swap_def)

lemma mset_shuffle: "k < length xs \<Longrightarrow> mset (shuffle c k xs) = mset xs"
proof (induction c k xs rule: shuffle.induct)
  case (2 c k xs)
  define j where "j = unat (c * 31 + word_of_nat (Suc k)) mod (Suc k + 1)"
  have j: "j < Suc k + 1" unfolding j_def by (rule mod_less_divisor) simp
  have "mset (shuffle c k (list_swap (Suc k) j xs)) = mset (list_swap (Suc k) j xs)"
    using 2 unfolding j_def by simp
  then show ?case using 2(2) j unfolding shuffle.simps j_def [symmetric] by (simp add: mset_list_swap)
qed simp

lemma length_shuffle [simp]: "length (shuffle c k xs) = length xs"
  by (induction c k xs rule: shuffle.induct) simp_all

lemma clone_shallow_view:
  assumes "ml_inv l"
  shows "view (clone_shallow l) = view l" "ml_inv (clone_shallow l)" "ml_self_id (clone_shallow l) = ml_self_id l"
proof -
  let ?step = "\<lambda>e c. snd (ml_apply (me_node_id e) (me_state e) (me_incarnation e) c)"
  have self: "ml_self_id (fold ?step es c) = ml_self_id c" for es c by (induction es arbitrary: c) simp_all
  have inv: "ml_inv c \<Longrightarrow> ml_inv (fold ?step es c)" for es c by (induction es arbitrary: c) (simp_all add: ml_inv_apply)
  have views: "view (fold ?step es c) i =
      (case map_of (map (\<lambda>e. (me_node_id e, e)) es) i of Some e \<Rightarrow> Some (me_incarnation e, me_state e) | None \<Rightarrow> view c i)"
    if "distinct (map me_node_id es)" "\<forall>e \<in> set es. me_node_id e \<noteq> ml_self_id c \<and> view c (me_node_id e) = None" for es c i
    using that
  proof (induction es arbitrary: c)
    case (Cons e es)
    have v: "view (?step e c) = (view c)(me_node_id e \<mapsto> (me_incarnation e, me_state e))"
      using Cons.prems(2) by (simp add: view_apply)
    have "map_of (map (\<lambda>e. (me_node_id e, e)) es) (me_node_id e) = None"
      using Cons.prems(1) by (auto simp: map_of_eq_None_iff)
    moreover have "\<forall>x \<in> set es. me_node_id x \<noteq> me_node_id e" using Cons.prems(1) by (metis distinct.simps(2) image_eqI list.set_map list.simps(9))
    ultimately show ?case using Cons.IH [of "?step e c"] Cons.prems
      by (cases "i = me_node_id e") (simp_all add: v split: option.split)
  qed simp
  have keyed: "map (\<lambda>e. (me_node_id e, e)) (all_members l) = ml_members l"
    using assms by (auto simp: all_members_def ml_inv_def intro!: map_idI)
  have "map me_node_id (all_members l) = map fst (ml_members l)"
    by (subst keyed [symmetric]) simp
  then have "distinct (map me_node_id (all_members l))" using assms by (simp add: ml_inv_def bt_inv_distinct)
  moreover have "\<forall>e \<in> set (all_members l). me_node_id e \<noteq> ml_self_id l" using assms by (auto simp: ml_inv_def all_members_def)
  ultimately show "view (clone_shallow l) = view l"
    unfolding clone_shallow_def
    by (subst fun_eq_iff, subst views)
      (auto simp: keyed view_def ml_get_def member_list_new_def split: option.split)
  show "ml_inv (clone_shallow l)" "ml_self_id (clone_shallow l) = ml_self_id l"
    by (simp_all add: clone_shallow_def inv self ml_inv_new) (simp add: member_list_new_def)
qed

definition alive_ids :: "member_list \<Rightarrow> node_id list" where
  "alive_ids l = map me_node_id (alive_members l)"

lemma alive_ids_clone: "ml_inv l \<Longrightarrow> set (alive_ids (clone_shallow l)) = set (alive_ids l)"
  unfolding alive_ids_def by (simp only: alive_members_set clone_shallow_view)

lemma alive_ids_distinct: "ml_inv l \<Longrightarrow> distinct (alive_ids l)"
  by (simp add: alive_ids_def alive_members_distinct)

text \<open>Successive picks at the given values of the step counter, on an unchanging membership.\<close>

fun picks :: "u64 list \<Rightarrow> member_list \<Rightarrow> swim_probe \<Rightarrow> node_id list \<times> swim_probe" where
  "picks [] l p = ([], p)"
| "picks (c # cs) l p =
     (case pick_probe_target l (p\<lparr>step_counter := c\<rparr>) of (t, p1) \<Rightarrow>
      case picks cs l p1 of (ts, p2) \<Rightarrow> (case t of Some i \<Rightarrow> i # ts | None \<Rightarrow> ts, p2))"

lemma picks_append:
  "picks (cs @ ds) l p = (case picks cs l p of (xs, p1) \<Rightarrow> case picks ds l p1 of (ys, p2) \<Rightarrow> (xs @ ys, p2))"
  by (induction cs arbitrary: p) (auto simp: split_beta split: option.split)

lemma picks_within_order:
  assumes "alive_members l \<noteq> []" "length (probe_order p) = length (alive_members l)"
    "probe_index p + length cs \<le> length (probe_order p)"
  shows "fst (picks cs l p) = take (length cs) (drop (probe_index p) (probe_order p)) \<and>
    probe_index (snd (picks cs l p)) = probe_index p + length cs \<and> probe_order (snd (picks cs l p)) = probe_order p"
  using assms
proof (induction cs arbitrary: p)
  case (Cons c cs)
  let ?p = "p\<lparr>step_counter := c, probe_index := probe_index p + 1\<rparr>"
  have pick: "pick_probe_target l (p\<lparr>step_counter := c\<rparr>) = (Some (probe_order p ! probe_index p), ?p)"
    using Cons.prems by (simp add: pick_probe_target_def)
  have "drop (probe_index p) (probe_order p) = probe_order p ! probe_index p # drop (probe_index p + 1) (probe_order p)"
    using Cons.prems(3) by (simp add: Cons_nth_drop_Suc)
  then show ?case using Cons.IH [of ?p] Cons.prems by (simp add: pick split_beta)
qed simp

lemma picks_from_rebuild:
  assumes "ml_inv l" "alive_members l \<noteq> []" "length cs = length (alive_members l)"
    "probe_index p \<ge> length (probe_order p) \<or> length (probe_order p) \<noteq> length (alive_members l)"
  shows "mset (fst (picks cs l p)) = mset (alive_ids l)"
proof -
  obtain c ds where cs: "cs = c # ds" using assms(2,3) by (cases cs) auto
  let ?o = "shuffle c (length (alive_members l) - 1) (alive_ids l)"
  let ?p = "p\<lparr>step_counter := c, probe_order := ?o, probe_index := 0\<rparr>"
  have len: "length ?o = length (alive_members l)" by (simp add: alive_ids_def)
  have same: "pick_probe_target l (p\<lparr>step_counter := c\<rparr>) = pick_probe_target l (?p\<lparr>step_counter := c\<rparr>)"
    using assms(2,4) len by (simp add: pick_probe_target_def alive_ids_def Let_def)
  have "picks cs l p = picks cs l ?p" by (simp only: cs picks.simps same)
  then have "fst (picks cs l p) = ?o" using picks_within_order [of l ?p cs] assms(2,3) len by simp
  then show ?thesis using assms(2) by (simp add: mset_shuffle alive_ids_def)
qed

lemma clone_shallow_alive: "ml_inv l \<Longrightarrow> alive_members (clone_shallow l) = [] \<longleftrightarrow> alive_members l = []"
  using alive_ids_clone [of l] by (auto simp: alive_ids_def)

lemma clone_shallow_length: "ml_inv l \<Longrightarrow> length (alive_members (clone_shallow l)) = length (alive_members l)"
  using alive_ids_clone [of l] alive_ids_distinct [of l] alive_ids_distinct [of "clone_shallow l"] clone_shallow_view [of l]
  by (metis alive_ids_def distinct_card length_map)

text \<open>Every live member is probed in turn. While the membership does not change, \<open>2 n\<close> consecutive
  picks reach each of the \<open>n\<close> members that are not dead, from any state of the detector; and \<open>n\<close> picks that
  start with a rebuilt order take each of them exactly once.\<close>

theorem probe_rotation_covers_members:
  assumes "ml_inv l" "length cs = length (alive_members l)" "length ds = length (alive_members l)"
  shows "set (alive_ids l) \<subseteq> set (fst (picks (cs @ ds) (clone_shallow l) p)) \<and>
    (probe_index p \<ge> length (probe_order p) \<longrightarrow> mset (fst (picks cs (clone_shallow l) p)) = mset (alive_ids l))"
proof (cases "alive_members l = []")
  case True
  then show ?thesis using assms by (simp add: alive_ids_def)
next
  case False
  let ?l = "clone_shallow l" and ?n = "length (alive_members l)"
  note inv = clone_shallow_view(2) [OF assms(1)]
  have ne: "alive_members ?l \<noteq> []" and len: "length (alive_members ?l) = ?n"
    using False clone_shallow_alive clone_shallow_length assms(1) by simp_all
  have ids: "mset (alive_ids ?l) = mset (alive_ids l)"
    using alive_ids_distinct [OF inv] alive_ids_distinct [OF assms(1)] alive_ids_clone [OF assms(1)] by (simp add: set_eq_iff_mset_eq_distinct)
  have full: "mset (fst (picks es ?l q)) = mset (alive_ids l)"
    if "length es = ?n" "probe_index q \<ge> length (probe_order q) \<or> length (probe_order q) \<noteq> ?n" for es q
    using picks_from_rebuild [OF inv ne] that len ids by simp
  have "set (alive_ids l) \<subseteq> set (fst (picks (cs @ ds) ?l p))"
  proof (cases "probe_index p \<ge> length (probe_order p) \<or> length (probe_order p) \<noteq> ?n")
    case True
    then have "set (fst (picks cs ?l p)) = set (alive_ids l)" using full assms(2) by (metis mset_eq_setD)
    then show ?thesis by (auto simp: picks_append split_beta)
  next
    case stale: False
    let ?k = "?n - probe_index p"
    define as where "as = take ?k (cs @ ds)"
    define es where "es = drop ?k (cs @ ds)"
    have k: "length as = ?k" using assms by (auto simp: as_def)
    have "probe_index p + length as = length (probe_order p)" using stale unfolding k by arith
    then have "probe_index (snd (picks as ?l p)) = ?n" "probe_order (snd (picks as ?l p)) = probe_order p"
      using picks_within_order [OF ne, of p as] stale len by simp_all
    then have "mset (fst (picks (take ?n es) ?l (snd (picks as ?l p)))) = mset (alive_ids l)"
      using full [of "take ?n es"] stale assms by (simp add: es_def)
    then have "set (alive_ids l) \<subseteq> set (fst (picks (take ?n es @ drop ?n es) ?l (snd (picks as ?l p))))"
      using mset_eq_setD [of "fst (picks (take ?n es) ?l (snd (picks as ?l p)))" "alive_ids l"]
      by (simp only: picks_append split_beta) simp
    moreover have "cs @ ds = as @ es" unfolding es_def as_def by (simp only: append_take_drop_id)
    ultimately show ?thesis by (simp only: append_take_drop_id picks_append split_beta) auto
  qed
  then show ?thesis using full assms(2) by simp
qed

theorem probe_rotation_covers_members_witness:
  "let l = apply_all [(NodeId 7, Alive, 0), (NodeId 8, Dead, 0), (NodeId 9, Alive, 0)] (member_list_new (NodeId 1)) in
   {NodeId 7, NodeId 9} \<subseteq> set (fst (picks [5, 6, 7, 8] (clone_shallow l) (swim_probe_new swim_config_default 0)))"
proof -
  define l where "l = apply_all [(NodeId 7, Alive, 0), (NodeId 8, Dead, 0), (NodeId 9, Alive, 0)] (member_list_new (NodeId 1))"
  have "ml_inv l" by (simp add: l_def apply_all_def ml_inv_apply ml_inv_new)
  moreover have "alive_ids l = [NodeId 7, NodeId 9]" "length (alive_members l) = 2"
    by (simp_all add: l_def apply_all_def alive_ids_def alive_members_def swim_defs)
  ultimately show ?thesis
    using probe_rotation_covers_members [of l "[5, 6]" "[7, 8]" "swim_probe_new swim_config_default 0"]
    by (simp add: l_def)
qed

section \<open>What a step does to the membership\<close>

lemma expire_each_effect:
  assumes "expire_each is l p = (as, l', p')"
  shows "DeclareDead i \<in> set as \<Longrightarrow> i \<in> set is \<and> (\<exists>inc. view l i = Some (inc, Suspect) \<and> view l' i = Some (inc, Dead))"
    and "DeclareDead i \<notin> set as \<Longrightarrow> view l' i = view l i"
    and "i \<in> set is \<Longrightarrow> view l i = Some (inc, Suspect) \<Longrightarrow> DeclareDead i \<in> set as"
    and "set as \<subseteq> range DeclareDead"
  using assms
proof (atomize (full), induction "is" l p arbitrary: as l' p' rule: expire_each.induct)
  case (2 j js l p)
  define d where "d \<longleftrightarrow> (\<exists>inc. view l j = Some (inc, Suspect))"
  define l1 where "l1 = (if d then snd (declare_dead j l) else l)"
  define p1 where "p1 = cancel_suspicion_timer j (if d \<and> is_currently_probing j p then p\<lparr>phase := Idle\<rparr> else p)"
  have still: "(case ml_get l j of Some e \<Rightarrow> me_state e = Suspect | None \<Rightarrow> False) = d"
    by (auto simp: d_def view_def split: option.split)
  have fst: "(if d then declare_dead j l else (False, l)) = (d, l1)"
    using declare_dead_result(1) [of j l] by (auto simp: l1_def d_def prod_eq_iff)
  have view1: "view l1 = (if d then (view l)(j \<mapsto> (fst (the (view l j)), Dead)) else view l)"
    by (auto simp: l1_def d_def declare_dead_result(2))
  obtain bs where bs: "expire_each js l1 p1 = (bs, l', p')" and as: "as = (if d then [DeclareDead j] else []) @ bs"
    using "2.prems" unfolding expire_each.simps still fst Let_def
    by (cases "expire_each js l1 p1") (auto simp: p1_def)
  have IH: "(DeclareDead i \<in> set bs \<longrightarrow> i \<in> set js \<and> (\<exists>inc. view l1 i = Some (inc, Suspect) \<and> view l' i = Some (inc, Dead))) \<and>
      (DeclareDead i \<notin> set bs \<longrightarrow> view l' i = view l1 i) \<and>
      (i \<in> set js \<longrightarrow> view l1 i = Some (inc, Suspect) \<longrightarrow> DeclareDead i \<in> set bs) \<and> set bs \<subseteq> range DeclareDead"
    using "2.IH" [OF refl fst [unfolded still [symmetric], symmetric] refl refl, unfolded still] bs by (simp add: p1_def)
  show ?case using IH by (cases "i = j") (auto simp: as view1 d_def split: if_splits)
qed auto

lemmas probe_start_defs = start_probe_for_def remember_target_def next_sequence_def push_demand_def

lemma start_actions:
  "DeclareDead i \<notin> set (fst (start_probe_for t p))"
  "DeclareDead i \<notin> set (fst (check_probe_timeout l p))"
  "DeclareDead i \<notin> set (fst (maybe_reprobe_dead l p))"
  "DeclareDead i \<notin> set (fst (start_probes l p))"
  by (auto simp: check_probe_timeout_def maybe_reprobe_dead_def start_probes_def maybe_start_probe_def
    maybe_start_demand_probe_def maybe_safety_sweep_def probe_start_defs Let_def split_beta
    split: probe_phase.split probe_mode.split option.split list.split)

lemma tick_decompose:
  assumes "probe_step now Tick l p = Some (as, l', p')"
  obtains a1 p1 T a2 p2 a3 p3 a4 where
    "check_probe_timeout l (p\<lparr>sp_now := now, step_counter := step_counter p + 1\<rparr>) = (a1, p1)"
    "effective_timeout l p1 = Some T" "expire_each (expired_nodes T p1) l p1 = (a2, l', p2)"
    "start_probes l' p2 = (a3, p3)" "maybe_reprobe_dead l' p3 = (a4, p')" "as = a1 @ a2 @ a3 @ a4"
  using assms by (auto simp: check_suspicion_timeouts_def split: prod.splits option.splits)

lemma tick_view:
  assumes "probe_step now Tick l p = Some (as, l', p')"
  shows "DeclareDead i \<in> set as \<Longrightarrow> \<exists>inc. view l i = Some (inc, Suspect) \<and> view l' i = Some (inc, Dead)"
    and "DeclareDead i \<notin> set as \<Longrightarrow> view l' i = view l i"
proof -
  from assms obtain a1 p1 T a2 p2 a3 p3 a4 where
    parts: "check_probe_timeout l (p\<lparr>sp_now := now, step_counter := step_counter p + 1\<rparr>) = (a1, p1)"
    "expire_each (expired_nodes T p1) l p1 = (a2, l', p2)"
    "start_probes l' p2 = (a3, p3)" "maybe_reprobe_dead l' p3 = (a4, p')" "as = a1 @ a2 @ a3 @ a4"
    by (rule tick_decompose) blast
  have only: "DeclareDead i \<in> set as \<longleftrightarrow> DeclareDead i \<in> set a2"
    using start_actions(2) [of i l "p\<lparr>sp_now := now, step_counter := step_counter p + 1\<rparr>"]
      start_actions(4) [of i l' p2] start_actions(3) [of i l' p3] parts by simp
  show "DeclareDead i \<in> set as \<Longrightarrow> \<exists>inc. view l i = Some (inc, Suspect) \<and> view l' i = Some (inc, Dead)"
    using expire_each_effect(1) [OF parts(2)] only by blast
  show "DeclareDead i \<notin> set as \<Longrightarrow> view l' i = view l i"
    using expire_each_effect(2) [OF parts(2)] only by blast
qed

lemma handler_actions:
  "DeclareDead i \<notin> set (fst (probe_handle_ack src seq p))"
  "DeclareDead i \<notin> set (fst (probe_handle_indirect_ack src seq p))"
  "DeclareDead i \<notin> set (fst (handle_send_failed to l p))"
  by (auto simp: probe_handle_ack_def probe_handle_indirect_ack_def handle_send_failed_def start_actions
    split: probe_phase.split option.split)

lemma step_view:
  assumes "probe_step now ev l p = Some (as, l', p')"
  shows "DeclareDead i \<in> set as \<Longrightarrow> \<exists>inc. view l i = Some (inc, Suspect) \<and> view l' i = Some (inc, Dead)"
    and "DeclareDead i \<notin> set as \<Longrightarrow> view l' i = view l i"
proof (atomize (full), cases ev)
  case Tick
  then show "(DeclareDead i \<in> set as \<longrightarrow> (\<exists>inc. view l i = Some (inc, Suspect) \<and> view l' i = Some (inc, Dead))) \<and>
      (DeclareDead i \<notin> set as \<longrightarrow> view l' i = view l i)"
    using tick_view [of now l p as l' p' i] assms by blast
next
  case (AckReceived src seq)
  then show "(DeclareDead i \<in> set as \<longrightarrow> (\<exists>inc. view l i = Some (inc, Suspect) \<and> view l' i = Some (inc, Dead))) \<and>
      (DeclareDead i \<notin> set as \<longrightarrow> view l' i = view l i)"
    using assms handler_actions(1) [of i src seq "p\<lparr>sp_now := now\<rparr>"] by (simp add: split_beta)
next
  case (IndirectAckReceived src seq)
  then show "(DeclareDead i \<in> set as \<longrightarrow> (\<exists>inc. view l i = Some (inc, Suspect) \<and> view l' i = Some (inc, Dead))) \<and>
      (DeclareDead i \<notin> set as \<longrightarrow> view l' i = view l i)"
    using assms handler_actions(2) [of i src seq "p\<lparr>sp_now := now\<rparr>"] by (simp add: split_beta)
next
  case (SendFailed to)
  then show "(DeclareDead i \<in> set as \<longrightarrow> (\<exists>inc. view l i = Some (inc, Suspect) \<and> view l' i = Some (inc, Dead))) \<and>
      (DeclareDead i \<notin> set as \<longrightarrow> view l' i = view l i)"
    using assms handler_actions(3) [of i to l "p\<lparr>sp_now := now\<rparr>"] by (auto simp: split_beta)
qed

lemma tick_declares:
  assumes "check_probe_timeout l (p\<lparr>sp_now := now, step_counter := step_counter p + 1\<rparr>) = (a1, p1)"
    "effective_timeout l p1 = Some T" "i \<in> set (expired_nodes T p1)" "view l i = Some (inc, Suspect)"
  obtains as l' p' where "probe_step now Tick l p = Some (as, l', p')" "DeclareDead i \<in> set as"
proof -
  obtain a2 l' p2 where ex: "expire_each (expired_nodes T p1) l p1 = (a2, l', p2)" by (cases "expire_each (expired_nodes T p1) l p1")
  have "DeclareDead i \<in> set a2" using expire_each_effect(3) [OF ex assms(3,4)] .
  then show thesis using assms(1,2) ex that
    by (cases "start_probes l' p2"; cases "maybe_reprobe_dead l' (snd (start_probes l' p2))")
      (auto simp: check_suspicion_timeouts_def)
qed

text \<open>The timers after the probe timeout check: at most one more, started now.\<close>

lemma timeout_timers:
  "t \<in> set (suspicion_timers (snd (check_probe_timeout l p))) \<Longrightarrow> t \<in> set (suspicion_timers p) \<or> stm_started_at t = sp_now p"
  "sp_now (snd (check_probe_timeout l p)) = sp_now p"
  "sp_config (snd (check_probe_timeout l p)) = sp_config p"
  by (auto simp: check_probe_timeout_def start_suspicion_timer_def split: probe_phase.splits if_splits)

lemma effective_timeout_floor: "effective_timeout l p = Some T \<Longrightarrow> suspicion_timeout (sp_config p) \<le> T"
  by (auto simp: effective_timeout_def split: option.splits)


definition overdue :: swim_probe where
  "overdue = (swim_probe_new swim_config_default 0)\<lparr>suspicion_timers := [\<lparr>stm_node_id = NodeId 7, stm_started_at = 0\<rparr>]\<rparr>"


section \<open>Bounded state\<close>

definition probe_inv :: "swim_probe \<Rightarrow> bool" where
  "probe_inv p \<longleftrightarrow> length (recent_targets p) \<le> PROBE_HISTORY_SIZE \<and> length (demand_queue p) \<le> MAX_DEMAND_QUEUE \<and>
     distinct (demand_queue p) \<and> distinct (map stm_node_id (suspicion_timers p)) \<and> probe_index p \<le> length (probe_order p)"

lemma probe_inv_new: "probe_inv (swim_probe_new c now)"
  by (simp add: probe_inv_def swim_probe_new_def)

lemma probe_inv_clock [simp]:
  "probe_inv (p\<lparr>sp_now := t\<rparr>) = probe_inv p" "probe_inv (p\<lparr>step_counter := c\<rparr>) = probe_inv p"
  "probe_inv (p\<lparr>phase := ph\<rparr>) = probe_inv p" "probe_inv (p\<lparr>health := h\<rparr>) = probe_inv p"
  "probe_inv (p\<lparr>next_probe_at := a\<rparr>) = probe_inv p" "probe_inv (p\<lparr>next_sweep_at := a\<rparr>) = probe_inv p"
  "probe_inv (p\<lparr>next_reprobe_at := a\<rparr>) = probe_inv p" "probe_inv (p\<lparr>reprobe_index := c\<rparr>) = probe_inv p"
  "probe_inv (p\<lparr>sp_sequence := c\<rparr>) = probe_inv p"
  by (simp_all add: probe_inv_def)

lemma probe_inv_remember: "probe_inv p \<Longrightarrow> probe_inv (remember_target i p)"
  by (auto simp: probe_inv_def remember_target_def PROBE_HISTORY_SIZE_def)

lemma probe_inv_start: "probe_inv p \<Longrightarrow> probe_inv (snd (start_probe_for i p))"
  by (simp add: start_probe_for_def next_sequence_def probe_inv_remember)

lemma probe_inv_push: "probe_inv p \<Longrightarrow> i \<notin> set (demand_queue p) \<Longrightarrow> probe_inv (push_demand i p)"
  by (auto simp: probe_inv_def push_demand_def)

lemma probe_inv_timers:
  "probe_inv p \<Longrightarrow> probe_inv (start_suspicion_timer i p)" "probe_inv p \<Longrightarrow> probe_inv (cancel_suspicion_timer i p)"
  by (auto simp: probe_inv_def start_suspicion_timer_def cancel_suspicion_timer_def distinct_map_filter)

lemma probe_inv_pick: "probe_inv p \<Longrightarrow> probe_inv (snd (pick_probe_target l p))"
  by (auto simp: probe_inv_def pick_probe_target_def Let_def Suc_le_eq)

lemma probe_inv_expire: "probe_inv p \<Longrightarrow> probe_inv (snd (snd (expire_each is l p)))"
  by (induction "is" l p rule: expire_each.induct) (auto simp: Let_def split_beta probe_inv_timers)

lemma probe_inv_demand: "probe_inv p \<Longrightarrow> probe_inv (enqueue_demand_probe i p)"
  by (simp add: enqueue_demand_probe_def probe_inv_push)

lemma probe_inv_maybe_start:
  assumes "probe_inv p"
  shows "probe_inv (snd (maybe_start_probe l p))" "probe_inv (snd (maybe_safety_sweep l p))"
    "probe_inv (snd (maybe_start_demand_probe p))"
proof -
  have start: "probe_inv (snd (case pick_probe_target m q of (None, r) \<Rightarrow> ([], r) | (Some t, r) \<Rightarrow> start_probe_for t r))"
    if "probe_inv q" for m q
    using probe_inv_pick [OF that, of m] by (cases "pick_probe_target m q") (auto simp: probe_inv_start split: option.split)
  show "probe_inv (snd (maybe_start_probe l p))" "probe_inv (snd (maybe_safety_sweep l p))"
    using assms by (simp_all add: maybe_start_probe_def maybe_safety_sweep_def Let_def start split: probe_mode.split)
  have "probe_inv (p\<lparr>demand_queue := is\<rparr>)" if "demand_queue p = i # is" for i "is"
    using assms that by (simp add: probe_inv_def)
  then show "probe_inv (snd (maybe_start_demand_probe p))"
    using assms by (auto simp: maybe_start_demand_probe_def probe_inv_start split: list.split)
qed

lemma probe_inv_start_probes: "probe_inv p \<Longrightarrow> probe_inv (snd (start_probes l p))"
  by (simp add: start_probes_def split_beta probe_inv_maybe_start split: probe_mode.split)

lemma probe_inv_handlers:
  assumes "probe_inv p"
  shows "probe_inv (snd (check_probe_timeout l p))" "probe_inv (snd (maybe_reprobe_dead l p))"
    "probe_inv (snd (probe_handle_ack src seq p))" "probe_inv (snd (probe_handle_indirect_ack src seq p))"
    "probe_inv (snd (handle_send_failed to l p))"
  using assms
  by (auto simp: check_probe_timeout_def maybe_reprobe_dead_def probe_handle_ack_def probe_handle_indirect_ack_def
    handle_send_failed_def probe_answered_def next_sequence_def Let_def probe_inv_timers probe_inv_start probe_inv_push
    split: probe_phase.split option.split)

lemma probe_inv_step: "probe_inv p \<Longrightarrow> probe_step now ev l p = Some (as, l', p') \<Longrightarrow> probe_inv p'"
proof (cases ev)
  case Tick
  assume inv: "probe_inv p" and step: "probe_step now ev l p = Some (as, l', p')"
  from step [unfolded Tick] obtain a1 p1 T a2 p2 a3 p3 a4 where
    parts: "check_probe_timeout l (p\<lparr>sp_now := now, step_counter := step_counter p + 1\<rparr>) = (a1, p1)"
    "expire_each (expired_nodes T p1) l p1 = (a2, l', p2)"
    "start_probes l' p2 = (a3, p3)" "maybe_reprobe_dead l' p3 = (a4, p')"
    by (rule tick_decompose)
  have "probe_inv p1" using probe_inv_handlers(1) [of "p\<lparr>sp_now := now, step_counter := step_counter p + 1\<rparr>" l] inv parts(1) by simp
  then have "probe_inv p2" using probe_inv_expire [of p1 "expired_nodes T p1" l] parts(2) by simp
  then have "probe_inv p3" using probe_inv_start_probes [of p2 l'] parts(3) by simp
  then show ?thesis using probe_inv_handlers(2) [of p3 l'] parts(4) by simp
next
  case (AckReceived src seq)
  then show "probe_inv p \<Longrightarrow> probe_step now ev l p = Some (as, l', p') \<Longrightarrow> probe_inv p'"
    using probe_inv_handlers(3) [of "p\<lparr>sp_now := now\<rparr>" src seq] by (auto split: prod.splits)
next
  case (IndirectAckReceived src seq)
  then show "probe_inv p \<Longrightarrow> probe_step now ev l p = Some (as, l', p') \<Longrightarrow> probe_inv p'"
    using probe_inv_handlers(4) [of "p\<lparr>sp_now := now\<rparr>" src seq] by (auto split: prod.splits)
next
  case (SendFailed to)
  then show "probe_inv p \<Longrightarrow> probe_step now ev l p = Some (as, l', p') \<Longrightarrow> probe_inv p'"
    using probe_inv_handlers(5) [of "p\<lparr>sp_now := now\<rparr>" to l] by (auto split: prod.splits)
qed

end
