(* ===== verification/Swim_Node.thy ===== *)
theory Swim_Node
  imports Swim_Probe
begin

text \<open>
  The integrated SWIM node (\<open>swim/node.rs\<close>): member list, failure detector and piggyback queue behind
  one handler per protocol message. Each handler returns the actions for the host. The record \<open>codec\<close>
  holds the JSON encoding of piggybacked updates. The diagnostics-only observer is not modelled.
\<close>

section \<open>State and actions\<close>

record codec =
  enc :: "membership_update list \<Rightarrow> piggyback option"
  dec :: "piggyback \<Rightarrow> membership_update list option"

datatype node_action =
    NSendPing node_id u64 piggyback
  | NSendPingReq node_id node_id u64 piggyback
  | NSendAck node_id u64 piggyback
  | NForwardAck node_id node_id u64 piggyback
  | NSendJoinResponse node_id "node_record list"
  | MembershipChanged node_id member_state u64

record swim_node =
  members :: member_list
  probe :: swim_probe
  dissemination :: dissemination_queue
  max_piggyback :: nat
  pending_relays :: "(node_id \<times> node_id \<times> u64) list"
  node_clock :: nat

definition swim_node_new :: "node_id \<Rightarrow> swim_config \<Rightarrow> nat \<Rightarrow> swim_node" where
  "swim_node_new self c now = \<lparr>members = member_list_new self, probe = swim_probe_new c now,
     dissemination = dissemination_new 3, max_piggyback = 6, pending_relays = [], node_clock = now\<rparr>"

definition cluster_size :: "swim_node \<Rightarrow> nat" where
  "cluster_size n = alive_count (members n) + 1"

text \<open>The recurring steps of the handlers.\<close>

definition gossip :: "node_id \<Rightarrow> member_state \<Rightarrow> u64 \<Rightarrow> swim_node \<Rightarrow> swim_node" where
  "gossip i st inc n = n\<lparr>dissemination := dq_enqueue (membership_update_of i st inc) (cluster_size n) (dissemination n)\<rparr>"

definition pack :: "codec \<Rightarrow> swim_node \<Rightarrow> piggyback \<times> swim_node" where
  "pack C n = (case pack_piggyback (enc C) (max_piggyback n) (dissemination n) of (pb, q) \<Rightarrow> (pb, n\<lparr>dissemination := q\<rparr>))"

definition clear_dead_member :: "node_id \<Rightarrow> swim_node \<Rightarrow> swim_node" where
  "clear_dead_member i n =
     (case ml_get (members n) i of
        Some e \<Rightarrow> (if me_state e = Dead
                   then n\<lparr>members := snd (ml_remove i (members n)), dissemination := purge_node i (dissemination n)\<rparr>
                   else n)
      | None \<Rightarrow> n)"

definition node_recent_targets :: "swim_node \<Rightarrow> node_id list" where
  "node_recent_targets n = recent_targets (probe n)"

section \<open>Probe actions\<close>

fun translate_one :: "codec \<Rightarrow> swim_action \<Rightarrow> swim_node \<Rightarrow> node_action list \<times> swim_node" where
  "translate_one C (SendPing to seq) n =
     (let n1 = (case ml_get (members n) to of
                  Some e \<Rightarrow> (if me_state e = Dead \<or> me_state e = Suspect then gossip to (me_state e) (me_incarnation e) n else n)
                | None \<Rightarrow> n) in
      case pack C n1 of (pb, n2) \<Rightarrow> ([NSendPing to seq pb], n2))"
| "translate_one C (SendPingReq relay target seq) n =
     (case pack C n of (pb, n1) \<Rightarrow> ([NSendPingReq relay target seq pb], n1))"
| "translate_one C (SuspectNode i) n =
     (case ml_suspect i (members n) of
        (False, _) \<Rightarrow> ([], n)
      | (True, l) \<Rightarrow>
          (let n1 = n\<lparr>members := l\<rparr>;
               n2 = (case ml_get l i of Some e \<Rightarrow> gossip i Suspect (me_incarnation e) n1 | None \<Rightarrow> n1) in
           ([MembershipChanged i Suspect (case ml_get l i of Some e \<Rightarrow> me_incarnation e | None \<Rightarrow> 0)], n2)))"
| "translate_one C (DeclareDead i) n =
     (case ml_get (members n) i of
        Some e \<Rightarrow> ([MembershipChanged i Dead (me_incarnation e)], gossip i Dead (me_incarnation e) n)
      | None \<Rightarrow> ([], n))"
| "translate_one C (Diag d) n = ([], n)"

fun translate_probe_actions :: "codec \<Rightarrow> swim_action list \<Rightarrow> swim_node \<Rightarrow> node_action list \<times> swim_node" where
  "translate_probe_actions C [] n = ([], n)"
| "translate_probe_actions C (a # as) n =
     (case translate_one C a n of (xs, n1) \<Rightarrow>
      case translate_probe_actions C as n1 of (ys, n2) \<Rightarrow> (xs @ ys, n2))"

definition run_probe :: "codec \<Rightarrow> swim_event \<Rightarrow> swim_node \<Rightarrow> (node_action list \<times> swim_node) option" where
  "run_probe C ev n =
     (case probe_step (node_clock n) ev (members n) (probe n) of
        None \<Rightarrow> None
      | Some (as, l, p) \<Rightarrow> Some (translate_probe_actions C as (n\<lparr>members := l, probe := p\<rparr>)))"

section \<open>Incoming gossip\<close>

definition apply_membership_update :: "membership_update \<Rightarrow> swim_node \<Rightarrow> node_action list \<times> swim_node" where
  "apply_membership_update u n =
     (let l = members n in
      if mu_node_id u = ml_self_id l then
        (if (mu_state u = Suspect \<or> mu_state u = Dead) \<and> mu_incarnation u \<ge> ml_self_incarnation l
         then (case ml_refute l of (new_inc, l1) \<Rightarrow> ([], gossip (ml_self_id l) Alive new_inc (n\<lparr>members := l1\<rparr>)))
         else ([], n))
      else case ml_apply (mu_node_id u) (mu_state u) (mu_incarnation u) l of
        (False, _) \<Rightarrow> ([], n)
      | (True, l1) \<Rightarrow>
          (let n1 = n\<lparr>members := l1\<rparr>;
               n2 = (if mu_state u = Alive then n1\<lparr>probe := enqueue_demand_probe (mu_node_id u) (probe n1)\<rparr> else n1) in
           ([MembershipChanged (mu_node_id u) (mu_state u) (mu_incarnation u)],
            gossip (mu_node_id u) (mu_state u) (mu_incarnation u) n2)))"

fun apply_updates :: "membership_update list \<Rightarrow> swim_node \<Rightarrow> node_action list \<times> swim_node" where
  "apply_updates [] n = ([], n)"
| "apply_updates (u # us) n =
     (case apply_membership_update u n of (xs, n1) \<Rightarrow>
      case apply_updates us n1 of (ys, n2) \<Rightarrow> (xs @ ys, n2))"

definition apply_piggyback :: "codec \<Rightarrow> piggyback \<Rightarrow> swim_node \<Rightarrow> node_action list \<times> swim_node" where
  "apply_piggyback C bytes n = apply_updates (unpack_piggyback (dec C) bytes) n"

section \<open>Handlers\<close>

definition node_tick :: "codec \<Rightarrow> nat \<Rightarrow> swim_node \<Rightarrow> (node_action list \<times> swim_node) option" where
  "node_tick C now n = run_probe C Tick (n\<lparr>node_clock := now\<rparr>)"

definition handle_ping :: "codec \<Rightarrow> node_id \<Rightarrow> u64 \<Rightarrow> piggyback \<Rightarrow> swim_node \<Rightarrow> node_action list \<times> swim_node" where
  "handle_ping C src seq pb n =
     (case apply_piggyback C pb n of (as, n1) \<Rightarrow>
      case ml_apply src Alive 0 (members n1) of (changed, l) \<Rightarrow>
      let n2 = n1\<lparr>members := l\<rparr> in
      case pack C n2 of (pb', n3) \<Rightarrow>
        (as @ (if changed then [MembershipChanged src Alive 0] else []) @ [NSendAck src seq pb'], n3))"

definition take_relay :: "node_id \<Rightarrow> u64 \<Rightarrow> swim_node \<Rightarrow> (node_id \<times> node_id \<times> u64) option \<times> swim_node" where
  "take_relay src seq n =
     (case find (\<lambda>(_, t, s). t = src \<and> s = seq) (pending_relays n) of
        None \<Rightarrow> (None, n)
      | Some r \<Rightarrow> (Some r, n\<lparr>pending_relays := remove1 r (pending_relays n)\<rparr>))"

definition node_handle_ack :: "codec \<Rightarrow> node_id \<Rightarrow> u64 \<Rightarrow> piggyback \<Rightarrow> swim_node \<Rightarrow> (node_action list \<times> swim_node) option" where
  "node_handle_ack C src seq pb n =
     (case apply_piggyback C pb n of (as, n1) \<Rightarrow>
      case run_probe C (AckReceived src seq) n1 of
        None \<Rightarrow> None
      | Some (bs, n2) \<Rightarrow>
          (case take_relay src seq n2 of
             (None, n3) \<Rightarrow> Some (as @ bs, n3)
           | (Some (requester, target, s), n3) \<Rightarrow>
               (case pack C n3 of (pb', n4) \<Rightarrow> Some (as @ bs @ [NForwardAck requester target s pb'], n4))))"

definition handle_ping_req :: "codec \<Rightarrow> node_id \<Rightarrow> node_id \<Rightarrow> u64 \<Rightarrow> piggyback \<Rightarrow> swim_node \<Rightarrow> node_action list \<times> swim_node" where
  "handle_ping_req C src target seq pb n =
     (case apply_piggyback C pb n of (as, n1) \<Rightarrow>
      let relays = (if length (pending_relays n1) \<ge> 16 then tl (pending_relays n1) else pending_relays n1);
          n2 = n1\<lparr>pending_relays := relays @ [(src, target, seq)]\<rparr> in
      case pack C n2 of (pb', n3) \<Rightarrow> (as @ [NSendPing target seq pb'], n3))"

definition report_send_failure :: "codec \<Rightarrow> node_id \<Rightarrow> swim_node \<Rightarrow> (node_action list \<times> swim_node) option" where
  "report_send_failure C target n = run_probe C (SendFailed target) n"

definition node_handle_indirect_ack :: "codec \<Rightarrow> node_id \<Rightarrow> u64 \<Rightarrow> piggyback \<Rightarrow> swim_node \<Rightarrow> (node_action list \<times> swim_node) option" where
  "node_handle_indirect_ack C target seq pb n =
     (case apply_piggyback C pb n of (as, n1) \<Rightarrow>
      map_option (\<lambda>(bs, n2). (as @ bs, n2)) (run_probe C (IndirectAckReceived target seq) n1))"

definition handle_join_request :: "node_id \<Rightarrow> swim_node \<Rightarrow> node_action list \<times> swim_node" where
  "handle_join_request src n =
     (case ml_apply src Alive 0 (members n) of (changed, l) \<Rightarrow>
      let n1 = n\<lparr>members := l\<rparr>;
          n2 = (if changed then gossip src Alive 0 n1 else n1);
          self = \<lparr>nr_node_id = ml_self_id l, nr_state = Alive, nr_incarnation = ml_self_incarnation l\<rparr> in
      ((if changed then [MembershipChanged src Alive 0] else []) @ [NSendJoinResponse src (ml_snapshot l @ [self])], n2))"

definition join_record :: "node_record \<Rightarrow> swim_node \<Rightarrow> node_action list \<times> swim_node" where
  "join_record r n =
     (let n1 = (if nr_state r = Alive then clear_dead_member (nr_node_id r) n else n) in
      case ml_apply (nr_node_id r) (nr_state r) (nr_incarnation r) (members n1) of
        (False, l) \<Rightarrow> ([], n1\<lparr>members := l\<rparr>)
      | (True, l) \<Rightarrow>
          (let n2 = n1\<lparr>members := l\<rparr> in
           ([MembershipChanged (nr_node_id r) (nr_state r) (nr_incarnation r)],
            if nr_state r = Alive \<and> nr_node_id r \<noteq> ml_self_id l
            then n2\<lparr>probe := enqueue_demand_probe (nr_node_id r) (probe n2)\<rparr> else n2)))"

fun handle_join_response :: "node_record list \<Rightarrow> swim_node \<Rightarrow> node_action list \<times> swim_node" where
  "handle_join_response [] n = ([], n)"
| "handle_join_response (r # rs) n =
     (case join_record r n of (xs, n1) \<Rightarrow>
      case handle_join_response rs n1 of (ys, n2) \<Rightarrow> (xs @ ys, n2))"

definition node_leave :: "swim_node \<Rightarrow> node_action list \<times> swim_node" where
  "node_leave n = ([], gossip (ml_self_id (members n)) Dead (ml_self_incarnation (members n)) n)"

section \<open>One input at a time\<close>

datatype node_input =
    InTick nat
  | InPing node_id u64 piggyback
  | InAck node_id u64 piggyback
  | InPingReq node_id node_id u64 piggyback
  | InIndirectAck node_id u64 piggyback
  | InSendFailure node_id
  | InJoinRequest node_id
  | InJoinResponse "node_record list"
  | InLeave

fun node_step :: "codec \<Rightarrow> node_input \<Rightarrow> swim_node \<Rightarrow> (node_action list \<times> swim_node) option" where
  "node_step C (InTick now) n = node_tick C now n"
| "node_step C (InPing src seq pb) n = Some (handle_ping C src seq pb n)"
| "node_step C (InAck src seq pb) n = node_handle_ack C src seq pb n"
| "node_step C (InPingReq src target seq pb) n = Some (handle_ping_req C src target seq pb n)"
| "node_step C (InIndirectAck target seq pb) n = node_handle_indirect_ack C target seq pb n"
| "node_step C (InSendFailure target) n = report_send_failure C target n"
| "node_step C (InJoinRequest src) n = Some (handle_join_request src n)"
| "node_step C (InJoinResponse rs) n = Some (handle_join_response rs n)"
| "node_step C InLeave n = Some (node_leave n)"

fun node_run :: "codec \<Rightarrow> node_input list \<Rightarrow> swim_node \<Rightarrow> (node_action list \<times> swim_node) option" where
  "node_run C [] n = Some ([], n)"
| "node_run C (i # is) n =
     (case node_step C i n of
        None \<Rightarrow> None
      | Some (as, n1) \<Rightarrow> map_option (\<lambda>(bs, n2). (as @ bs, n2)) (node_run C is n1))"

section \<open>Frame facts\<close>

lemma gossip_frame [simp]:
  "members (gossip i st inc n) = members n" "probe (gossip i st inc n) = probe n"
  "pending_relays (gossip i st inc n) = pending_relays n" "node_clock (gossip i st inc n) = node_clock n"
  by (simp_all add: gossip_def)

lemma pack_frame [simp]:
  "members (snd (pack C n)) = members n" "probe (snd (pack C n)) = probe n"
  "pending_relays (snd (pack C n)) = pending_relays n" "node_clock (snd (pack C n)) = node_clock n"
  by (simp_all add: pack_def split_beta)

lemma take_relay_frame [simp]:
  "members (snd (take_relay src seq n)) = members n" "probe (snd (take_relay src seq n)) = probe n"
  "dissemination (snd (take_relay src seq n)) = dissemination n"
  by (simp_all add: take_relay_def split: option.split)

lemma clear_dead_frame [simp]:
  "probe (clear_dead_member i n) = probe n" "pending_relays (clear_dead_member i n) = pending_relays n"
  "ml_self_id (members (clear_dead_member i n)) = ml_self_id (members n)"
  by (auto simp: clear_dead_member_def ml_remove_def split: option.split)

section \<open>Well-formedness\<close>

definition node_inv :: "swim_node \<Rightarrow> bool" where
  "node_inv n \<longleftrightarrow> ml_inv (members n) \<and> probe_inv (probe n) \<and> dq_inv (dissemination n) \<and> length (pending_relays n) \<le> 16"

lemma node_inv_new: "node_inv (swim_node_new self c now)"
  by (simp add: node_inv_def swim_node_new_def ml_inv_new probe_inv_new dq_inv_new)

lemma node_inv_gossip: "node_inv n \<Longrightarrow> node_inv (gossip i st inc n)"
  by (simp add: node_inv_def gossip_def dq_inv_enqueue)

lemma node_inv_pack: "node_inv n \<Longrightarrow> node_inv (snd (pack C n))"
  by (simp add: node_inv_def pack_def split_beta dq_inv_pack)

lemma node_inv_members: "node_inv n \<Longrightarrow> ml_inv l \<Longrightarrow> node_inv (n\<lparr>members := l\<rparr>)"
  by (simp add: node_inv_def)

lemma node_inv_probe: "node_inv n \<Longrightarrow> probe_inv p \<Longrightarrow> node_inv (n\<lparr>probe := p\<rparr>)"
  by (simp add: node_inv_def)

lemma node_inv_clock [simp]: "node_inv (n\<lparr>node_clock := t\<rparr>) = node_inv n"
  by (simp add: node_inv_def)

lemma node_inv_parts: "node_inv n \<Longrightarrow> ml_inv (members n)" "node_inv n \<Longrightarrow> probe_inv (probe n)"
  by (simp_all add: node_inv_def)

lemma node_inv_demand:
  "node_inv (n\<lparr>members := l\<rparr>) \<Longrightarrow> node_inv (n\<lparr>members := l, probe := enqueue_demand_probe i (probe n)\<rparr>)"
  by (simp add: node_inv_def probe_inv_demand)

lemmas node_inv_intros = node_inv_gossip node_inv_pack node_inv_members node_inv_probe

lemma node_inv_clear_dead: "node_inv n \<Longrightarrow> node_inv (clear_dead_member i n)"
  by (auto simp: clear_dead_member_def node_inv_def ml_inv_remove dq_inv_purge split: option.split)

lemma node_inv_apply:
  "node_inv n \<Longrightarrow> node_inv (n\<lparr>members := snd (ml_apply i st inc (members n))\<rparr>)"
  by (simp add: node_inv_members ml_inv_apply node_inv_parts)

lemma ml_inv_refute: "ml_inv l \<Longrightarrow> ml_inv (snd (ml_refute l))"
  by (simp add: ml_refute_def ml_inv_def)

lemma node_inv_update: "node_inv n \<Longrightarrow> node_inv (snd (apply_membership_update u n))"
  using node_inv_apply [of n "mu_node_id u" "mu_state u" "mu_incarnation u"] ml_inv_refute [of "members n"]
  by (auto simp: apply_membership_update_def Let_def split_beta node_inv_intros node_inv_parts(1) node_inv_demand
    split: bool.split)

lemma node_inv_updates: "node_inv n \<Longrightarrow> node_inv (snd (apply_updates us n))"
  by (induction us arbitrary: n) (simp_all add: split_beta node_inv_update)

lemma node_inv_translate_one: "node_inv n \<Longrightarrow> node_inv (snd (translate_one C a n))"
proof (cases a)
  case (SuspectNode i)
  assume inv: "node_inv n"
  then have "node_inv (n\<lparr>members := snd (ml_suspect i (members n))\<rparr>)" by (simp add: node_inv_members ml_inv_marks node_inv_parts)
  then show ?thesis using inv SuspectNode by (auto simp: Let_def split_beta node_inv_gossip split: bool.split option.split)
qed (auto simp: Let_def split_beta node_inv_intros split: option.split)

lemma node_inv_translate: "node_inv n \<Longrightarrow> node_inv (snd (translate_probe_actions C as n))"
  by (induction as arbitrary: n) (simp_all add: split_beta node_inv_translate_one)

lemma ml_inv_expire: "ml_inv l \<Longrightarrow> ml_inv (fst (snd (expire_each is l p)))"
  by (induction "is" l p rule: expire_each.induct) (auto simp: Let_def split_beta ml_inv_marks)

lemma ml_inv_probe_step: "ml_inv l \<Longrightarrow> probe_step now ev l p = Some (as, l', p') \<Longrightarrow> ml_inv l'"
proof (cases ev)
  case Tick
  assume inv: "ml_inv l" and step: "probe_step now ev l p = Some (as, l', p')"
  from step [unfolded Tick] obtain T p1 a2 p2 where "expire_each (expired_nodes T p1) l p1 = (a2, l', p2)"
    by (rule tick_decompose)
  then show ?thesis using ml_inv_expire [OF inv, of "expired_nodes T p1" p1] by simp
qed (auto split: prod.splits)

lemma node_inv_run_probe: "node_inv n \<Longrightarrow> run_probe C ev n = Some (as, n') \<Longrightarrow> node_inv n'"
proof -
  assume inv: "node_inv n" and run: "run_probe C ev n = Some (as, n')"
  then obtain bs l p where step: "probe_step (node_clock n) ev (members n) (probe n) = Some (bs, l, p)"
    and n': "translate_probe_actions C bs (n\<lparr>members := l, probe := p\<rparr>) = (as, n')"
    by (auto simp: run_probe_def split: option.splits)
  have "node_inv (n\<lparr>members := l, probe := p\<rparr>)"
    using inv ml_inv_probe_step [OF _ step] probe_inv_step [OF _ step] by (simp add: node_inv_def)
  then show ?thesis using node_inv_translate [of "n\<lparr>members := l, probe := p\<rparr>" C bs] n' by simp
qed

lemma node_inv_join_record: "node_inv n \<Longrightarrow> node_inv (snd (join_record r n))"
proof -
  assume inv: "node_inv n"
  define n1 where "n1 = (if nr_state r = Alive then clear_dead_member (nr_node_id r) n else n)"
  have "node_inv (n1\<lparr>members := snd (ml_apply (nr_node_id r) (nr_state r) (nr_incarnation r) (members n1))\<rparr>)"
    using inv by (simp add: node_inv_apply n1_def node_inv_clear_dead)
  then show ?thesis
    by (auto simp: join_record_def Let_def split_beta n1_def [symmetric] node_inv_demand split: bool.split)
qed

lemma node_inv_join: "node_inv n \<Longrightarrow> node_inv (snd (handle_join_response rs n))"
  by (induction rs arbitrary: n) (simp_all add: split_beta node_inv_join_record)

lemma node_inv_take_relay: "node_inv n \<Longrightarrow> node_inv (snd (take_relay src seq n))"
  by (auto simp: take_relay_def node_inv_def length_remove1 split: option.split)

lemma node_inv_ping: "node_inv n \<Longrightarrow> node_inv (snd (handle_ping C src seq pb n))"
  using node_inv_apply [OF node_inv_updates [of n "unpack_piggyback (dec C) pb"], of src Alive 0]
  by (auto simp: handle_ping_def apply_piggyback_def Let_def split_beta node_inv_pack)

lemma node_inv_ping_req: "node_inv n \<Longrightarrow> node_inv (snd (handle_ping_req C src target seq pb n))"
proof -
  assume "node_inv n"
  then have "node_inv (snd (apply_piggyback C pb n))" by (simp add: apply_piggyback_def node_inv_updates)
  then show ?thesis unfolding handle_ping_req_def split_beta Let_def snd_conv
    by (intro node_inv_pack) (auto simp: node_inv_def)
qed

lemma handle_ack_result:
  assumes "node_handle_ack C src seq pb n = Some (as, n')"
  obtains bs n2 where "run_probe C (AckReceived src seq) (snd (apply_piggyback C pb n)) = Some (bs, n2)"
    "n' = snd (take_relay src seq n2) \<and> as = fst (apply_piggyback C pb n) @ bs \<or>
     n' = snd (pack C (snd (take_relay src seq n2))) \<and>
       (\<exists>r t s pb'. as = fst (apply_piggyback C pb n) @ bs @ [NForwardAck r t s pb'])"
proof -
  from assms obtain bs n2 where run: "run_probe C (AckReceived src seq) (snd (apply_piggyback C pb n)) = Some (bs, n2)"
    by (auto simp: node_handle_ack_def split_beta split: option.splits)
  show thesis
    by (rule that [OF run], cases "take_relay src seq n2", cases "fst (take_relay src seq n2)")
      (use assms run in \<open>auto simp: node_handle_ack_def split_beta\<close>)
qed

lemma node_inv_step:
  assumes "node_inv n" "node_step C inp n = Some (as, n')"
  shows "node_inv n'"
proof (cases inp)
  case (InTick t)
  then show ?thesis using node_inv_run_probe [of "n\<lparr>node_clock := t\<rparr>" C Tick] assms by (simp add: node_tick_def)
next
  case (InPing src seq pb)
  then show ?thesis using node_inv_ping [of n C src seq pb] assms by simp
next
  case (InAck src seq pb)
  from assms(2) [unfolded InAck node_step.simps] obtain bs n2 where
    run: "run_probe C (AckReceived src seq) (snd (apply_piggyback C pb n)) = Some (bs, n2)" and
    n': "n' = snd (take_relay src seq n2) \<or> n' = snd (pack C (snd (take_relay src seq n2)))"
    by (rule handle_ack_result) blast
  have "node_inv (snd (take_relay src seq n2))"
    using node_inv_run_probe [OF _ run] assms(1) by (simp add: node_inv_take_relay apply_piggyback_def node_inv_updates)
  then show ?thesis using n' by (auto simp: node_inv_pack)
next
  case (InPingReq src target seq pb)
  then show ?thesis using node_inv_ping_req [of n C src target seq pb] assms by simp
next
  case (InIndirectAck target seq pb)
  then show ?thesis
    using node_inv_run_probe [of "snd (apply_piggyback C pb n)"] node_inv_updates [of n "unpack_piggyback (dec C) pb"] assms
    by (auto simp: node_handle_indirect_ack_def apply_piggyback_def split_beta)
next
  case (InSendFailure target)
  then show ?thesis using node_inv_run_probe [of n C "SendFailed target"] assms by (simp add: report_send_failure_def)
next
  case (InJoinRequest src)
  then show ?thesis
    using node_inv_apply [of n src Alive 0] assms by (auto simp: handle_join_request_def Let_def split_beta node_inv_gossip)
next
  case (InJoinResponse rs)
  then show ?thesis using node_inv_join [of n rs] assms by simp
next
  case InLeave
  then show ?thesis using assms by (auto simp: node_leave_def node_inv_gossip)
qed

lemma node_run_Cons:
  assumes "node_run C (i # is) n = Some (as, n')"
  obtains bs n1 cs where "node_step C i n = Some (bs, n1)" "node_run C is n1 = Some (cs, n')" "as = bs @ cs"
  using assms by (auto split: option.splits)

lemma node_inv_run: "node_inv n \<Longrightarrow> node_run C is n = Some (as, n') \<Longrightarrow> node_inv n'"
proof (induction "is" arbitrary: n as)
  case (Cons i "is")
  from Cons.prems(2) obtain bs n1 cs where "node_step C i n = Some (bs, n1)" "node_run C is n1 = Some (cs, n')"
    by (rule node_run_Cons)
  then show ?case using Cons.IH [of n1 cs] node_inv_step [OF Cons.prems(1)] by simp
qed simp

section \<open>Notifications\<close>

text \<open>What a subscriber reconstructs from the notifications it is sent.\<close>

fun replay :: "node_action list \<Rightarrow> (node_id \<Rightarrow> (u64 \<times> member_state) option) \<Rightarrow> node_id \<Rightarrow> (u64 \<times> member_state) option" where
  "replay [] v = v"
| "replay (MembershipChanged i st inc # as) v = replay as (v(i \<mapsto> (inc, st)))"
| "replay (_ # as) v = replay as v"

lemma replay_append [simp]: "replay (as @ bs) v = replay bs (replay as v)"
  by (induction as v rule: replay.induct) (simp_all del: fun_upd_apply)

lemma apply_notified:
  "view (snd (ml_apply i st inc l)) = (if fst (ml_apply i st inc l) then (view l)(i \<mapsto> (inc, st)) else view l)"
  by (simp add: view_apply apply_changed)

lemma unchanged_apply: "\<not> fst (ml_apply i st inc l) \<Longrightarrow> snd (ml_apply i st inc l) = l"
  by (auto simp: ml_apply_def split: option.splits if_splits)

lemma view_refute [simp]: "view (snd (ml_refute l)) = view l"
  by (simp add: ml_refute_def view_def ml_get_def fun_eq_iff)

lemma replay_update: "view (members (snd (apply_membership_update u n))) = replay (fst (apply_membership_update u n)) (view (members n))"
  by (auto simp: apply_membership_update_def Let_def split_beta apply_notified split: bool.split)

lemma replay_updates: "view (members (snd (apply_updates us n))) = replay (fst (apply_updates us n)) (view (members n))"
  by (induction us arbitrary: n) (simp_all add: split_beta replay_update)

lemma replay_join_record:
  assumes "ml_inv (members n)"
  shows "view (members (snd (join_record r n))) = replay (fst (join_record r n)) (view (members n))"
proof -
  let ?i = "nr_node_id r" and ?st = "nr_state r" and ?inc = "nr_incarnation r"
  define n1 where "n1 = (if ?st = Alive then clear_dead_member ?i n else n)"
  have res: "view (members (snd (join_record r n))) = view (snd (ml_apply ?i ?st ?inc (members n1)))"
    "fst (join_record r n) = (if fst (ml_apply ?i ?st ?inc (members n1)) then [MembershipChanged ?i ?st ?inc] else [])"
    by (auto simp: join_record_def Let_def split_beta n1_def [symmetric] split: bool.split)
  show ?thesis
  proof (cases "members n1 = members n")
    case True
    then show ?thesis by (simp add: res apply_notified)
  next
    case False
    then obtain e where e: "ml_get (members n) ?i = Some e" and n1: "members n1 = snd (ml_remove ?i (members n))"
      by (auto simp: n1_def clear_dead_member_def split: if_splits option.splits)
    have "fst (ml_apply ?i ?st ?inc (members n1))"
      using ml_get_entry [OF assms e] by (simp add: n1 apply_changed view_remove) (simp add: ml_remove_def)
    then show ?thesis by (simp add: res apply_notified n1 view_remove)
  qed
qed

lemma replay_join:
  assumes "node_inv n"
  shows "view (members (snd (handle_join_response rs n))) = replay (fst (handle_join_response rs n)) (view (members n))"
  using assms
proof (induction rs arbitrary: n)
  case (Cons r rs)
  then show ?case using replay_join_record [OF node_inv_parts(1) [OF Cons.prems], of r]
      Cons.IH [OF node_inv_join_record [OF Cons.prems, of r]] by (simp add: split_beta)
qed simp

lemma translate_suspect:
  "view (members (snd (translate_one C (SuspectNode i) n))) =
     (case view (members n) i of Some (inc, Alive) \<Rightarrow> (view (members n))(i \<mapsto> (inc, Suspect)) | _ \<Rightarrow> view (members n))"
  "fst (translate_one C (SuspectNode i) n) =
     (case view (members n) i of Some (inc, Alive) \<Rightarrow> [MembershipChanged i Suspect inc] | _ \<Rightarrow> [])"
proof -
  have *: "members (snd (translate_one C (SuspectNode i) n)) = snd (ml_suspect i (members n))"
    by (cases "ml_get (members n) i") (auto simp: ml_suspect_def Let_def)
  show "view (members (snd (translate_one C (SuspectNode i) n))) =
     (case view (members n) i of Some (inc, Alive) \<Rightarrow> (view (members n))(i \<mapsto> (inc, Suspect)) | _ \<Rightarrow> view (members n))"
    unfolding * by (rule suspect_result(2))
  show "fst (translate_one C (SuspectNode i) n) =
     (case view (members n) i of Some (inc, Alive) \<Rightarrow> [MembershipChanged i Suspect inc] | _ \<Rightarrow> [])"
    by (cases "ml_get (members n) i") (auto simp: ml_suspect_def Let_def view_def split: member_state.split)
qed

lemma translate_dead:
  "members (snd (translate_one C (DeclareDead i) n)) = members n"
  "fst (translate_one C (DeclareDead i) n) =
     (case view (members n) i of Some (inc, _) \<Rightarrow> [MembershipChanged i Dead inc] | None \<Rightarrow> [])"
  by (auto simp: view_def split: option.split)

lemma translate_other:
  assumes "\<And>i. a \<noteq> SuspectNode i" "\<And>i. a \<noteq> DeclareDead i"
  shows "members (snd (translate_one C a n)) = members n" "replay (fst (translate_one C a n)) v = v"
  using assms by (cases a; auto simp: Let_def split_beta split: option.split)+

text \<open>Deaths are recorded in the list before they are translated; every other change is made with its notification.\<close>

lemma replay_translate:
  assumes "\<And>i. DeclareDead i \<in> set as \<Longrightarrow> \<exists>inc. view (members n) i = Some (inc, Dead)"
    "\<And>i. DeclareDead i \<notin> set as \<Longrightarrow> v i = view (members n) i"
  shows "view (members (snd (translate_probe_actions C as n))) = replay (fst (translate_probe_actions C as n)) v"
  using assms
proof (induction as arbitrary: n v)
  case (Cons a as)
  define n1 where "n1 = snd (translate_one C a n)"
  define v1 where "v1 = replay (fst (translate_one C a n)) v"
  note defs = n1_def v1_def
  have dead: "\<exists>inc. view (members n1) i = Some (inc, Dead)" if d: "DeclareDead i \<in> set as" for i
  proof -
    have "DeclareDead i \<in> set (a # as)" using d by simp
    then obtain inc where i: "view (members n) i = Some (inc, Dead)" using Cons.prems(1) [of i] by blast
    show ?thesis
    proof (cases a)
      case (SuspectNode j)
      show ?thesis unfolding n1_def SuspectNode translate_suspect using i by (auto split: option.split member_state.split)
    next
      case (DeclareDead j)
      show ?thesis unfolding n1_def DeclareDead translate_dead using i by simp
    qed (use i translate_other(1) [of a C n] in \<open>auto simp: n1_def\<close>)
  qed
  have agree: "v1 i = view (members n1) i" if "DeclareDead i \<notin> set as" for i
  proof (cases a)
    case (SuspectNode j)
    have "v i = view (members n) i" using Cons.prems(2) [of i] that SuspectNode by simp
    then show ?thesis unfolding defs SuspectNode translate_suspect by (auto split: option.split member_state.split)
  next
    case (DeclareDead j)
    obtain inc where j: "view (members n) j = Some (inc, Dead)" using Cons.prems(1) [of j] DeclareDead by (auto simp del: split_paired_Ex)
    have "v i = view (members n) i" if "i \<noteq> j" using Cons.prems(2) [of i] \<open>DeclareDead i \<notin> set as\<close> that DeclareDead by simp
    then show ?thesis unfolding defs DeclareDead translate_dead by (simp add: j)
  qed (use Cons.prems(2) [of i] that translate_other(1) [of a C n] translate_other(2) [of a C n v] in \<open>auto simp: defs\<close>)
  have "view (members (snd (translate_probe_actions C as n1))) = replay (fst (translate_probe_actions C as n1)) v1"
    by (rule Cons.IH [OF dead agree])
  then show ?case by (simp add: split_beta defs)
next
  case Nil
  then have "v = view (members n)" by (intro ext) simp
  then show ?case by simp
qed

lemma replay_run_probe:
  assumes "run_probe C ev n = Some (as, n')"
  shows "view (members n') = replay as (view (members n))"
proof -
  from assms obtain bs l p where step: "probe_step (node_clock n) ev (members n) (probe n) = Some (bs, l, p)"
    and n': "translate_probe_actions C bs (n\<lparr>members := l, probe := p\<rparr>) = (as, n')"
    by (auto simp: run_probe_def split: option.splits)
  let ?n = "n\<lparr>members := l, probe := p\<rparr>"
  have "view (members (snd (translate_probe_actions C bs ?n))) = replay (fst (translate_probe_actions C bs ?n)) (view (members n))"
  proof (rule replay_translate)
    fix i
    show "DeclareDead i \<in> set bs \<Longrightarrow> \<exists>inc. view (members ?n) i = Some (inc, Dead)" using step_view(1) [OF step, of i] by auto
    show "DeclareDead i \<notin> set bs \<Longrightarrow> view (members n) i = view (members ?n) i" using step_view(2) [OF step, of i] by simp
  qed
  then show ?thesis by (simp add: n')
qed

lemma replay_handlers:
  "view (members (snd (handle_ping C src seq pb n))) = replay (fst (handle_ping C src seq pb n)) (view (members n))"
  "view (members (snd (handle_ping_req C src target seq pb n))) = replay (fst (handle_ping_req C src target seq pb n)) (view (members n))"
  "view (members (snd (handle_join_request src n))) = replay (fst (handle_join_request src n)) (view (members n))"
  by (simp_all add: handle_ping_def handle_ping_req_def handle_join_request_def apply_piggyback_def Let_def split_beta
    apply_notified replay_updates)

lemma replay_step:
  assumes "node_inv m" "node_step C i m = Some (bs, m')"
  shows "view (members m') = replay bs (view (members m))"
proof (cases i)
  case (InAck src seq pb)
  from assms(2) [unfolded InAck node_step.simps] obtain cs m2 where
    run: "run_probe C (AckReceived src seq) (snd (apply_piggyback C pb m)) = Some (cs, m2)" and
    m': "members m' = members m2" "\<forall>v. replay bs v = replay cs (replay (fst (apply_piggyback C pb m)) v)"
    by (rule handle_ack_result) auto
  then show ?thesis using replay_run_probe [OF run] by (simp add: apply_piggyback_def replay_updates)
next
  case (InIndirectAck target seq pb)
  then obtain cs where run: "run_probe C (IndirectAckReceived target seq) (snd (apply_piggyback C pb m)) = Some (cs, m')"
    and bs: "bs = fst (apply_piggyback C pb m) @ cs"
    using assms(2) by (auto simp: node_handle_indirect_ack_def split_beta)
  show ?thesis using replay_run_probe [OF run] by (simp add: bs apply_piggyback_def replay_updates)
next
  case (InJoinResponse rs)
  then show ?thesis using replay_join [OF assms(1), of rs] assms(2) by simp
next
  case (InTick t)
  then show ?thesis using replay_run_probe [of C Tick "m\<lparr>node_clock := t\<rparr>" bs m'] assms(2) by (simp add: node_tick_def)
next
  case (InSendFailure target)
  then show ?thesis using replay_run_probe [of C "SendFailed target" m bs m'] assms(2) by (simp add: report_send_failure_def)
next
  case (InPing src seq pb)
  then show ?thesis using replay_handlers(1) [of C src seq pb m] assms(2) by simp
next
  case (InPingReq src target seq pb)
  then show ?thesis using replay_handlers(2) [of C src target seq pb m] assms(2) by simp
next
  case (InJoinRequest src)
  then show ?thesis using replay_handlers(3) [of src m] assms(2) by simp
next
  case InLeave
  then show ?thesis using assms(2) by (auto simp: node_leave_def)
qed

text \<open>A codec that carries no gossip, for concrete runs.\<close>

definition silent_codec :: codec where
  "silent_codec = \<lparr>enc = \<lambda>_. None, dec = \<lambda>_. None\<rparr>"

section \<open>Refutation\<close>

text \<open>A node that is wrongly accused clears its name. An accusation at an older incarnation is ignored.
  One at the current incarnation \<open>own\<close> makes the node move to \<open>own + 1\<close> and queue that as gossip, and the
  queued record replaces the suspicion or death in the list of any other node that still holds it.\<close>

theorem refutation_overrides_accusation:
  fixes n u l
  defines "self \<equiv> ml_self_id (members n)" and "own \<equiv> ml_self_incarnation (members n)"
  defines "n' \<equiv> snd (apply_membership_update u n)" and "r \<equiv> membership_update_of self Alive (own + 1)"
  assumes "mu_node_id u = self" "mu_state u \<noteq> Alive" "own \<noteq> - 1"
    "\<forall>e \<in> set (dq_entries (dissemination n)). mu_node_id (de_update e) = self \<longrightarrow> mu_incarnation (de_update e) \<le> own"
    "ml_self_id l \<noteq> self" "view l self = Some (inc, st)" "inc \<le> own"
  shows "if mu_incarnation u < own then n' = n
    else ml_self_incarnation (members n') = own + 1 \<and>
      (\<exists>e \<in> set (dq_entries (dissemination n')). de_update e = r \<and> de_remaining e = transmit_budget (dissemination n) (cluster_size n)) \<and>
      view (snd (ml_apply (mu_node_id r) (mu_state r) (mu_incarnation r) l)) self = Some (own + 1, Alive)"
proof (cases "mu_incarnation u < own")
  case True
  then show ?thesis using assms(5) by (auto simp: n'_def apply_membership_update_def self_def own_def Let_def)
next
  case False
  define n1 where "n1 = n\<lparr>members := snd (ml_refute (members n))\<rparr>"
  have n': "n' = gossip self Alive (own + 1) n1"
    using False assms(5,6) by (cases "mu_state u") (auto simp: n'_def n1_def apply_membership_update_def self_def own_def ml_refute_def Let_def)
  have more: "own < own + 1" using assms(7) by (rule less_Suc_word)
  then have "dominates r (de_update e)" if "e \<in> set (dq_entries (dissemination n))" "mu_node_id (de_update e) = mu_node_id r" for e
    using assms(8) that by (auto simp: dominates_def r_def membership_update_of_def)
  then have "\<lparr>de_update = r, de_remaining = transmit_budget (dissemination n) (cluster_size n)\<rparr> \<in>
      set (dq_entries (dq_enqueue r (cluster_size n) (dissemination n)))"
    by (intro enqueue_dominating) blast
  moreover have "cluster_size n1 = cluster_size n" by (simp add: n1_def cluster_size_def alive_count_def ml_refute_def)
  ultimately have "\<exists>e \<in> set (dq_entries (dissemination n')). de_update e = r \<and> de_remaining e = transmit_budget (dissemination n) (cluster_size n)"
    by (auto simp: n' gossip_def n1_def r_def intro!: bexI)
  moreover have "ml_self_incarnation (members n') = own + 1" by (simp add: n' n1_def ml_refute_def own_def)
  moreover have "view (snd (ml_apply self Alive (own + 1) l)) self = Some (own + 1, Alive)"
    using assms(9-10) le_less_trans [OF assms(11) more] by (simp add: view_apply less_prod_def)
  ultimately show ?thesis using False by (simp add: r_def membership_update_of_def)
qed

theorem refutation_overrides_accusation_witness:
  "let n = swim_node_new (NodeId 1) swim_config_default 0;
       l = apply_all [(NodeId 1, Suspect, 0)] (member_list_new (NodeId 2));
       n' = snd (apply_membership_update (membership_update_of (NodeId 1) Suspect 0) n) in
   ml_self_incarnation (members n') = 1 \<and> view (snd (ml_apply (NodeId 1) Alive 1 l)) (NodeId 1) = Some (1, Alive)"
proof -
  let ?n = "swim_node_new (NodeId 1) swim_config_default 0"
  let ?l = "apply_all [(NodeId 1, Suspect, 0)] (member_list_new (NodeId 2))"
  have "view ?l (NodeId 1) = Some (0, Suspect)" "ml_self_id ?l = NodeId 2"
    by (simp_all add: apply_all_def view_def swim_defs)
  then show ?thesis
    using refutation_overrides_accusation [of "membership_update_of (NodeId 1) Suspect 0" ?n ?l 0 Suspect]
    by (simp add: swim_node_new_def member_list_new_def membership_update_of_def dissemination_new_def)
qed

end
