(* ===== verification/Swim_Detection.thy ===== *)
theory Swim_Detection
  imports Swim_Node
begin

text \<open>
  Completeness of the failure detector: a member that stays silent is declared dead within a bounded time,
  whatever else the node handles meanwhile.
\<close>

section \<open>Detection of a silent member\<close>

text \<open>The three stages of a failed probe of node \<open>i\<close> at incarnation \<open>inc\<close>, each entered at time \<open>s\<close>: the
  direct ping is out, the indirect pings are out, the node is suspected and its timer runs.\<close>

definition no_timer :: "node_id \<Rightarrow> swim_probe \<Rightarrow> bool" where
  "no_timer i p \<longleftrightarrow> i \<notin> stm_node_id ` set (suspicion_timers p)"

fun stage :: "nat \<Rightarrow> node_id \<Rightarrow> u64 \<Rightarrow> nat \<Rightarrow> member_list \<Rightarrow> swim_probe \<Rightarrow> bool" where
  "stage 0 i inc s l p \<longleftrightarrow> (\<exists>q. phase p = WaitingDirectAck i q s) \<and> no_timer i p \<and> view l i = Some (inc, Alive)"
| "stage (Suc 0) i inc s l p \<longleftrightarrow> (\<exists>q. phase p = WaitingIndirectAck i q s) \<and> no_timer i p \<and> view l i = Some (inc, Alive)"
| "stage _ i inc s l p \<longleftrightarrow> \<lparr>stm_node_id = i, stm_started_at = s\<rparr> \<in> set (suspicion_timers p) \<and> view l i = Some (inc, Suspect)"

definition patience :: "swim_config \<Rightarrow> nat \<Rightarrow> nat" where
  "patience c k = (if k < 2 then probe_timeout c else suspicion_timeout c)"

text \<open>What the steps of the detector leave alone.\<close>

lemma pick_frame:
  "sp_config (snd (pick_probe_target l p)) = sp_config p" "health (snd (pick_probe_target l p)) = health p"
  "suspicion_timers (snd (pick_probe_target l p)) = suspicion_timers p" "sp_now (snd (pick_probe_target l p)) = sp_now p"
  "phase (snd (pick_probe_target l p)) = phase p"
  by (simp_all add: pick_probe_target_def Let_def)

lemma start_frame:
  "sp_config (snd (start_probe_for i p)) = sp_config p" "health (snd (start_probe_for i p)) = health p"
  "suspicion_timers (snd (start_probe_for i p)) = suspicion_timers p"
  by (simp_all add: probe_start_defs)

lemma picked_frame:
  assumes "f = (case pick_probe_target l p of (None, q) \<Rightarrow> ([], q) | (Some t, q) \<Rightarrow> start_probe_for t q)"
  shows "sp_config (snd f) = sp_config p" "health (snd f) = health p" "suspicion_timers (snd f) = suspicion_timers p"
  using pick_frame [of l p] assms by (cases "pick_probe_target l p"; cases "fst (pick_probe_target l p)"; simp add: start_frame)+

lemma maybe_frame:
  "sp_config (snd (maybe_start_probe l p)) = sp_config p" "health (snd (maybe_start_probe l p)) = health p"
  "suspicion_timers (snd (maybe_start_probe l p)) = suspicion_timers p"
  "sp_config (snd (maybe_safety_sweep l p)) = sp_config p" "health (snd (maybe_safety_sweep l p)) = health p"
  "suspicion_timers (snd (maybe_safety_sweep l p)) = suspicion_timers p"
  "sp_config (snd (maybe_start_demand_probe p)) = sp_config p" "health (snd (maybe_start_demand_probe p)) = health p"
  "suspicion_timers (snd (maybe_start_demand_probe p)) = suspicion_timers p"
  by (simp_all add: maybe_start_probe_def maybe_start_demand_probe_def maybe_safety_sweep_def Let_def
    picked_frame [OF refl] start_frame split: probe_mode.split list.split)

lemma maybe_busy:
  "phase p \<noteq> Idle \<Longrightarrow> phase (snd (maybe_start_probe l p)) = phase p"
  "phase p \<noteq> Idle \<Longrightarrow> phase (snd (maybe_safety_sweep l p)) = phase p"
  "phase p \<noteq> Idle \<Longrightarrow> phase (snd (maybe_start_demand_probe p)) = phase p"
  by (simp_all add: maybe_start_probe_def maybe_start_demand_probe_def maybe_safety_sweep_def Let_def split: probe_mode.split)

lemma start_probes_frame:
  "sp_config (snd (start_probes l p)) = sp_config p" "health (snd (start_probes l p)) = health p"
  "suspicion_timers (snd (start_probes l p)) = suspicion_timers p"
  "phase p \<noteq> Idle \<Longrightarrow> phase (snd (start_probes l p)) = phase p"
  by (simp_all add: start_probes_def split_beta maybe_frame maybe_busy split: probe_mode.split)

lemma reprobe_frame:
  "sp_config (snd (maybe_reprobe_dead l p)) = sp_config p" "health (snd (maybe_reprobe_dead l p)) = health p"
  "suspicion_timers (snd (maybe_reprobe_dead l p)) = suspicion_timers p" "phase (snd (maybe_reprobe_dead l p)) = phase p"
  by (auto simp: maybe_reprobe_dead_def next_sequence_def Let_def)

lemma start_suspects:
  "SuspectNode j \<notin> set (fst (start_probes l p))" "SuspectNode j \<notin> set (fst (maybe_reprobe_dead l p))"
  by (auto simp: maybe_reprobe_dead_def start_probes_def maybe_start_probe_def
    maybe_start_demand_probe_def maybe_safety_sweep_def probe_start_defs Let_def split_beta
    split: probe_mode.split option.split list.split)

lemma expire_frame:
  assumes "expire_each is l p = (as, l', p')"
  shows "sp_config p' = sp_config p \<and> health p' = health p \<and>
    suspicion_timers p' = filter (\<lambda>t. stm_node_id t \<notin> set is) (suspicion_timers p) \<and>
    (is_currently_probing j p \<longrightarrow> view l j = Some (inc, Alive) \<longrightarrow> phase p' = phase p)"
  using assms
proof (induction "is" l p arbitrary: as l' p' rule: expire_each.induct)
  case (2 i "is" l p)
  define d where "d = (if (case ml_get l i of Some e \<Rightarrow> me_state e = Suspect | None \<Rightarrow> False) then declare_dead i l else (False, l))"
  define p1 where "p1 = (if fst d \<and> is_currently_probing i p then p\<lparr>phase := Idle\<rparr> else p)"
  obtain bs where bs: "expire_each is (snd d) (cancel_suspicion_timer i p1) = (bs, l', p')"
    using "2.prems" by (auto simp: Let_def split_beta d_def [symmetric] p1_def [symmetric] prod_eq_iff)
  have IH: "sp_config p' = sp_config p1 \<and> health p' = health p1 \<and>
      suspicion_timers p' = filter (\<lambda>t. stm_node_id t \<notin> set is) (filter (\<lambda>t. stm_node_id t \<noteq> i) (suspicion_timers p1)) \<and>
      (is_currently_probing j p1 \<longrightarrow> view (snd d) j = Some (inc, Alive) \<longrightarrow> phase p' = phase p1)"
    using "2.IH" [OF refl d_def prod.collapse p1_def bs] by (simp add: cancel_suspicion_timer_def is_currently_probing_def)
  have keep: "phase p1 = phase p \<and> view (snd d) j = view l j" if j: "is_currently_probing j p" "view l j = Some (inc, Alive)"
  proof (cases "i = j")
    case True
    then have "d = (False, l)" using j(2) by (auto simp: d_def view_def)
    then show ?thesis by (simp add: p1_def)
  next
    case False
    then have "\<not> is_currently_probing i p" using j(1) by (auto simp: is_currently_probing_def split: probe_phase.splits)
    then show ?thesis using False by (auto simp: p1_def d_def declare_dead_result(2) split: option.split member_state.split)
  qed
  show ?case using IH keep by (auto simp: p1_def is_currently_probing_def)
qed simp

lemma timeout_health: "health p = None \<Longrightarrow> health (snd (check_probe_timeout l p)) = None"
  by (simp add: check_probe_timeout_def start_suspicion_timer_def split: probe_phase.split)

section \<open>One tick\<close>

text \<open>The tick of the detector, without Lifeguard: the timeout is the configured one.\<close>

lemma tick_parts:
  assumes "health p = None"
  obtains a1 p1 a2 l' p2 as p' where
    "check_probe_timeout l (p\<lparr>sp_now := t, step_counter := step_counter p + 1\<rparr>) = (a1, p1)"
    "expire_each (expired_nodes (suspicion_timeout (sp_config p)) p1) l p1 = (a2, l', p2)"
    "sp_config p1 = sp_config p" "health p1 = None" "sp_now p1 = t"
    "probe_step t Tick l p = Some (a1 @ a2 @ as, l', p')" "\<forall>j. DeclareDead j \<notin> set as \<and> SuspectNode j \<notin> set as"
    "sp_config p' = sp_config p" "health p' = None" "suspicion_timers p' = suspicion_timers p2"
    "phase p2 \<noteq> Idle \<longrightarrow> phase p' = phase p2"
proof -
  let ?p = "p\<lparr>sp_now := t, step_counter := step_counter p + 1\<rparr>"
  obtain a1 p1 where c: "check_probe_timeout l ?p = (a1, p1)" by fastforce
  have p1: "sp_config p1 = sp_config p" "health p1 = None" "sp_now p1 = t"
    using c assms timeout_timers(2,3) [of l ?p] timeout_health [of ?p l] by simp_all
  obtain a2 l' p2 where e: "expire_each (expired_nodes (suspicion_timeout (sp_config p)) p1) l p1 = (a2, l', p2)" by (rule prod_cases3)
  note f = expire_frame [OF e]
  let ?s = "start_probes l' p2" and ?r = "maybe_reprobe_dead l' (snd (start_probes l' p2))"
  have "probe_step t Tick l p = Some (a1 @ a2 @ (fst ?s @ fst ?r), l', snd ?r)"
    using c e p1 by (simp add: check_suspicion_timeouts_def effective_timeout_def split_beta)
  moreover have "DeclareDead j \<notin> set (fst ?s @ fst ?r) \<and> SuspectNode j \<notin> set (fst ?s @ fst ?r)" for j
    using start_actions(3) [of j l' "snd ?s"] start_actions(4) [of j l' p2] start_suspects [of j] by simp
  ultimately show thesis
    using that [OF c e] p1 f by (simp add: start_probes_frame reprobe_frame)
qed

lemma not_expired:
  assumes "i \<in> set (expired_nodes T p)"
  obtains t where "t \<in> set (suspicion_timers p)" "stm_node_id t = i" "T \<le> sp_now p - stm_started_at t"
  using assms by (auto simp: expired_nodes_def)

lemma stage_waiting:
  "k < 2 \<Longrightarrow> stage k i inc s l p \<longleftrightarrow>
    (\<exists>q. phase p = (if k = 0 then WaitingDirectAck i q s else WaitingIndirectAck i q s)) \<and> no_timer i p \<and> view l i = Some (inc, Alive)"
  by (cases "k = 0") (auto simp: less_Suc_eq numeral_2_eq_2)

lemma timeout_cases:
  assumes "phase p = (if k = 0 then WaitingDirectAck i q s else WaitingIndirectAck i q s)" "no_timer i p"
  shows "sp_now p - s < probe_timeout (sp_config p) \<Longrightarrow> check_probe_timeout l p = ([], p)"
    "probe_timeout (sp_config p) \<le> sp_now p - s \<Longrightarrow> k = 0 \<Longrightarrow>
      snd (check_probe_timeout l p) = p\<lparr>phase := WaitingIndirectAck i q (sp_now p)\<rparr> \<and> SuspectNode i \<notin> set (fst (check_probe_timeout l p))"
    "probe_timeout (sp_config p) \<le> sp_now p - s \<Longrightarrow> k \<noteq> 0 \<Longrightarrow>
      \<lparr>stm_node_id = i, stm_started_at = sp_now p\<rparr> \<in> set (suspicion_timers (snd (check_probe_timeout l p))) \<and>
      SuspectNode i \<in> set (fst (check_probe_timeout l p))"
  using assms by (auto simp: check_probe_timeout_def start_suspicion_timer_def no_timer_def split: if_splits)

text \<open>A probe of \<open>i\<close> is out: it stays out until its timeout, and then moves to the next stage.\<close>

lemma tick_waiting:
  assumes "health p = None" "0 < suspicion_timeout (sp_config p)" "k < 2" "stage k i inc s l p"
  obtains as l' p' where "probe_step t Tick l p = Some (as, l', p')" "sp_config p' = sp_config p" "health p' = None"
    "view l' i = Some (inc, Alive)"
    "t - s < probe_timeout (sp_config p) \<Longrightarrow> stage k i inc s l' p' \<and> SuspectNode i \<notin> set as"
    "probe_timeout (sp_config p) \<le> t - s \<Longrightarrow> k = 0 \<Longrightarrow> stage 1 i inc t l' p' \<and> SuspectNode i \<notin> set as"
    "probe_timeout (sp_config p) \<le> t - s \<Longrightarrow> k = 1 \<Longrightarrow>
      \<lparr>stm_node_id = i, stm_started_at = t\<rparr> \<in> set (suspicion_timers p') \<and> SuspectNode i \<in> set as"
proof -
  let ?c = "sp_config p" and ?p = "p\<lparr>sp_now := t, step_counter := step_counter p + 1\<rparr>"
  from assms(1) obtain a1 p1 a2 l' p2 as p' where
    c: "check_probe_timeout l ?p = (a1, p1)" and
    e: "expire_each (expired_nodes (suspicion_timeout ?c) p1) l p1 = (a2, l', p2)" and
    p1: "sp_config p1 = ?c" "health p1 = None" "sp_now p1 = t" and
    step: "probe_step t Tick l p = Some (a1 @ a2 @ as, l', p')" and
    quiet: "\<forall>j. DeclareDead j \<notin> set as \<and> SuspectNode j \<notin> set as" and
    p': "sp_config p' = ?c" "health p' = None" "suspicion_timers p' = suspicion_timers p2" "phase p2 \<noteq> Idle \<longrightarrow> phase p' = phase p2"
    by (rule tick_parts)
  from assms(4) [unfolded stage_waiting [OF assms(3)]] obtain q where
    q: "phase p = (if k = 0 then WaitingDirectAck i q s else WaitingIndirectAck i q s)" and
    alive: "view l i = Some (inc, Alive)" and fresh: "no_timer i p" by blast
  have "phase ?p = (if k = 0 then WaitingDirectAck i q s else WaitingIndirectAck i q s)" "no_timer i ?p"
    using q fresh by (simp_all add: no_timer_def)
  note out = timeout_cases [OF this, of l, unfolded c fst_conv snd_conv]
  have "t' \<in> set (suspicion_timers p1) \<Longrightarrow> stm_node_id t' = i \<Longrightarrow> stm_started_at t' = t" for t'
    using timeout_timers(1) [of t' l ?p] c fresh by (auto simp: no_timer_def)
  then have live: "i \<notin> set (expired_nodes (suspicion_timeout ?c) p1)"
    using assms(2) p1(3) by (auto elim!: not_expired)
  then have "DeclareDead i \<notin> set a2" using expire_each_effect(1) [OF e] by blast
  then have view': "view l' i = Some (inc, Alive)" using expire_each_effect(2) [OF e] alive by simp
  have no_suspect: "SuspectNode i \<notin> set a2" using expire_each_effect(4) [OF e] by auto
  have timers: "t' \<in> set (suspicion_timers p') \<longleftrightarrow> t' \<in> set (suspicion_timers p1)" if "stm_node_id t' = i" for t'
    using expire_frame [OF e] p'(3) live that by auto
  then have fresh': "no_timer i p1 \<Longrightarrow> no_timer i p'" by (auto simp: no_timer_def)
  have phase': "is_currently_probing i p1 \<Longrightarrow> phase p' = phase p1"
    using expire_frame [OF e, of i inc] alive p'(4) by (auto simp: is_currently_probing_def)
  show thesis
  proof (rule that [OF step p'(1,2) view'])
    assume "t - s < probe_timeout ?c"
    then have "a1 = []" "p1 = ?p" using out(1) by simp_all
    moreover have "no_timer i p1" "is_currently_probing i p1" using q fresh calculation(2)
      by (simp_all add: no_timer_def is_currently_probing_def)
    moreover have "phase p1 = phase p" using calculation(2) by simp
    ultimately show "stage k i inc s l' p' \<and> SuspectNode i \<notin> set (a1 @ a2 @ as)"
      using q view' fresh' phase' no_suspect quiet by (auto simp: stage_waiting [OF assms(3)])
  next
    assume "probe_timeout ?c \<le> t - s" "k = 0"
    then have "p1 = ?p\<lparr>phase := WaitingIndirectAck i q t\<rparr>" "SuspectNode i \<notin> set a1" using out(2) by simp_all
    moreover have "no_timer i p1" "is_currently_probing i p1" "phase p1 = WaitingIndirectAck i q t"
      using fresh calculation(1) by (simp_all add: no_timer_def is_currently_probing_def)
    ultimately show "stage 1 i inc t l' p' \<and> SuspectNode i \<notin> set (a1 @ a2 @ as)"
      using view' fresh' phase' no_suspect quiet by simp
  next
    assume "probe_timeout ?c \<le> t - s" "k = 1"
    then show "\<lparr>stm_node_id = i, stm_started_at = t\<rparr> \<in> set (suspicion_timers p') \<and> SuspectNode i \<in> set (a1 @ a2 @ as)"
      using timers out(3) by simp
  qed
qed

text \<open>Node \<open>i\<close> is suspected: its timer runs until the suspicion timeout, and then the node is dead.\<close>

lemma tick_suspected:
  assumes "health p = None" "probe_inv p" "stage 2 i inc s l p"
  obtains as l' p' where "probe_step t Tick l p = Some (as, l', p')" "sp_config p' = sp_config p" "health p' = None"
    "t - s < suspicion_timeout (sp_config p) \<Longrightarrow> stage 2 i inc s l' p'"
    "suspicion_timeout (sp_config p) \<le> t - s \<Longrightarrow> DeclareDead i \<in> set as"
proof -
  let ?c = "sp_config p" and ?p = "p\<lparr>sp_now := t, step_counter := step_counter p + 1\<rparr>"
  from assms(1) obtain a1 p1 a2 l' p2 as p' where
    c: "check_probe_timeout l ?p = (a1, p1)" and
    e: "expire_each (expired_nodes (suspicion_timeout ?c) p1) l p1 = (a2, l', p2)" and
    p1: "sp_config p1 = ?c" "health p1 = None" "sp_now p1 = t" and
    step: "probe_step t Tick l p = Some (a1 @ a2 @ as, l', p')" and
    p': "sp_config p' = ?c" "health p' = None" "suspicion_timers p' = suspicion_timers p2"
    by (rule tick_parts)
  have sus: "view l i = Some (inc, Suspect)" and timer: "\<lparr>stm_node_id = i, stm_started_at = s\<rparr> \<in> set (suspicion_timers p)"
    using assms(3) by (auto simp: numeral_2_eq_2)
  have timer1: "\<lparr>stm_node_id = i, stm_started_at = s\<rparr> \<in> set (suspicion_timers p1)"
    using c timer by (auto simp: check_probe_timeout_def start_suspicion_timer_def split: probe_phase.splits if_splits)
  have "probe_inv p1" using probe_inv_handlers(1) [of ?p l] c assms(2) by simp
  then have only: "t' = \<lparr>stm_node_id = i, stm_started_at = s\<rparr>" if "t' \<in> set (suspicion_timers p1)" "stm_node_id t' = i" for t'
    using that timer1 by (auto simp: probe_inv_def distinct_map inj_on_def)
  have expired: "i \<in> set (expired_nodes (suspicion_timeout ?c) p1) \<longleftrightarrow> suspicion_timeout ?c \<le> t - s"
  proof
    assume "i \<in> set (expired_nodes (suspicion_timeout ?c) p1)"
    then obtain t' where "t' \<in> set (suspicion_timers p1)" "stm_node_id t' = i" "suspicion_timeout ?c \<le> sp_now p1 - stm_started_at t'"
      by (rule not_expired)
    then show "suspicion_timeout ?c \<le> t - s" using only [of t'] p1(3) by simp
  next
    assume "suspicion_timeout ?c \<le> t - s"
    then have "\<lparr>stm_node_id = i, stm_started_at = s\<rparr> \<in> set (filter (\<lambda>t. suspicion_timeout ?c \<le> sp_now p1 - stm_started_at t) (suspicion_timers p1))"
      using timer1 p1(3) by simp
    from imageI [OF this, of stm_node_id] show "i \<in> set (expired_nodes (suspicion_timeout ?c) p1)" by (simp add: expired_nodes_def)
  qed
  show thesis
  proof (rule that [OF step p'(1,2)])
    assume "t - s < suspicion_timeout ?c"
    then have live: "i \<notin> set (expired_nodes (suspicion_timeout ?c) p1)" using expired by simp
    then have "DeclareDead i \<notin> set a2" using expire_each_effect(1) [OF e] by blast
    then have "view l' i = Some (inc, Suspect)" using expire_each_effect(2) [OF e] sus by simp
    then show "stage 2 i inc s l' p'" using expire_frame [OF e] p'(3) live timer1 by (simp add: numeral_2_eq_2)
  next
    assume "suspicion_timeout ?c \<le> t - s"
    then show "DeclareDead i \<in> set (a1 @ a2 @ as)" using expire_each_effect(3) [OF e _ sus] expired by simp
  qed
qed

section \<open>Ticks and other inputs of the node\<close>

lemma translate_frame [simp]:
  "probe (snd (translate_one C a n)) = probe n" "probe (snd (translate_probe_actions C as n)) = probe n"
proof -
  show one: "probe (snd (translate_one C a n)) = probe n" for a n
    by (cases a) (auto simp: Let_def split_beta split: bool.split option.split)
  show "probe (snd (translate_probe_actions C as n)) = probe n"
    by (induction as arbitrary: n) (simp_all add: split_beta one)
qed

lemma translate_one_view:
  "a \<noteq> SuspectNode i \<Longrightarrow> view (members (snd (translate_one C a n))) i = view (members n) i"
  "view (members n) i = Some (inc, st) \<Longrightarrow> st \<noteq> Alive \<Longrightarrow> view (members (snd (translate_one C a n))) i = Some (inc, st)"
proof -
  show "a \<noteq> SuspectNode i \<Longrightarrow> view (members (snd (translate_one C a n))) i = view (members n) i"
    using translate_dead(1) [of C _ n] translate_other(1) [of a C n]
    by (cases a) (auto simp: translate_suspect(1) split: option.split member_state.split simp del: translate_one.simps)
  show "view (members n) i = Some (inc, st) \<Longrightarrow> st \<noteq> Alive \<Longrightarrow> view (members (snd (translate_one C a n))) i = Some (inc, st)"
    using translate_dead(1) [of C _ n] translate_other(1) [of a C n]
    by (cases a) (auto simp: translate_suspect(1) split: option.split member_state.split simp del: translate_one.simps)
qed

lemma translate_view:
  "SuspectNode i \<notin> set as \<Longrightarrow> view (members (snd (translate_probe_actions C as n))) i = view (members n) i"
  "view (members n) i = Some (inc, st) \<Longrightarrow> st \<noteq> Alive \<Longrightarrow>
    view (members (snd (translate_probe_actions C as n))) i = Some (inc, st)"
  by (induction as arbitrary: n) (auto simp: split_beta translate_one_view simp del: translate_one.simps)

lemma translate_suspects:
  assumes "SuspectNode i \<in> set as" "view (members n) i = Some (inc, Alive)"
  shows "view (members (snd (translate_probe_actions C as n))) i = Some (inc, Suspect)"
  using assms
proof (induction as arbitrary: n)
  case (Cons a as)
  let ?n = "snd (translate_one C a n)"
  show ?case
  proof (cases "a = SuspectNode i")
    case True
    then have "view (members ?n) i = Some (inc, Suspect)" using Cons.prems(2) translate_suspect(1) [of C i n] by simp
    then show ?thesis using translate_view(2) [of ?n i inc Suspect C as] by (simp add: split_beta del: translate_one.simps)
  next
    case False
    then show ?thesis using Cons.IH [of ?n] Cons.prems translate_one_view(1) [of a i C n]
      by (simp add: split_beta del: translate_one.simps)
  qed
qed simp

lemma translate_notifies:
  assumes "DeclareDead i \<in> set as" "view (members n) i = Some (inc, Dead)"
  shows "MembershipChanged i Dead inc \<in> set (fst (translate_probe_actions C as n))"
  using assms
proof (induction as arbitrary: n)
  case (Cons a as)
  then show ?case using Cons.IH [of "snd (translate_one C a n)"] translate_one_view(2) [of n i inc Dead C a] translate_dead(2) [of C i n]
    by (auto simp: split_beta simp del: translate_one.simps)
qed simp

text \<open>The node watches \<open>i\<close>: it is in the stage, well-formed, and runs without Lifeguard.\<close>

definition watching :: "nat \<Rightarrow> node_id \<Rightarrow> u64 \<Rightarrow> nat \<Rightarrow> swim_config \<Rightarrow> swim_node \<Rightarrow> bool" where
  "watching k i inc s c n \<longleftrightarrow> stage k i inc s (members n) (probe n) \<and> sp_config (probe n) = c \<and>
     health (probe n) = None \<and> node_inv n"

lemma watching_tick:
  assumes "watching k i inc s c n" "k \<le> 2" "0 < suspicion_timeout c"
  obtains as n' where "node_step C (InTick t) n = Some (as, n')"
    "t - s < patience c k \<Longrightarrow> watching k i inc s c n'"
    "patience c k \<le> t - s \<Longrightarrow> k < 2 \<Longrightarrow> watching (k + 1) i inc t c n'"
    "patience c k \<le> t - s \<Longrightarrow> k = 2 \<Longrightarrow> MembershipChanged i Dead inc \<in> set as"
proof -
  let ?n = "n\<lparr>node_clock := t\<rparr>"
  have n: "stage k i inc s (members n) (probe n)" "sp_config (probe n) = c" "health (probe n) = None" "node_inv n"
    using assms(1) by (simp_all add: watching_def)
  have run: "node_step C (InTick t) n = Some (translate_probe_actions C as (?n\<lparr>members := l, probe := p\<rparr>))"
    if "probe_step t Tick (members n) (probe n) = Some (as, l, p)" for as l p
    using that by (simp add: node_tick_def run_probe_def)
  have ok: "node_inv (snd (translate_probe_actions C as (?n\<lparr>members := l, probe := p\<rparr>)))"
    if "probe_step t Tick (members n) (probe n) = Some (as, l, p)" for as l p
    using node_inv_step [OF n(4), of C "InTick t"] run [OF that] by (simp add: prod_eq_iff)
  show thesis
  proof (cases "k = 2")
    case False
    then have k: "k < 2" using assms(2) by simp
    from tick_waiting [OF n(3) _ k n(1), of t] assms(3) n(2) obtain as l p where
      step: "probe_step t Tick (members n) (probe n) = Some (as, l, p)" and p: "sp_config p = c" "health p = None" and
      alive: "view l i = Some (inc, Alive)" and
      wait: "t - s < probe_timeout c \<Longrightarrow> stage k i inc s l p \<and> SuspectNode i \<notin> set as" and
      out0: "probe_timeout c \<le> t - s \<Longrightarrow> k = 0 \<Longrightarrow> stage 1 i inc t l p \<and> SuspectNode i \<notin> set as" and
      out1: "probe_timeout c \<le> t - s \<Longrightarrow> k = 1 \<Longrightarrow> \<lparr>stm_node_id = i, stm_started_at = t\<rparr> \<in> set (suspicion_timers p) \<and> SuspectNode i \<in> set as"
      by auto
    define n2 where "n2 = ?n\<lparr>members := l, probe := p\<rparr>"
    define n' where "n' = snd (translate_probe_actions C as n2)"
    have n': "probe n' = p" "node_inv n'" using ok [OF step] by (simp_all add: n'_def n2_def)
    have keep: "view (members n') i = view l i" if "SuspectNode i \<notin> set as"
      using translate_view(1) [OF that, of C n2] by (simp add: n'_def n2_def)
    have suspect: "view (members n') i = Some (inc, Suspect)" if "SuspectNode i \<in> set as"
      using translate_suspects [OF that, of n2 inc C] alive by (simp add: n'_def n2_def)
    show thesis
    proof (rule that [of "fst (translate_probe_actions C as n2)" n'])
      show "node_step C (InTick t) n = Some (fst (translate_probe_actions C as n2), n')"
        using run [OF step] by (simp add: n'_def n2_def)
      show "t - s < patience c k \<Longrightarrow> watching k i inc s c n'"
        using wait keep k p n' by (simp add: patience_def watching_def stage_waiting)
      show "patience c k \<le> t - s \<Longrightarrow> k < 2 \<Longrightarrow> watching (k + 1) i inc t c n'"
        using out0 out1 keep suspect k p n'
        by (cases "k = 0") (auto simp: patience_def watching_def less_Suc_eq numeral_2_eq_2)
    qed (use False in simp)
  next
    case True
    from tick_suspected [OF n(3) node_inv_parts(2) [OF n(4)] n(1) [unfolded True], of t] n(2) obtain as l p where
      step: "probe_step t Tick (members n) (probe n) = Some (as, l, p)" and p: "sp_config p = c" "health p = None" and
      wait: "t - s < suspicion_timeout c \<Longrightarrow> stage 2 i inc s l p" and
      out: "suspicion_timeout c \<le> t - s \<Longrightarrow> DeclareDead i \<in> set as"
      by auto
    define n2 where "n2 = ?n\<lparr>members := l, probe := p\<rparr>"
    define n' where "n' = snd (translate_probe_actions C as n2)"
    have n': "probe n' = p" "node_inv n'" using ok [OF step] by (simp_all add: n'_def n2_def)
    show thesis
    proof (rule that [of "fst (translate_probe_actions C as n2)" n'])
      show "node_step C (InTick t) n = Some (fst (translate_probe_actions C as n2), n')"
        using run [OF step] by (simp add: n'_def n2_def)
      show "t - s < patience c k \<Longrightarrow> watching k i inc s c n'"
        using wait True p n' translate_view(2) [of n2 i inc Suspect C as]
        by (simp add: patience_def watching_def numeral_2_eq_2 n'_def n2_def)
      assume "patience c k \<le> t - s"
      then have dead: "DeclareDead i \<in> set as" using out True by (simp add: patience_def)
      obtain inc' where "view (members n) i = Some (inc', Suspect)" "view l i = Some (inc', Dead)"
        using step_view(1) [OF step dead] by blast
      then have "view (members n2) i = Some (inc, Dead)" using n(1) True by (simp add: n2_def numeral_2_eq_2)
      then show "MembershipChanged i Dead inc \<in> set (fst (translate_probe_actions C as n2))"
        by (rule translate_notifies [OF dead])
    qed (use True in simp)
  qed
qed

section \<open>Inputs that bring no news of the member\<close>

definition no_news :: "codec \<Rightarrow> node_id \<Rightarrow> piggyback \<Rightarrow> bool" where
  "no_news C i pb \<longleftrightarrow> i \<notin> mu_node_id ` set (unpack_piggyback (dec C) pb)"

fun silent_on :: "codec \<Rightarrow> node_id \<Rightarrow> node_input \<Rightarrow> bool" where
  "silent_on C i (InPing _ _ pb) = no_news C i pb"
| "silent_on C i (InAck src _ pb) = (src \<noteq> i \<and> no_news C i pb)"
| "silent_on C i (InPingReq _ _ _ pb) = no_news C i pb"
| "silent_on C i (InIndirectAck target _ pb) = (target \<noteq> i \<and> no_news C i pb)"
| "silent_on C i (InJoinResponse rs) = (i \<notin> nr_node_id ` set rs)"
| "silent_on C i _ = True"

text \<open>A change of node and detector that keeps the stage of \<open>i\<close>.\<close>

definition undisturbed :: "node_id \<Rightarrow> swim_node \<Rightarrow> swim_node \<Rightarrow> bool" where
  "undisturbed i n n' \<longleftrightarrow> view (members n') i = view (members n) i \<and> sp_config (probe n') = sp_config (probe n) \<and>
     (health (probe n) = None \<longrightarrow> health (probe n') = None) \<and>
     (is_currently_probing i (probe n) \<longrightarrow> phase (probe n') = phase (probe n)) \<and>
     (\<forall>t. stm_node_id t = i \<longrightarrow> t \<in> set (suspicion_timers (probe n')) \<longleftrightarrow> t \<in> set (suspicion_timers (probe n)))"

lemma undisturbed_trans: "undisturbed i a b \<Longrightarrow> undisturbed i b c \<Longrightarrow> undisturbed i a c"
  by (auto simp: undisturbed_def is_currently_probing_def)

lemma undisturbed_same: "probe n' = probe n \<Longrightarrow> view (members n') i = view (members n) i \<Longrightarrow> undisturbed i n n'"
  by (simp add: undisturbed_def)

lemma undisturbed_watching:
  assumes "undisturbed i n n'" "watching k i inc s c n" "k \<le> 2" "node_inv n'"
  shows "watching k i inc s c n'"
proof (cases "k = 2")
  case True
  then show ?thesis using assms by (auto simp: undisturbed_def watching_def numeral_2_eq_2)
next
  case False
  then have k: "k < 2" using assms(3) by simp
  then have "is_currently_probing i (probe n)" using assms(2) by (auto simp: watching_def stage_waiting is_currently_probing_def)
  moreover have "no_timer i (probe n') = no_timer i (probe n)" using assms(1) by (auto simp: undisturbed_def no_timer_def)
  ultimately show ?thesis using assms(1,2,4) k by (simp add: undisturbed_def watching_def stage_waiting)
qed

lemma demand_frame [simp]:
  "sp_config (enqueue_demand_probe j p) = sp_config p" "health (enqueue_demand_probe j p) = health p"
  "phase (enqueue_demand_probe j p) = phase p" "suspicion_timers (enqueue_demand_probe j p) = suspicion_timers p"
  by (simp_all add: enqueue_demand_probe_def push_demand_def)

lemma undisturbed_update: "mu_node_id u \<noteq> i \<Longrightarrow> undisturbed i n (snd (apply_membership_update u n))"
  by (auto simp: undisturbed_def apply_membership_update_def Let_def split_beta view_apply split: bool.split)

lemma undisturbed_updates: "i \<notin> mu_node_id ` set us \<Longrightarrow> undisturbed i n (snd (apply_updates us n))"
proof (induction us arbitrary: n)
  case (Cons u us)
  then have "undisturbed i n (snd (apply_membership_update u n))" by (intro undisturbed_update) auto
  then show ?case using Cons by (auto simp: split_beta intro: undisturbed_trans)
qed (simp add: undisturbed_same)

lemma undisturbed_piggyback: "no_news C i pb \<Longrightarrow> undisturbed i n (snd (apply_piggyback C pb n))"
  by (simp add: no_news_def apply_piggyback_def undisturbed_updates)

lemma clear_dead_view: "view (members (clear_dead_member j n)) i = (if i = j \<and> (\<exists>inc. view (members n) j = Some (inc, Dead)) then None else view (members n) i)"
proof (cases "ml_get (members n) j")
  case (Some e)
  then have "view (members n) j = Some (me_incarnation e, me_state e)" by (simp add: view_def)
  then show ?thesis using Some by (auto simp: clear_dead_member_def view_remove)
qed (auto simp: clear_dead_member_def view_def)

lemma undisturbed_join_record: "nr_node_id r \<noteq> i \<Longrightarrow> undisturbed i n (snd (join_record r n))"
  by (auto simp: undisturbed_def join_record_def Let_def split_beta view_apply clear_dead_view split: bool.split)

lemma undisturbed_join: "i \<notin> nr_node_id ` set rs \<Longrightarrow> undisturbed i n (snd (handle_join_response rs n))"
proof (induction rs arbitrary: n)
  case (Cons r rs)
  then have "undisturbed i n (snd (join_record r n))" by (intro undisturbed_join_record) auto
  then show ?case using Cons by (auto simp: split_beta intro: undisturbed_trans)
qed (simp add: undisturbed_same)

text \<open>A greeting at incarnation 0 never changes what is known of a member.\<close>

lemma view_greeting: "view l i = Some v \<Longrightarrow> view (snd (ml_apply j Alive 0 l)) i = view l i"
  by (cases v) (auto simp: view_apply less_prod_def)

lemma undisturbed_greeting: "view (members n) i \<noteq> None \<Longrightarrow> undisturbed i n (n\<lparr>members := snd (ml_apply j Alive 0 (members n))\<rparr>)"
  by (auto simp: undisturbed_def view_greeting)

lemma undisturbed_pack: "undisturbed i n (snd (pack C n))" and undisturbed_gossip: "undisturbed i n (gossip j st inc n)"
  and undisturbed_relay: "undisturbed i n (snd (take_relay src seq n))"
  by (simp_all add: undisturbed_same)

lemma undisturbed_run_probe:
  assumes "\<And>seq. ev \<noteq> AckReceived i seq" "\<And>seq. ev \<noteq> IndirectAckReceived i seq" "ev \<noteq> Tick"
  obtains as n' where "run_probe C ev n = Some (as, n')" "undisturbed i n n'"
proof -
  let ?p = "(probe n)\<lparr>sp_now := node_clock n\<rparr>"
  define ap where "ap = (case ev of AckReceived src seq \<Rightarrow> probe_handle_ack src seq ?p
    | IndirectAckReceived target seq \<Rightarrow> probe_handle_indirect_ack target seq ?p | SendFailed to \<Rightarrow> handle_send_failed to (members n) ?p | Tick \<Rightarrow> ([], ?p))"
  let ?n = "n\<lparr>probe := snd ap\<rparr>"
  have run: "run_probe C ev n = Some (translate_probe_actions C (fst ap) ?n)"
    using assms(3) by (cases ev) (auto simp: run_probe_def ap_def split_beta)
  have quiet: "SuspectNode i \<notin> set (fst ap)"
    by (auto simp: ap_def probe_handle_ack_def probe_handle_indirect_ack_def handle_send_failed_def probe_start_defs
      split: swim_event.split probe_phase.split option.split)
  have p: "sp_config (snd ap) = sp_config (probe n) \<and> (health (probe n) = None \<longrightarrow> health (snd ap) = None) \<and>
      (is_currently_probing i (probe n) \<longrightarrow> phase (snd ap) = phase (probe n)) \<and>
      (\<forall>t. stm_node_id t = i \<longrightarrow> t \<in> set (suspicion_timers (snd ap)) \<longleftrightarrow> t \<in> set (suspicion_timers (probe n)))"
    using assms(1,2)
    by (cases ev) (auto simp: ap_def probe_handle_ack_def probe_handle_indirect_ack_def handle_send_failed_def
      probe_answered_def cancel_suspicion_timer_def start_frame is_currently_probing_def push_demand_def
      split: probe_phase.split option.split)
  have "undisturbed i n (snd (translate_probe_actions C (fst ap) ?n))"
    using p translate_view(1) [OF quiet, of C ?n] by (simp add: undisturbed_def)
  then show thesis using that run by (metis prod.collapse)
qed

lemma watching_silent_input:
  assumes "watching k i inc s c n" "k \<le> 2" "silent_on C i inp" "\<And>t. inp \<noteq> InTick t"
  obtains as n' where "node_step C inp n = Some (as, n')" "watching k i inc s c n'"
proof -
  have known: "view (members n) i \<noteq> None"
    using assms(1,2) by (auto simp: watching_def stage_waiting le_less numeral_2_eq_2 less_Suc_eq)
  have "\<exists>as n'. node_step C inp n = Some (as, n') \<and> undisturbed i n n'"
  proof (cases inp)
    case (InPing src seq pb)
    let ?n1 = "snd (apply_piggyback C pb n)"
    let ?n2 = "?n1\<lparr>members := snd (ml_apply src Alive 0 (members ?n1))\<rparr>"
    have n1: "undisturbed i n ?n1" using assms(3) InPing by (simp add: undisturbed_piggyback)
    then have "undisturbed i ?n1 ?n2" using known by (intro undisturbed_greeting) (simp add: undisturbed_def)
    then have "undisturbed i n (snd (pack C ?n2))" using n1 undisturbed_pack undisturbed_trans by blast
    then show ?thesis using InPing by (simp add: handle_ping_def split_beta Let_def)
  next
    case (InAck src seq pb)
    have n1: "undisturbed i n (snd (apply_piggyback C pb n))" using assms(3) InAck by (simp add: undisturbed_piggyback)
    obtain bs n2 where run: "run_probe C (AckReceived src seq) (snd (apply_piggyback C pb n)) = Some (bs, n2)"
      and n2: "undisturbed i (snd (apply_piggyback C pb n)) n2"
      by (rule undisturbed_run_probe [of "AckReceived src seq" i C]) (use assms(3) InAck in auto)
    have n3: "undisturbed i n (snd (take_relay src seq n2))"
      using undisturbed_trans [OF undisturbed_trans [OF n1 n2] undisturbed_relay] .
    moreover have "undisturbed i n (snd (pack C (snd (take_relay src seq n2))))"
      using undisturbed_trans [OF n3 undisturbed_pack] .
    ultimately show ?thesis using InAck run by (cases "fst (take_relay src seq n2)") (auto simp: node_handle_ack_def split_beta)
  next
    case (InPingReq src target seq pb)
    have "undisturbed i n (snd (apply_piggyback C pb n))" using assms(3) InPingReq by (simp add: undisturbed_piggyback)
    then show ?thesis using InPingReq by (auto simp: handle_ping_req_def split_beta Let_def undisturbed_def)
  next
    case (InIndirectAck target seq pb)
    have n1: "undisturbed i n (snd (apply_piggyback C pb n))" using assms(3) InIndirectAck by (simp add: undisturbed_piggyback)
    obtain bs n2 where run: "run_probe C (IndirectAckReceived target seq) (snd (apply_piggyback C pb n)) = Some (bs, n2)"
      and n2: "undisturbed i (snd (apply_piggyback C pb n)) n2"
      by (rule undisturbed_run_probe [of "IndirectAckReceived target seq" i C]) (use assms(3) InIndirectAck in auto)
    then show ?thesis using InIndirectAck undisturbed_trans [OF n1 n2] by (simp add: node_handle_indirect_ack_def split_beta)
  next
    case (InSendFailure target)
    obtain bs n2 where "run_probe C (SendFailed target) n = Some (bs, n2)" "undisturbed i n n2"
      by (rule undisturbed_run_probe [of "SendFailed target" i C n]) auto
    then show ?thesis using InSendFailure by (simp add: report_send_failure_def)
  next
    case (InJoinRequest src)
    have "undisturbed i n (n\<lparr>members := snd (ml_apply src Alive 0 (members n))\<rparr>)" using known by (rule undisturbed_greeting)
    then show ?thesis using InJoinRequest by (auto simp: handle_join_request_def Let_def split_beta undisturbed_def)
  next
    case (InJoinResponse rs)
    then show ?thesis using undisturbed_join [of i rs n] assms(3) by (simp add: prod_eq_iff)
  next
    case InLeave
    then show ?thesis using undisturbed_gossip by (simp add: node_leave_def)
  qed (use assms(4) in auto)
  then obtain as n' where step: "node_step C inp n = Some (as, n')" and u: "undisturbed i n n'" by blast
  have "node_inv n'" using node_inv_step [OF _ step] assms(1) by (simp add: watching_def)
  then show thesis using that step undisturbed_watching [OF u assms(1,2)] by blast
qed

section \<open>The bound\<close>

text \<open>Consecutive ticks come at most \<open>g\<close> apart, the first at most \<open>g\<close> after \<open>t\<close>.\<close>

fun spaced :: "nat \<Rightarrow> nat \<Rightarrow> node_input list \<Rightarrow> bool" where
  "spaced g t [] = True"
| "spaced g t (InTick u # is) = (t \<le> u \<and> u \<le> t + g \<and> spaced g u is)"
| "spaced g t (_ # is) = spaced g t is"

fun last_tick :: "nat \<Rightarrow> node_input list \<Rightarrow> nat" where
  "last_tick t [] = t"
| "last_tick t (InTick u # is) = last_tick u is"
| "last_tick t (_ # is) = last_tick t is"

definition time_left :: "swim_config \<Rightarrow> nat \<Rightarrow> nat \<Rightarrow> nat" where
  "time_left c g k = (2 - k) * (probe_timeout c + g) + suspicion_timeout c"

lemma spaced_other: "(\<And>u. inp \<noteq> InTick u) \<Longrightarrow> spaced g t (inp # is) = spaced g t is \<and> last_tick t (inp # is) = last_tick t is"
  by (cases inp) auto

lemma detection:
  assumes "watching k i inc s c n" "k \<le> 2" "0 < suspicion_timeout c" "spaced g t is" "\<forall>inp \<in> set is. silent_on C i inp"
    "s \<le> t" "if k < 2 then t \<le> s + probe_timeout c else t < s + suspicion_timeout c" "s + time_left c g k \<le> last_tick t is"
  shows "\<exists>m as n'. node_run C (take m is) n = Some (as, n') \<and> MembershipChanged i Dead inc \<in> set as"
  using assms
proof (induction "is" arbitrary: n k s t)
  case Nil
  then have False using less_2_cases [of k] by (cases "k < 2") (auto simp: time_left_def)
  then show ?case ..
next
  case (Cons inp "is")
  have extend: ?case if "node_step C inp n = Some (as, n1)"
    "\<exists>m bs n'. node_run C (take m is) n1 = Some (bs, n') \<and> MembershipChanged i Dead inc \<in> set bs" for as n1
  proof -
    from that(2) obtain m bs n' where "node_run C (take m is) n1 = Some (bs, n')" "MembershipChanged i Dead inc \<in> set bs" by blast
    then have "node_run C (take (Suc m) (inp # is)) n = Some (as @ bs, n')" "MembershipChanged i Dead inc \<in> set (as @ bs)"
      using that(1) by simp_all
    then show ?thesis by blast
  qed
  show ?case
  proof (cases "\<exists>u. inp = InTick u")
    case False
    then obtain as n1 where step: "node_step C inp n = Some (as, n1)" and w: "watching k i inc s c n1"
      using watching_silent_input [OF Cons.prems(1,2)] Cons.prems(5) by (metis list.set_intros(1))
    show ?thesis using Cons.IH [OF w] Cons.prems False spaced_other [of inp g t "is"] by (intro extend [OF step]) auto
  next
    case True
    then obtain u where u: "inp = InTick u" ..
    have gap: "t \<le> u" "u \<le> t + g" "spaced g u is" "s + time_left c g k \<le> last_tick u is" using Cons.prems(4,8) u by auto
    obtain as n1 where step: "node_step C (InTick u) n = Some (as, n1)" and
      wait: "u - s < patience c k \<Longrightarrow> watching k i inc s c n1" and
      next_stage: "patience c k \<le> u - s \<Longrightarrow> k < 2 \<Longrightarrow> watching (k + 1) i inc u c n1" and
      dead: "patience c k \<le> u - s \<Longrightarrow> k = 2 \<Longrightarrow> MembershipChanged i Dead inc \<in> set as"
      by (rule watching_tick [OF Cons.prems(1-3), of C u]) blast
    show ?thesis
    proof (cases "u - s < patience c k")
      case True
      have "if k < 2 then u \<le> s + probe_timeout c else u < s + suspicion_timeout c"
        using True by (auto simp: patience_def)
      then show ?thesis using Cons.IH [OF wait [OF True] Cons.prems(2,3) gap(3)] Cons.prems(5,6) gap step u by (intro extend) auto
    next
      case late: False
      show ?thesis
      proof (cases "k < 2")
        case True
        have t: "t \<le> s + probe_timeout c" using Cons.prems(7) True by simp
        have "time_left c g k = probe_timeout c + g + time_left c g (k + 1)"
          using True by (cases "k = 0") (auto simp: time_left_def less_2_cases_iff)
        then have "u + time_left c g (k + 1) \<le> last_tick u is" using gap t by linarith
        then show ?thesis using Cons.IH [OF next_stage _ Cons.prems(3) gap(3)] Cons.prems(3,5) late True step u by (intro extend) auto
      next
        case False
        then have "MembershipChanged i Dead inc \<in> set as" using dead late Cons.prems(2) by simp
        moreover have "node_run C (take 1 (inp # is)) n = Some (as, n1)" using step u by simp
        ultimately show ?thesis by blast
      qed
    qed
  qed
qed

text \<open>C16. A silent member is declared dead in bounded time. Take a node that has just sent member \<open>i\<close> a direct
  ping at time \<open>s\<close>, with no suspicion of \<open>i\<close> pending and Lifeguard off. Whatever inputs follow, if none is an
  answer from \<open>i\<close> or gossip about it, and ticks come at most \<open>g\<close> apart up to
  \<open>s + 2 * (probe_timeout + g) + suspicion_timeout\<close>, then by that time the node announces that \<open>i\<close> is dead.\<close>

theorem silent_member_is_declared_dead:
  assumes "node_inv n" "health (probe n) = None" "0 < suspicion_timeout c" "sp_config (probe n) = c"
    "phase (probe n) = WaitingDirectAck i seq s" "\<forall>t \<in> set (suspicion_timers (probe n)). stm_node_id t \<noteq> i"
    "view (members n) i = Some (inc, Alive)"
    "spaced g s is" "\<forall>inp \<in> set is. silent_on C i inp"
    "s + 2 * (probe_timeout c + g) + suspicion_timeout c \<le> last_tick s is"
  shows "\<exists>m as n'. node_run C (take m is) n = Some (as, n') \<and> MembershipChanged i Dead inc \<in> set as"
proof (rule detection)
  show "watching 0 i inc s c n" using assms(1-7) by (auto simp: watching_def no_timer_def)
  show "s + time_left c g 0 \<le> last_tick s is" using assms(10) by (simp add: time_left_def)
qed (use assms in auto)

text \<open>The witness: a node with a fresh ping to member 7 out, ticked every 15 seconds, that also hears from member 8.\<close>

definition probing_node :: swim_node where
  "probing_node = (swim_node_new (NodeId 1) swim_config_default 0)
     \<lparr>members := apply_all [(NodeId 7, Alive, 3)] (member_list_new (NodeId 1)),
      probe := (swim_probe_new swim_config_default 0)\<lparr>phase := WaitingDirectAck (NodeId 7) 1 0\<rparr>\<rparr>"

definition silent_run :: "node_input list" where
  "silent_run = [InTick 15000, InPing (NodeId 8) 4 [], InTick 30000, InTick 45000, InAck (NodeId 8) 9 [], InTick 60000,
     InTick 75000, InTick 90000, InTick 105000]"

theorem silent_member_is_declared_dead_witness:
  "\<exists>m as n'. node_run silent_codec (take m silent_run) probing_node = Some (as, n') \<and> MembershipChanged (NodeId 7) Dead 3 \<in> set as"
proof (rule silent_member_is_declared_dead [where g = 15000 and c = swim_config_default and s = 0 and seq = 1])
  show "node_inv probing_node"
    using node_inv_new [of "NodeId 1" swim_config_default 0]
    by (simp add: probing_node_def node_inv_def apply_all_def ml_inv_apply ml_inv_new probe_inv_new)
  show "view (members probing_node) (NodeId 7) = Some (3, Alive)"
    by (simp add: probing_node_def apply_all_def view_apply) (simp add: member_list_new_def view_def ml_get_def)
qed (simp_all add: probing_node_def silent_run_def swim_probe_new_def swim_config_default_def no_news_def unpack_piggyback_def
    silent_codec_def)

end
