(* ===== verification/Location_Cache.thy ===== *)
theory Location_Cache
  imports Gossip_Laws
begin

text \<open>
  The cache of actor locations (\<open>crates/distribution/src/cache.rs\<close>), a bounded least-recently-used map.
  The hash map is an association list in an arbitrary order; recency is the 64-bit \<open>order\<close> stamp of an
  entry. The cache refines a list of locations kept from least to most recently used.
\<close>

section \<open>The cache\<close>

record cache_entry =
  ce_node_id :: node_id
  ce_order :: u64

record location_cache =
  lc_entries :: "(actor_address \<times> cache_entry) list"
  lc_capacity :: nat
  lc_counter :: u64

definition location_cache_new :: "nat \<Rightarrow> location_cache" where
  "location_cache_new capacity = \<lparr>lc_entries = [], lc_capacity = max capacity 1, lc_counter = 0\<rparr>"

definition lc_get :: "actor_address \<Rightarrow> location_cache \<Rightarrow> node_id option \<times> location_cache" where
  "lc_get a c =
     (case map_of (lc_entries c) a of
        Some e \<Rightarrow> (Some (ce_node_id e),
          c\<lparr>lc_counter := lc_counter c + 1, lc_entries := hm_insert a (e\<lparr>ce_order := lc_counter c + 1\<rparr>) (lc_entries c)\<rparr>)
      | None \<Rightarrow> (None, c))"

definition lc_peek :: "actor_address \<Rightarrow> location_cache \<Rightarrow> node_id option" where
  "lc_peek a c = map_option ce_node_id (map_of (lc_entries c) a)"

text \<open>\<open>Iterator::min_by_key\<close>: the first element with the least key.\<close>

fun min_by_key :: "('a \<Rightarrow> 'k::linorder) \<Rightarrow> 'a list \<Rightarrow> 'a option" where
  "min_by_key f [] = None"
| "min_by_key f (x # xs) = (case min_by_key f xs of None \<Rightarrow> Some x | Some y \<Rightarrow> Some (if f x \<le> f y then x else y))"

definition evict_lru :: "location_cache \<Rightarrow> location_cache" where
  "evict_lru c =
     (case min_by_key (\<lambda>(_, e). ce_order e) (lc_entries c) of
        Some (a, _) \<Rightarrow> c\<lparr>lc_entries := hm_remove a (lc_entries c)\<rparr>
      | None \<Rightarrow> c)"

definition lc_insert :: "actor_address \<Rightarrow> node_id \<Rightarrow> location_cache \<Rightarrow> location_cache" where
  "lc_insert a i c =
     (let c1 = c\<lparr>lc_counter := lc_counter c + 1\<rparr>;
          c2 = (if length (lc_entries c1) \<ge> lc_capacity c1 \<and> map_of (lc_entries c1) a = None then evict_lru c1 else c1) in
      c2\<lparr>lc_entries := hm_insert a \<lparr>ce_node_id = i, ce_order = lc_counter c2\<rparr> (lc_entries c2)\<rparr>)"

definition lc_invalidate :: "actor_address \<Rightarrow> location_cache \<Rightarrow> bool \<times> location_cache" where
  "lc_invalidate a c = (map_of (lc_entries c) a \<noteq> None, c\<lparr>lc_entries := hm_remove a (lc_entries c)\<rparr>)"

definition lc_invalidate_node :: "node_id \<Rightarrow> location_cache \<Rightarrow> nat \<times> location_cache" where
  "lc_invalidate_node i c =
     (let kept = filter (\<lambda>(_, e). ce_node_id e \<noteq> i) (lc_entries c) in
      (length (lc_entries c) - length kept, c\<lparr>lc_entries := kept\<rparr>))"

definition lc_len :: "location_cache \<Rightarrow> nat" where
  "lc_len c = length (lc_entries c)"

definition lc_locations :: "location_cache \<Rightarrow> (actor_address \<times> node_id) list" where
  "lc_locations c = map (\<lambda>(a, e). (a, ce_node_id e)) (lc_entries c)"

section \<open>Order\<close>

definition stamp :: "actor_address \<times> cache_entry \<Rightarrow> u64" where
  "stamp x = ce_order (snd x)"

definition cache_inv :: "location_cache \<Rightarrow> bool" where
  "cache_inv c \<longleftrightarrow> hm_inv (lc_entries c) \<and> distinct (map stamp (lc_entries c)) \<and>
     (\<forall>x \<in> set (lc_entries c). stamp x \<le> lc_counter c) \<and> 0 < lc_capacity c \<and> length (lc_entries c) \<le> lc_capacity c"

lemma min_by_key_hd: "min_by_key f xs = (case sort_key f xs of [] \<Rightarrow> None | y # _ \<Rightarrow> Some y)"
proof (induction xs)
  case (Cons x xs)
  then show ?case by (cases "sort_key f xs") auto
qed simp

lemma sort_key_unique:
  assumes "mset ys = mset xs" "sorted (map f ys)" "distinct (map f xs)"
  shows "sort_key f xs = ys"
proof -
  have "sort (map f xs) = map f ys" by (rule properties_for_sort) (use assms(1,2) in simp_all)
  moreover have "sort (map f xs) = map f (sort_key f xs)" by (rule properties_for_sort) simp_all
  ultimately have "map f (sort_key f xs) = map f ys" by simp
  moreover have "inj_on f (set (sort_key f xs) \<union> set ys)"
    using assms(1,3) mset_eq_setD [OF assms(1)] by (simp add: distinct_map)
  ultimately show ?thesis by (rule map_inj_on)
qed

lemma mset_hm_insert: "hm_inv m \<Longrightarrow> mset (hm_insert k v m) = add_mset (k, v) (mset (hm_remove k m))"
proof (induction m)
  case (Cons x m)
  show ?case
  proof (cases "fst x = k")
    case True
    then have "hm_remove k m = m" using Cons.prems by (intro AList.delete_id) auto
    then show ?thesis using True by (cases x) simp
  next
    case False
    then show ?thesis using Cons by (cases x) simp
  qed
qed simp

lemma length_hm_insert: "length (hm_insert k v m) = (if map_of m k = None then Suc (length m) else length m)"
  by (induction m) auto

lemma sort_key_newest:
  assumes "hm_inv m" "distinct (map stamp m)" "\<forall>x \<in> set m. stamp x < ce_order e"
  shows "sort_key stamp (hm_insert a e m) = sort_key stamp (hm_remove a m) @ [(a, e)]"
proof (rule sort_key_unique)
  show ms: "mset (sort_key stamp (hm_remove a m) @ [(a, e)]) = mset (hm_insert a e m)"
    using mset_hm_insert [OF assms(1)] by simp
  have old: "\<forall>x \<in> set (hm_remove a m). stamp x < ce_order e" using assms(3) by (auto simp: AList.delete_eq)
  show "sorted (map stamp (sort_key stamp (hm_remove a m) @ [(a, e)]))"
    using old by (auto simp: sorted_append stamp_def intro: less_imp_le)
  have "distinct (map stamp (hm_remove a m))" using assms(2) by (simp add: AList.delete_eq distinct_map_filter)
  then have "distinct (map stamp (sort_key stamp (hm_remove a m) @ [(a, e)]))"
    using old by (auto simp: distinct_map stamp_def inj_on_def)
  then show "distinct (map stamp (hm_insert a e m))"
    using mset_eq_imp_distinct_iff [of "map stamp (sort_key stamp (hm_remove a m) @ [(a, e)])" "map stamp (hm_insert a e m)"]
      arg_cong [OF ms, of "image_mset stamp"] by simp
qed

section \<open>The abstract list\<close>

definition recency :: "location_cache \<Rightarrow> (actor_address \<times> node_id) list" where
  "recency c = map (\<lambda>(a, e). (a, ce_node_id e)) (sort_key stamp (lc_entries c))"

definition touch :: "actor_address \<Rightarrow> node_id \<Rightarrow> (actor_address \<times> node_id) list \<Rightarrow> (actor_address \<times> node_id) list" where
  "touch a i xs = filter (\<lambda>x. fst x \<noteq> a) xs @ [(a, i)]"

definition lru_insert :: "nat \<Rightarrow> actor_address \<Rightarrow> node_id \<Rightarrow> (actor_address \<times> node_id) list \<Rightarrow> (actor_address \<times> node_id) list" where
  "lru_insert capacity a i xs = touch a i (if capacity \<le> length xs \<and> map_of xs a = None then tl xs else xs)"

lemma map_of_recency:
  assumes "cache_inv c"
  shows "map_of (recency c) a = map_option ce_node_id (map_of (lc_entries c) a)" "length (recency c) = length (lc_entries c)"
proof -
  have "map_of (sort_key stamp (lc_entries c)) = map_of (lc_entries c)"
    by (rule map_of_inject_set [THEN iffD2])
      (use assms in \<open>auto simp: cache_inv_def distinct_map inj_on_def intro: mset_eq_imp_distinct_iff [THEN iffD1]\<close>)
  then show "map_of (recency c) a = map_option ce_node_id (map_of (lc_entries c) a)"
    by (simp add: recency_def map_of_map)
  show "length (recency c) = length (lc_entries c)" by (simp add: recency_def)
qed

lemma recency_remove: "recency (c\<lparr>lc_entries := filter P (lc_entries c)\<rparr>) =
    map (\<lambda>(a, e). (a, ce_node_id e)) (filter P (sort_key stamp (lc_entries c)))"
  by (simp add: recency_def filter_sort)

lemma recency_delete: "recency (c\<lparr>lc_entries := hm_remove a (lc_entries c)\<rparr>) = filter (\<lambda>x. fst x \<noteq> a) (recency c)"
  by (simp add: AList.delete_eq recency_remove) (simp add: recency_def filter_map o_def case_prod_unfold eq_commute)

lemma cache_inv_filter: "cache_inv c \<Longrightarrow> cache_inv (c\<lparr>lc_entries := filter P (lc_entries c)\<rparr>)"
  by (auto simp: cache_inv_def distinct_map_filter intro: le_trans [OF length_filter_le])

lemma cache_inv_delete: "cache_inv c \<Longrightarrow> cache_inv (c\<lparr>lc_entries := hm_remove a (lc_entries c)\<rparr>)"
  by (simp add: AList.delete_eq cache_inv_filter)

text \<open>The step shared by \<open>get\<close> and \<open>insert\<close>: an entry is written with the next stamp.\<close>

definition restamp :: "actor_address \<Rightarrow> node_id \<Rightarrow> location_cache \<Rightarrow> location_cache" where
  "restamp a i c = c\<lparr>lc_counter := lc_counter c + 1,
     lc_entries := hm_insert a \<lparr>ce_node_id = i, ce_order = lc_counter c + 1\<rparr> (lc_entries c)\<rparr>"

lemma restamp_recency:
  assumes "cache_inv c" "lc_counter c \<noteq> - 1"
  shows "recency (restamp a i c) = touch a i (recency c)"
proof -
  have "\<forall>x \<in> set (lc_entries c). stamp x < lc_counter c + 1"
    using assms less_Suc_word [OF assms(2)] by (auto simp: cache_inv_def intro: le_less_trans)
  then have "sort_key stamp (lc_entries (restamp a i c)) =
      sort_key stamp (hm_remove a (lc_entries c)) @ [(a, \<lparr>ce_node_id = i, ce_order = lc_counter c + 1\<rparr>)]"
    using assms(1) by (simp add: restamp_def cache_inv_def sort_key_newest)
  then show ?thesis using recency_delete [of a c] by (simp add: recency_def touch_def)
qed

lemma restamp_inv:
  assumes "cache_inv c" "lc_counter c \<noteq> - 1" "length (lc_entries c) < lc_capacity c \<or> map_of (lc_entries c) a \<noteq> None"
  shows "cache_inv (restamp a i c)"
proof -
  let ?m = "lc_entries c" and ?e = "\<lparr>ce_node_id = i, ce_order = lc_counter c + 1\<rparr>"
  have m: "mset (hm_insert a ?e ?m) = add_mset (a, ?e) (mset (hm_remove a ?m))"
    using assms(1) by (simp add: cache_inv_def mset_hm_insert)
  have old: "\<forall>x \<in> set (hm_remove a ?m). stamp x \<le> lc_counter c" "distinct (map stamp (hm_remove a ?m))"
    using assms(1) by (auto simp: cache_inv_def AList.delete_eq distinct_map_filter)
  have next_stamp: "lc_counter c < lc_counter c + 1" using assms(2) by (rule less_Suc_word)
  have "mset (map stamp (hm_insert a ?e ?m)) = mset (map stamp ((a, ?e) # hm_remove a ?m))"
    using arg_cong [OF m, of "image_mset stamp"] by simp
  moreover have "distinct (map stamp ((a, ?e) # hm_remove a ?m))"
    using old next_stamp by (auto simp: stamp_def)
  ultimately have "distinct (map stamp (hm_insert a ?e ?m))" by (metis mset_eq_imp_distinct_iff)
  moreover have "set (hm_insert a ?e ?m) = insert (a, ?e) (set (hm_remove a ?m))"
    using mset_eq_setD [of "hm_insert a ?e ?m" "(a, ?e) # hm_remove a ?m"] m by simp
  moreover have "length (hm_insert a ?e ?m) \<le> lc_capacity c"
    using assms(1,3) by (auto simp: cache_inv_def length_hm_insert)
  ultimately show ?thesis
    using assms(1) old next_stamp by (auto simp: restamp_def cache_inv_def distinct_update stamp_def intro: le_less_trans less_imp_le)
qed

lemma get_restamp:
  "lc_get a c = (case map_of (lc_entries c) a of Some e \<Rightarrow> (Some (ce_node_id e), restamp a (ce_node_id e) c) | None \<Rightarrow> (None, c))"
proof (cases "map_of (lc_entries c) a")
  case (Some e)
  then show ?thesis by (cases e) (simp add: lc_get_def restamp_def)
qed (simp add: lc_get_def)

lemma evict_oldest:
  assumes "cache_inv c" "lc_entries c \<noteq> []"
  shows "recency (evict_lru c) = tl (recency c)" "cache_inv (evict_lru c)" "length (lc_entries (evict_lru c)) < length (lc_entries c)"
    "lc_counter (evict_lru c) = lc_counter c" "lc_capacity (evict_lru c) = lc_capacity c"
proof -
  have "sort_key stamp (lc_entries c) \<noteq> []" using assms(2) by (metis length_0_conv length_sort)
  then obtain x xs where s: "sort_key stamp (lc_entries c) = x # xs" by (cases "sort_key stamp (lc_entries c)") auto
  obtain a e where x: "x = (a, e)" by fastforce
  have "min_by_key (\<lambda>(_, e). ce_order e) (lc_entries c) = Some x"
    using s by (simp add: min_by_key_hd stamp_def [abs_def] case_prod_unfold)
  then have ev: "evict_lru c = c\<lparr>lc_entries := hm_remove a (lc_entries c)\<rparr>" by (simp add: evict_lru_def x)
  have keys: "distinct (map fst (x # xs))"
    using assms(1) mset_eq_imp_distinct_iff [of "map fst (x # xs)" "map fst (lc_entries c)"] arg_cong [OF s, of mset]
    by (simp add: cache_inv_def)
  have "recency (evict_lru c) = filter (\<lambda>y. fst y \<noteq> a) (recency c)" by (simp add: ev recency_delete)
  also have "\<dots> = tl (recency c)"
    using keys unfolding recency_def s by (auto simp: x filter_id_conv image_iff)
  finally show "recency (evict_lru c) = tl (recency c)" .
  show "cache_inv (evict_lru c)" using assms(1) by (simp add: ev cache_inv_delete)
  have "x \<in> set (lc_entries c)" using arg_cong [OF s, of set] by auto
  then show "length (lc_entries (evict_lru c)) < length (lc_entries c)"
    by (auto simp: ev AList.delete_eq x intro!: length_filter_less)
  show "lc_counter (evict_lru c) = lc_counter c" "lc_capacity (evict_lru c) = lc_capacity c" by (simp_all add: ev)
qed

lemma insert_restamp:
  "lc_insert a i c = restamp a i (if lc_capacity c \<le> length (lc_entries c) \<and> map_of (lc_entries c) a = None then evict_lru c else c)"
  by (auto simp: lc_insert_def restamp_def evict_lru_def Let_def split: option.split)

lemma insert_refines:
  assumes "cache_inv c" "lc_counter c \<noteq> - 1"
  shows "recency (lc_insert a i c) = lru_insert (lc_capacity c) a i (recency c)" "cache_inv (lc_insert a i c)"
proof -
  let ?full = "lc_capacity c \<le> length (lc_entries c) \<and> map_of (lc_entries c) a = None"
  note rec = map_of_recency [OF assms(1)]
  have "lc_entries c \<noteq> []" if ?full using assms(1) that by (auto simp: cache_inv_def)
  note ev = evict_oldest [OF assms(1) this]
  show "recency (lc_insert a i c) = lru_insert (lc_capacity c) a i (recency c)"
    using ev assms by (simp add: insert_restamp restamp_recency lru_insert_def rec)
  show "cache_inv (lc_insert a i c)"
  proof (cases ?full)
    case True
    then show ?thesis using ev [OF True] assms by (auto simp: insert_restamp cache_inv_def [of c] intro!: restamp_inv)
  next
    case False
    then show ?thesis using assms by (auto simp: insert_restamp intro!: restamp_inv)
  qed
qed

lemma cache_refines:
  assumes "cache_inv c" "lc_counter c \<noteq> - 1"
  shows "recency (lc_insert a i c) = lru_insert (lc_capacity c) a i (recency c)"
    and "fst (lc_get a c) = map_of (recency c) a"
    and "recency (snd (lc_get a c)) = (case map_of (recency c) a of Some j \<Rightarrow> touch a j (recency c) | None \<Rightarrow> recency c)"
    and "recency (snd (lc_invalidate a c)) = filter (\<lambda>x. fst x \<noteq> a) (recency c)"
    and "recency (snd (lc_invalidate_node i c)) = filter (\<lambda>x. snd x \<noteq> i) (recency c)"
    and "\<forall>c' \<in> {lc_insert a i c, snd (lc_get a c), snd (lc_invalidate a c), snd (lc_invalidate_node i c)}.
      cache_inv c' \<and> lc_len c' \<le> lc_capacity c' \<and> lc_capacity c' = lc_capacity c"
proof -
  note ins = insert_refines [OF assms]
  show "recency (lc_insert a i c) = lru_insert (lc_capacity c) a i (recency c)" by (rule ins)
  show "fst (lc_get a c) = map_of (recency c) a"
    by (simp add: get_restamp map_of_recency [OF assms(1)] split: option.split)
  show "recency (snd (lc_get a c)) = (case map_of (recency c) a of Some j \<Rightarrow> touch a j (recency c) | None \<Rightarrow> recency c)"
    using restamp_recency [OF assms] by (simp add: get_restamp map_of_recency [OF assms(1)] split: option.split)
  show "recency (snd (lc_invalidate a c)) = filter (\<lambda>x. fst x \<noteq> a) (recency c)"
    by (simp add: lc_invalidate_def recency_delete)
  show "recency (snd (lc_invalidate_node i c)) = filter (\<lambda>x. snd x \<noteq> i) (recency c)"
    by (simp add: lc_invalidate_node_def Let_def recency_remove) (simp add: recency_def filter_map o_def case_prod_unfold)
  have "cache_inv (snd (lc_get a c))" using restamp_inv [OF assms, of a] assms(1) by (simp add: get_restamp split: option.split)
  moreover have "cache_inv (snd (lc_invalidate a c))" "cache_inv (snd (lc_invalidate_node i c))"
    using assms(1) by (simp_all add: lc_invalidate_def lc_invalidate_node_def Let_def cache_inv_delete cache_inv_filter)
  moreover have "lc_capacity c' = lc_capacity c" if "c' \<in> {lc_insert a i c, snd (lc_get a c), snd (lc_invalidate a c), snd (lc_invalidate_node i c)}" for c'
    using that by (auto simp: get_restamp insert_restamp restamp_def evict_lru_def lc_invalidate_def lc_invalidate_node_def Let_def split: option.splits)
  ultimately have "cache_inv c' \<and> lc_capacity c' = lc_capacity c"
    if "c' \<in> {lc_insert a i c, snd (lc_get a c), snd (lc_invalidate a c), snd (lc_invalidate_node i c)}" for c'
    using ins(2) that by blast
  then show "\<forall>c' \<in> {lc_insert a i c, snd (lc_get a c), snd (lc_invalidate a c), snd (lc_invalidate_node i c)}.
      cache_inv c' \<and> lc_len c' \<le> lc_capacity c' \<and> lc_capacity c' = lc_capacity c"
    unfolding cache_inv_def lc_len_def by blast
qed

text \<open>C22. The cache is a least-recently-used map. Read from least to most recently used, the cache behaves as a
  list: a hit moves its entry to the end, an insertion appends the entry and, when the cache is full and the
  address is new, drops exactly the least recently used one; invalidation removes an address or everything on
  one node. The capacity is never exceeded. (The 64-bit stamp must not have reached its maximum.)\<close>

theorem cache_is_least_recently_used:
  assumes "cache_inv c" "lc_counter c \<noteq> - 1"
  shows "recency (lc_insert a i c) = lru_insert (lc_capacity c) a i (recency c) \<and>
    fst (lc_get a c) = map_of (recency c) a \<and>
    recency (snd (lc_get a c)) = (case map_of (recency c) a of Some j \<Rightarrow> touch a j (recency c) | None \<Rightarrow> recency c) \<and>
    recency (snd (lc_invalidate a c)) = filter (\<lambda>x. fst x \<noteq> a) (recency c) \<and>
    recency (snd (lc_invalidate_node i c)) = filter (\<lambda>x. snd x \<noteq> i) (recency c) \<and>
    (\<forall>c' \<in> {lc_insert a i c, snd (lc_get a c), snd (lc_invalidate a c), snd (lc_invalidate_node i c)}.
      cache_inv c' \<and> lc_len c' \<le> lc_capacity c' \<and> lc_capacity c' = lc_capacity c)"
  by (intro conjI cache_refines [OF assms])

text \<open>A cache of two that holds two addresses; reading the older one makes the other the next to go.\<close>

definition full_cache :: location_cache where
  "full_cache = \<lparr>lc_entries = [(ActorAddress 2, \<lparr>ce_node_id = NodeId 20, ce_order = 2\<rparr>), (ActorAddress 1, \<lparr>ce_node_id = NodeId 10, ce_order = 3\<rparr>)],
     lc_capacity = 2, lc_counter = 3\<rparr>"

theorem cache_is_least_recently_used_witness:
  "snd (lc_get (ActorAddress 1) (lc_insert (ActorAddress 2) (NodeId 20) (lc_insert (ActorAddress 1) (NodeId 10) (location_cache_new 2)))) =
     \<lparr>lc_entries = [(ActorAddress 1, \<lparr>ce_node_id = NodeId 10, ce_order = 3\<rparr>), (ActorAddress 2, \<lparr>ce_node_id = NodeId 20, ce_order = 2\<rparr>)],
      lc_capacity = 2, lc_counter = 3\<rparr> \<and>
   recency (lc_insert (ActorAddress 5) (NodeId 50) full_cache) = [(ActorAddress 1, NodeId 10), (ActorAddress 5, NodeId 50)]"
proof -
  have inv: "cache_inv full_cache" "lc_counter full_cache \<noteq> - 1"
    by (simp_all add: full_cache_def cache_inv_def stamp_def)
  have "recency full_cache = [(ActorAddress 2, NodeId 20), (ActorAddress 1, NodeId 10)]"
    by (simp add: full_cache_def recency_def stamp_def)
  then have "lru_insert 2 (ActorAddress 5) (NodeId 50) (recency full_cache) = [(ActorAddress 1, NodeId 10), (ActorAddress 5, NodeId 50)]"
    by (simp add: lru_insert_def touch_def)
  moreover have "lc_capacity full_cache = 2" by (simp add: full_cache_def)
  moreover have "snd (lc_get (ActorAddress 1) (lc_insert (ActorAddress 2) (NodeId 20) (lc_insert (ActorAddress 1) (NodeId 10) (location_cache_new 2)))) =
     \<lparr>lc_entries = [(ActorAddress 1, \<lparr>ce_node_id = NodeId 10, ce_order = 3\<rparr>), (ActorAddress 2, \<lparr>ce_node_id = NodeId 20, ce_order = 2\<rparr>)],
      lc_capacity = 2, lc_counter = 3\<rparr>"
    by (simp add: lc_get_def lc_insert_def location_cache_new_def)
  ultimately show ?thesis using cache_is_least_recently_used [OF inv, of "ActorAddress 5" "NodeId 50"] by simp
qed

end
