(* ===== verification/Gossip_Tables.thy ===== *)
theory Gossip_Tables
  imports Swim_Dissemination
begin

text \<open>
  The pending lists of the registry and of the node metadata (\<open>DisseminationEntry\<close> in \<open>registry.rs\<close>,
  \<open>PendingEntry\<close> in \<open>node_metadata.rs\<close>): entries in insertion order, each with the number of messages it is
  still to be sent in. The two are the same code over different entry types; \<open>key\<close> is the field that
  identifies an entry. The list interprets \<open>budget_queue\<close>. Batching of a full synchronisation is here too.
\<close>

section \<open>Pending entries\<close>

record 'e pending =
  pe_entry :: 'e
  pe_remaining :: nat

definition gossip_budget :: "nat \<Rightarrow> nat \<Rightarrow> nat" where
  "gossip_budget lambda cluster_size = lambda * max (ceil_log2 (max cluster_size 2)) 1"

fun pend_enqueue :: "('e \<Rightarrow> 'k) \<Rightarrow> 'e \<Rightarrow> nat \<Rightarrow> 'e pending list \<Rightarrow> 'e pending list" where
  "pend_enqueue key e budget [] = [\<lparr>pe_entry = e, pe_remaining = budget\<rparr>]"
| "pend_enqueue key e budget (x # xs) =
     (if key (pe_entry x) = key e then x\<lparr>pe_entry := e, pe_remaining := budget\<rparr> # xs
      else x # pend_enqueue key e budget xs)"

definition spend :: "'e pending \<Rightarrow> 'e pending" where
  "spend x = x\<lparr>pe_remaining := pe_remaining x - 1\<rparr>"

definition pend_take :: "nat \<Rightarrow> 'e pending list \<Rightarrow> 'e list \<times> 'e pending list" where
  "pend_take max_count xs =
     (let count = min max_count (length xs) in
      (map pe_entry (take count xs), filter (\<lambda>x. pe_remaining x > 0) (map spend (take count xs) @ drop count xs)))"

section \<open>Facts\<close>

definition pend_inv :: "'e pending list \<Rightarrow> bool" where
  "pend_inv xs \<longleftrightarrow> (\<forall>x \<in> set xs. pe_remaining x > 0)"

definition pend_owed :: "'e pending list \<Rightarrow> 'e multiset" where
  "pend_owed xs = (\<Sum>x \<in># mset xs. replicate_mset (pe_remaining x) (pe_entry x))"

lemma pend_owed_simps [simp]:
  "pend_owed [] = {#}" "pend_owed (x # xs) = replicate_mset (pe_remaining x) (pe_entry x) + pend_owed xs"
  "pend_owed (xs @ ys) = pend_owed xs + pend_owed ys"
  by (simp_all add: pend_owed_def)

lemma pend_owed_filter: "pend_owed (filter (\<lambda>x. pe_remaining x > 0) xs) = pend_owed xs"
  by (induction xs) auto

lemma pend_owed_spend: "pend_inv xs \<Longrightarrow> pend_owed xs = mset (map pe_entry xs) + pend_owed (map spend xs)"
proof (induction xs)
  case (Cons x xs)
  then obtain k where "pe_remaining x = Suc k" by (auto simp: pend_inv_def gr0_conv_Suc)
  with Cons show ?case by (simp add: spend_def pend_inv_def)
qed simp

lemma pend_inv_take: "pend_inv (snd (pend_take n xs))"
  by (auto simp: pend_take_def Let_def pend_inv_def)

interpretation pending: budget_queue pend_take pend_owed pend_inv
proof
  fix xs :: "'a pending list" and n assume inv: "pend_inv xs"
  let ?k = "min n (length xs)"
  have "pend_inv (take ?k xs)" using inv by (auto simp: pend_inv_def dest: in_set_takeD)
  from pend_owed_spend [OF this]
  have "pend_owed (take ?k xs @ drop ?k xs) = mset (map pe_entry (take ?k xs)) + pend_owed (map spend (take ?k xs) @ drop ?k xs)"
    by (simp only: pend_owed_simps add.assoc)
  then show "pend_owed xs = mset (fst (pend_take n xs)) + pend_owed (snd (pend_take n xs))"
    by (simp only: append_take_drop_id pend_take_def Let_def fst_conv snd_conv pend_owed_filter)
  show "length (fst (pend_take n xs)) \<le> n" by (simp add: pend_take_def Let_def)
  show "pend_inv (snd (pend_take n xs))" by (rule pend_inv_take)
  show "fst (pend_take n xs) \<noteq> []" if "0 < n" "pend_owed xs \<noteq> {#}"
    using that by (cases xs) (auto simp: pend_take_def Let_def)
qed

lemma gossip_budget_pos: "0 < lambda \<Longrightarrow> 0 < gossip_budget lambda n"
  by (simp add: gossip_budget_def)

lemma pend_inv_enqueue: "pend_inv xs \<Longrightarrow> 0 < b \<Longrightarrow> pend_inv (pend_enqueue key e b xs)"
  by (induction key e b xs rule: pend_enqueue.induct) (auto simp: pend_inv_def)

lemma enqueue_pending: "\<exists>x \<in> set (pend_enqueue key e b xs). pe_entry x = e \<and> pe_remaining x = b"
  by (induction key e b xs rule: pend_enqueue.induct) auto

lemma enqueue_keys: "key ` pe_entry ` set (pend_enqueue key e b xs) = insert (key e) (key ` pe_entry ` set xs)"
  by (induction key e b xs rule: pend_enqueue.induct) auto

lemma enqueue_others:
  "key f \<noteq> key e \<Longrightarrow> (\<exists>x \<in> set (pend_enqueue key e b xs). pe_entry x = f \<and> pe_remaining x = n) \<longleftrightarrow> (\<exists>x \<in> set xs. pe_entry x = f \<and> pe_remaining x = n)"
  by (induction key e b xs rule: pend_enqueue.induct) auto

section \<open>Batches\<close>

text \<open>The loop of \<open>sync_to\<close>: batches of at most \<open>k\<close> until the iterator is exhausted.\<close>

fun batches :: "nat \<Rightarrow> 'a list \<Rightarrow> 'a list list" where
  "batches k xs = (if k = 0 \<or> xs = [] then [] else take k xs # batches k (drop k xs))"

declare batches.simps [simp del]

lemma concat_batches: "0 < k \<Longrightarrow> concat (batches k xs) = xs"
  by (induction k xs rule: batches.induct) (subst batches.simps, auto)

lemma batches_bound: "\<forall>b \<in> set (batches k xs). b \<noteq> [] \<and> length b \<le> k"
proof (induction k xs rule: batches.induct)
  case (1 k xs)
  then show ?case by (subst batches.simps) auto
qed

end
