(* ===== verification/Cluster_Registry.thy ===== *)
theory Cluster_Registry
  imports Gossip_Tables "HOL-Library.List_Lexorder"
begin

text \<open>
  The cluster-wide name registry (\<open>crates/distribution/src/registry.rs\<close>): last-writer-wins entries with
  tombstones, a logical clock, an event buffer and a pending list. Clock, timestamps and generations are
  64-bit and wrap as release builds do. The hash map is an association list in arbitrary order.
\<close>

section \<open>State\<close>

record registry_config =
  max_events :: nat
  tombstone_ttl :: u64
  gc_interval :: u64
  dissemination_lambda :: nat

definition registry_config_default :: registry_config where
  "registry_config_default = \<lparr>max_events = 256, tombstone_ttl = 3600, gc_interval = 1000, dissemination_lambda = 3\<rparr>"

record registry_entry =
  re_name :: string
  re_actor_addr :: actor_address
  re_node_id :: node_id
  re_timestamp :: u64
  re_generation :: u64
  re_tombstone :: bool

datatype registry_event =
    NameRegistered string actor_address node_id
  | NameUnregistered string actor_address

record cluster_registry =
  cr_entries :: "(string \<times> registry_entry) list"
  cr_pending :: "registry_entry pending list"
  cr_clock :: u64
  cr_events :: "registry_event list"
  cr_config :: registry_config
  cr_tick_count :: u64

definition cluster_registry_new :: "registry_config \<Rightarrow> cluster_registry" where
  "cluster_registry_new c = \<lparr>cr_entries = [], cr_pending = [], cr_clock = 0, cr_events = [], cr_config = c, cr_tick_count = 0\<rparr>"

section \<open>Merging\<close>

definition lww_wins :: "registry_entry \<Rightarrow> registry_entry \<Rightarrow> bool" where
  "lww_wins incoming existing \<longleftrightarrow>
     (if re_timestamp incoming \<noteq> re_timestamp existing then re_timestamp incoming > re_timestamp existing
      else if re_generation incoming \<noteq> re_generation existing then re_generation incoming > re_generation existing
      else re_node_id incoming > re_node_id existing)"

definition next_generation :: "cluster_registry \<Rightarrow> string \<Rightarrow> u64" where
  "next_generation r name = (case map_of (cr_entries r) name of Some e \<Rightarrow> re_generation e + 1 | None \<Rightarrow> 1)"

definition emit_event :: "registry_entry \<Rightarrow> cluster_registry \<Rightarrow> cluster_registry" where
  "emit_event e r =
     (let ev = (if re_tombstone e then NameUnregistered (re_name e) (re_actor_addr e)
                else NameRegistered (re_name e) (re_actor_addr e) (re_node_id e));
          evs = cr_events r @ [ev] in
      r\<lparr>cr_events := drop (length evs - max_events (cr_config r)) evs\<rparr>)"

definition cr_merge :: "registry_entry \<Rightarrow> cluster_registry \<Rightarrow> bool \<times> cluster_registry" where
  "cr_merge remote r =
     (if (case map_of (cr_entries r) (re_name remote) of Some existing \<Rightarrow> \<not> lww_wins remote existing | None \<Rightarrow> False)
      then (False, r)
      else
        let changed = (case map_of (cr_entries r) (re_name remote) of Some existing \<Rightarrow> existing \<noteq> remote | None \<Rightarrow> True);
            r1 = (if changed
                  then (let r' = emit_event remote r in
                        if re_timestamp remote \<ge> cr_clock r' then r'\<lparr>cr_clock := re_timestamp remote + 1\<rparr> else r')
                  else r) in
        (changed, r1\<lparr>cr_entries := hm_insert (re_name remote) remote (cr_entries r1)\<rparr>))"

definition cr_enqueue :: "registry_entry \<Rightarrow> nat \<Rightarrow> cluster_registry \<Rightarrow> cluster_registry" where
  "cr_enqueue e cluster_size r =
     r\<lparr>cr_pending := pend_enqueue re_name e (gossip_budget (dissemination_lambda (cr_config r)) cluster_size) (cr_pending r)\<rparr>"

definition merge_and_enqueue :: "registry_entry \<Rightarrow> nat \<Rightarrow> cluster_registry \<Rightarrow> cluster_registry" where
  "merge_and_enqueue e cluster_size r =
     (case cr_merge e r of (merged, r1) \<Rightarrow> if merged then cr_enqueue e cluster_size r1 else r1)"

definition merge_batch :: "registry_entry list \<Rightarrow> nat \<Rightarrow> cluster_registry \<Rightarrow> cluster_registry" where
  "merge_batch es cluster_size r = fold (\<lambda>e. merge_and_enqueue e cluster_size) es r"

section \<open>Operations\<close>

definition cr_register :: "string \<Rightarrow> actor_address \<Rightarrow> node_id \<Rightarrow> nat \<Rightarrow> cluster_registry \<Rightarrow> cluster_registry" where
  "cr_register name addr i cluster_size r =
     (let r1 = r\<lparr>cr_clock := cr_clock r + 1\<rparr> in
      merge_and_enqueue \<lparr>re_name = name, re_actor_addr = addr, re_node_id = i, re_timestamp = cr_clock r1,
        re_generation = next_generation r1 name, re_tombstone = False\<rparr> cluster_size r1)"

definition cr_register_at :: "string \<Rightarrow> actor_address \<Rightarrow> node_id \<Rightarrow> u64 \<Rightarrow> nat \<Rightarrow> cluster_registry \<Rightarrow> cluster_registry" where
  "cr_register_at name addr i timestamp cluster_size r =
     (let r1 = r\<lparr>cr_clock := max (saturating_add (cr_clock r) 1) timestamp\<rparr> in
      merge_and_enqueue \<lparr>re_name = name, re_actor_addr = addr, re_node_id = i, re_timestamp = cr_clock r1,
        re_generation = next_generation r1 name, re_tombstone = False\<rparr> cluster_size r1)"

definition cr_unregister :: "string \<Rightarrow> node_id \<Rightarrow> nat \<Rightarrow> cluster_registry \<Rightarrow> cluster_registry" where
  "cr_unregister name i cluster_size r =
     (let r1 = r\<lparr>cr_clock := cr_clock r + 1\<rparr>;
          addr = (case map_of (cr_entries r1) name of Some e \<Rightarrow> re_actor_addr e | None \<Rightarrow> ActorAddress 0) in
      merge_and_enqueue \<lparr>re_name = name, re_actor_addr = addr, re_node_id = i, re_timestamp = cr_clock r1,
        re_generation = next_generation r1 name, re_tombstone = True\<rparr> cluster_size r1)"

definition cr_resolve :: "cluster_registry \<Rightarrow> string \<Rightarrow> (actor_address \<times> node_id) option" where
  "cr_resolve r name =
     (case map_of (cr_entries r) name of
        Some e \<Rightarrow> (if re_tombstone e then None else Some (re_actor_addr e, re_node_id e))
      | None \<Rightarrow> None)"

definition cr_take_pending :: "nat \<Rightarrow> cluster_registry \<Rightarrow> registry_entry list \<times> cluster_registry" where
  "cr_take_pending max_count r = (case pend_take max_count (cr_pending r) of (es, q) \<Rightarrow> (es, r\<lparr>cr_pending := q\<rparr>))"

text \<open>The body of the loop of \<open>tombstone_node\<close>. The name is one of the table's, so the index is never out of range.\<close>

definition tombstone_name :: "node_id \<Rightarrow> nat \<Rightarrow> string \<Rightarrow> cluster_registry \<Rightarrow> cluster_registry" where
  "tombstone_name dead cluster_size name r =
     (let r1 = r\<lparr>cr_clock := cr_clock r + 1\<rparr> in
      case map_of (cr_entries r1) name of
        Some e \<Rightarrow> merge_and_enqueue \<lparr>re_name = name, re_actor_addr = re_actor_addr e, re_node_id = dead,
          re_timestamp = cr_clock r1, re_generation = next_generation r1 name, re_tombstone = True\<rparr> cluster_size r1
      | None \<Rightarrow> r1)"

definition owned_names :: "node_id \<Rightarrow> cluster_registry \<Rightarrow> string list" where
  "owned_names i r = map fst (filter (\<lambda>(_, e). re_node_id e = i \<and> \<not> re_tombstone e) (cr_entries r))"

definition tombstone_node :: "node_id \<Rightarrow> nat \<Rightarrow> cluster_registry \<Rightarrow> cluster_registry" where
  "tombstone_node dead cluster_size r = fold (tombstone_name dead cluster_size) (owned_names dead r) r"

definition cr_re_disseminate_all :: "nat \<Rightarrow> cluster_registry \<Rightarrow> cluster_registry" where
  "cr_re_disseminate_all cluster_size r = fold (\<lambda>(_, e). cr_enqueue e cluster_size) (cr_entries r) r"

definition is_multiple_of :: "u64 \<Rightarrow> u64 \<Rightarrow> bool" where
  "is_multiple_of a b \<longleftrightarrow> (if b = 0 then a = 0 else a mod b = 0)"

definition gc_keeps :: "cluster_registry \<Rightarrow> string \<times> registry_entry \<Rightarrow> bool" where
  "gc_keeps r x \<longleftrightarrow>
     (case x of (name, e) \<Rightarrow>
        if re_tombstone e \<and> name \<notin> (\<lambda>p. re_name (pe_entry p)) ` set (cr_pending r)
        then saturating_sub (cr_clock r) (re_timestamp e) < tombstone_ttl (cr_config r)
        else True)"

definition gc_tick :: "cluster_registry \<Rightarrow> cluster_registry" where
  "gc_tick r =
     (let r1 = r\<lparr>cr_tick_count := cr_tick_count r + 1\<rparr> in
      if \<not> is_multiple_of (cr_tick_count r1) (gc_interval (cr_config r1)) then r1
      else r1\<lparr>cr_entries := filter (gc_keeps r1) (cr_entries r1)\<rparr>)"

definition cr_drain_events :: "cluster_registry \<Rightarrow> registry_event list \<times> cluster_registry" where
  "cr_drain_events r = (cr_events r, r\<lparr>cr_events := []\<rparr>)"

definition tombstone_count :: "cluster_registry \<Rightarrow> nat" where
  "tombstone_count r = length (filter (\<lambda>(_, e). re_tombstone e) (cr_entries r))"

record registry_snapshot =
  rs_size :: nat
  rs_tombstones :: nat
  rs_entries :: "registry_entry list"

text \<open>Strings are ordered as Rust orders them, byte by byte.\<close>

definition cr_snapshot :: "cluster_registry \<Rightarrow> registry_snapshot" where
  "cr_snapshot r =
     (let es = sort_key (\<lambda>e. map (of_char :: char \<Rightarrow> nat) (re_name e)) (map snd (cr_entries r)) in
      \<lparr>rs_size = length es, rs_tombstones = length (filter re_tombstone es), rs_entries = es\<rparr>)"

section \<open>The table as a last-writer-wins register\<close>

definition lookup :: "cluster_registry \<Rightarrow> string \<Rightarrow> registry_entry option" where
  "lookup r name = map_of (cr_entries r) name"

definition rank :: "registry_entry \<Rightarrow> u64 \<times> u64 \<times> node_id" where
  "rank e = (re_timestamp e, re_generation e, re_node_id e)"

definition table_inv :: "cluster_registry \<Rightarrow> bool" where
  "table_inv r \<longleftrightarrow> hm_inv (cr_entries r) \<and> (\<forall>(n, e) \<in> set (cr_entries r). re_name e = n)"

lemma lww_wins_rank: "lww_wins a b \<longleftrightarrow> rank b < rank a"
  by (auto simp: lww_wins_def rank_def less_prod_def)

lemma emit_frame [simp]:
  "cr_entries (emit_event e r) = cr_entries r" "cr_clock (emit_event e r) = cr_clock r"
  "cr_config (emit_event e r) = cr_config r" "cr_pending (emit_event e r) = cr_pending r"
  by (simp_all add: emit_event_def Let_def)

lemma enqueue_frame [simp]:
  "cr_entries (cr_enqueue e n r) = cr_entries r" "cr_clock (cr_enqueue e n r) = cr_clock r" "cr_config (cr_enqueue e n r) = cr_config r"
  by (simp_all add: cr_enqueue_def)

definition newer :: "registry_entry \<Rightarrow> cluster_registry \<Rightarrow> bool" where
  "newer e r \<longleftrightarrow> (\<forall>old. lookup r (re_name e) = Some old \<longrightarrow> rank old < rank e)"

lemma merge_result:
  "fst (cr_merge e r) = newer e r"
  "cr_entries (snd (cr_merge e r)) = (if newer e r then hm_insert (re_name e) e (cr_entries r) else cr_entries r)"
  "cr_clock (snd (cr_merge e r)) = (if newer e r \<and> cr_clock r \<le> re_timestamp e then re_timestamp e + 1 else cr_clock r)"
  "cr_pending (snd (cr_merge e r)) = cr_pending r" "cr_config (snd (cr_merge e r)) = cr_config r"
  by (auto simp: cr_merge_def newer_def lookup_def lww_wins_rank Let_def split: option.split)

lemma merge_and_enqueue_result:
  "cr_entries (merge_and_enqueue e n r) = cr_entries (snd (cr_merge e r))"
  "cr_clock (merge_and_enqueue e n r) = cr_clock (snd (cr_merge e r))"
  "cr_config (merge_and_enqueue e n r) = cr_config r"
  "cr_pending (merge_and_enqueue e n r) =
     (if newer e r then pend_enqueue re_name e (gossip_budget (dissemination_lambda (cr_config r)) n) (cr_pending r) else cr_pending r)"
  using merge_result(1) [of e r] merge_result(4,5) [of e r]
  by (simp_all add: merge_and_enqueue_def split_beta) (simp add: cr_enqueue_def merge_result)

lemma lookup_merge: "lookup (snd (cr_merge e r)) n = (if n = re_name e \<and> newer e r then Some e else lookup r n)"
  by (simp add: lookup_def merge_result update_conv')

lemma table_inv_merge: "table_inv r \<Longrightarrow> table_inv (snd (cr_merge e r))"
  using set_hm_insert_subset [of "re_name e" e "cr_entries r"]
  by (auto simp: table_inv_def merge_result distinct_update)

lemma table_inv_cong: "cr_entries r = cr_entries r' \<Longrightarrow> table_inv r = table_inv r'"
  by (simp add: table_inv_def)

lemma lookup_cong: "cr_entries r = cr_entries r' \<Longrightarrow> lookup r = lookup r'"
  by (simp add: lookup_def fun_eq_iff)

definition deliver_entry :: "nat \<Rightarrow> cluster_registry \<Rightarrow> string \<Rightarrow> registry_entry \<Rightarrow> cluster_registry" where
  "deliver_entry cluster_size r name e = (if re_name e = name then merge_and_enqueue e cluster_size r else r)"

interpretation registry: lww_register lookup "deliver_entry n" rank "\<lambda>r name e. re_name e = name" table_inv for n
proof
  fix r k v k'
  have m: "lookup (merge_and_enqueue v n r) = lookup (snd (cr_merge v r))"
    by (rule lookup_cong) (simp add: merge_and_enqueue_result)
  show "lookup (deliver_entry n r k v) k' =
      (if k' = k \<and> re_name v = k \<and> (\<forall>old. lookup r k = Some old \<longrightarrow> rank old < rank v) then Some v else lookup r k')"
    by (auto simp: deliver_entry_def m lookup_merge newer_def)
  assume "table_inv r"
  then show "table_inv (deliver_entry n r k v)"
    using table_inv_merge [of r v] table_inv_cong [of "merge_and_enqueue v n r" "snd (cr_merge v r)"]
    by (simp add: deliver_entry_def merge_and_enqueue_result)
qed simp

lemma merge_batch_deliver: "merge_batch es n r = registry.deliver n (map (\<lambda>e. (re_name e, e)) es) r"
  by (induction es arbitrary: r) (simp_all add: merge_batch_def deliver_entry_def)

lemma table_inv_new: "table_inv (cluster_registry_new c)"
  by (simp add: table_inv_def cluster_registry_new_def)

lemma lookup_new [simp]: "lookup (cluster_registry_new c) name = None"
  by (simp add: lookup_def cluster_registry_new_def)

lemma resolve_lookup: "cr_resolve r name = (case lookup r name of Some e \<Rightarrow> (if re_tombstone e then None else Some (re_actor_addr e, re_node_id e)) | None \<Rightarrow> None)"
  by (simp add: cr_resolve_def lookup_def)

lemma candidates_new:
  "registry.candidates (map (\<lambda>e. (re_name e, e)) es) (cluster_registry_new c) name = {e \<in> set es. re_name e = name}"
  by (auto simp: registry.candidates_def)



section \<open>Local writes\<close>

text \<open>The clock stays ahead of every timestamp held, so a local write is newer than what it replaces.\<close>

definition registry_inv :: "cluster_registry \<Rightarrow> bool" where
  "registry_inv r \<longleftrightarrow> table_inv r \<and> (\<forall>name e. lookup r name = Some e \<longrightarrow> re_timestamp e < cr_clock r) \<and>
     0 < dissemination_lambda (cr_config r) \<and> pend_inv (cr_pending r)"

lemma registry_inv_new: "0 < dissemination_lambda c \<Longrightarrow> registry_inv (cluster_registry_new c)"
  by (simp add: registry_inv_def table_inv_new) (simp add: cluster_registry_new_def pend_inv_def)

text \<open>A write at the advanced clock: the step shared by \<open>register\<close>, \<open>unregister\<close> and \<open>tombstone_node\<close>.\<close>

lemma write_wins:
  assumes "registry_inv r" "cr_clock r < t" "t \<noteq> - 1" "re_timestamp e = t"
    and r'_def: "r' = merge_and_enqueue e n (r\<lparr>cr_clock := t\<rparr>)"
  shows "lookup r' = (lookup r)(re_name e \<mapsto> e)" "registry_inv r'" "cr_clock r' = t + 1" "cr_config r' = cr_config r"
    "\<exists>x \<in> set (cr_pending r'). pe_entry x = e \<and> pe_remaining x = gossip_budget (dissemination_lambda (cr_config r)) n"
proof -
  let ?r = "r\<lparr>cr_clock := t\<rparr>"
  have same: "lookup ?r = lookup r" by (rule lookup_cong) simp
  have newer: "newer e ?r"
    using assms(1,2,4) by (auto simp: newer_def same registry_inv_def rank_def less_prod_def dest!: spec)
  have look: "lookup r' = lookup (snd (cr_merge e ?r))" unfolding r'_def by (rule lookup_cong) (simp add: merge_and_enqueue_result)
  then show lookup: "lookup r' = (lookup r)(re_name e \<mapsto> e)" by (auto simp: lookup_merge newer same)
  show clock: "cr_clock r' = t + 1" using newer assms(4) by (simp add: r'_def merge_and_enqueue_result merge_result)
  show config: "cr_config r' = cr_config r" by (simp add: r'_def merge_and_enqueue_result)
  have pend: "cr_pending r' = pend_enqueue re_name e (gossip_budget (dissemination_lambda (cr_config r)) n) (cr_pending r)"
    using newer by (simp add: r'_def merge_and_enqueue_result)
  then show "\<exists>x \<in> set (cr_pending r'). pe_entry x = e \<and> pe_remaining x = gossip_budget (dissemination_lambda (cr_config r)) n"
    by (simp add: enqueue_pending)
  have "table_inv r" using assms(1) by (simp add: registry_inv_def)
  then have "table_inv r'"
    using table_inv_merge [of ?r e] table_inv_cong [of r ?r] table_inv_cong [of r' "snd (cr_merge e ?r)"]
    by (simp add: r'_def merge_and_enqueue_result)
  moreover have "re_timestamp f < cr_clock r'" if "lookup r' name = Some f" for name f
  proof -
    have "t < t + 1" using assms(3) by (rule less_Suc_word)
    moreover have "re_timestamp f < t" if "lookup r name = Some f"
      using that assms(1,2) less_trans unfolding registry_inv_def by blast
    ultimately show ?thesis using that assms(4) less_trans [of "re_timestamp f" t "t + 1"] unfolding clock lookup
      by (auto split: if_splits)
  qed
  ultimately show "registry_inv r'"
    using assms(1) by (simp add: registry_inv_def config pend pend_inv_enqueue gossip_budget_pos)
qed

lemma write_effect:
  assumes "registry_inv r" "cr_clock r < t" "t \<noteq> - 1" "re_timestamp e = t" "r' = merge_and_enqueue e n (r\<lparr>cr_clock := t\<rparr>)"
    "re_name e = name" "v = (if re_tombstone e then None else Some (re_actor_addr e, re_node_id e))"
  shows "cr_resolve r' = (cr_resolve r)(name := v) \<and> registry_inv r' \<and>
    (\<exists>x \<in> set (cr_pending r'). lookup r' name = Some (pe_entry x) \<and> pe_remaining x = gossip_budget (dissemination_lambda (cr_config r)) n)"
proof -
  note w = write_wins [OF assms(1-5)]
  have "cr_resolve r' = (cr_resolve r)(name := v)" using w(1) assms(6,7) by (auto simp: fun_eq_iff resolve_lookup)
  moreover have "lookup r' name = Some e" using w(1) assms(6) by simp
  ultimately show ?thesis using w(2,5) by auto
qed

text \<open>A local write takes effect. As long as the clock is below its last two values, registering a name
  makes it resolve to the given actor and node, unregistering makes it resolve to nothing, no other name is
  affected, and the written entry is queued with its full transmit budget. A caller-supplied timestamp below
  the maximum does not weaken this. The registry stays well-formed.\<close>

theorem local_writes_take_effect:
  assumes "registry_inv r" "cr_clock r \<noteq> - 1" "cr_clock r \<noteq> - 2" "timestamp \<noteq> - 1"
  shows "cr_resolve (cr_register name a i n r) = (cr_resolve r)(name \<mapsto> (a, i)) \<and> registry_inv (cr_register name a i n r) \<and>
    cr_resolve (cr_register_at name a i timestamp n r) = (cr_resolve r)(name \<mapsto> (a, i)) \<and> registry_inv (cr_register_at name a i timestamp n r) \<and>
    cr_resolve (cr_unregister name i n r) = (cr_resolve r)(name := None) \<and> registry_inv (cr_unregister name i n r) \<and>
    (\<forall>r' \<in> {cr_register name a i n r, cr_register_at name a i timestamp n r, cr_unregister name i n r}.
      \<exists>x \<in> set (cr_pending r'). lookup r' name = Some (pe_entry x) \<and> pe_remaining x = gossip_budget (dissemination_lambda (cr_config r)) n)"
proof -
  have next_clock: "cr_clock r < cr_clock r + 1" "cr_clock r + 1 \<noteq> - 1"
    using assms(2,3) less_Suc_word [of "cr_clock r"] by (auto simp: eq_diff_eq [symmetric])
  have sat: "saturating_add (cr_clock r) 1 = cr_clock r + 1"
  proof -
    have "unat (cr_clock r + 1) < 2 ^ LENGTH(64)" by (rule unsigned_less)
    then show ?thesis using unat_Suc_word [OF assms(2)] by (simp add: saturating_add_def)
  qed
  have at: "cr_clock r < max (cr_clock r + 1) timestamp" "max (cr_clock r + 1) timestamp \<noteq> - 1"
    using next_clock assms(4) by (auto simp: max_def)
  let ?ok = "\<lambda>r' v. cr_resolve r' = (cr_resolve r)(name := v) \<and> registry_inv r' \<and>
    (\<exists>x \<in> set (cr_pending r'). lookup r' name = Some (pe_entry x) \<and> pe_remaining x = gossip_budget (dissemination_lambda (cr_config r)) n)"
  have "?ok (cr_register name a i n r) (Some (a, i))"
    unfolding cr_register_def Let_def by (rule write_effect [OF assms(1) next_clock _ refl]) simp_all
  moreover have "?ok (cr_register_at name a i timestamp n r) (Some (a, i))"
    unfolding cr_register_at_def Let_def sat by (rule write_effect [OF assms(1) at _ refl]) simp_all
  moreover have "?ok (cr_unregister name i n r) None"
    unfolding cr_unregister_def Let_def by (rule write_effect [OF assms(1) next_clock _ refl]) simp_all
  ultimately show ?thesis by blast
qed

theorem local_writes_take_effect_witness:
  "cr_resolve (cr_register ''db'' (ActorAddress 7) (NodeId 1) 3 (cluster_registry_new registry_config_default)) ''db'' = Some (ActorAddress 7, NodeId 1)"
proof -
  have "registry_inv (cluster_registry_new registry_config_default)"
    by (rule registry_inv_new) (simp add: registry_config_default_def)
  from local_writes_take_effect [OF this, of 0 "''db''" "ActorAddress 7" "NodeId 1" 3]
  show ?thesis by (simp add: cluster_registry_new_def)
qed

section \<open>Deaths and garbage collection\<close>

lemma owned_names_lookup: "table_inv r \<Longrightarrow> name \<in> set (owned_names i r) \<longleftrightarrow> (\<exists>e. lookup r name = Some e \<and> re_node_id e = i \<and> \<not> re_tombstone e)"
  by (auto simp: owned_names_def lookup_def table_inv_def map_of_eq_Some_iff image_iff Bex_def)

lemma tombstone_name_effect:
  assumes "registry_inv r" "cr_clock r \<noteq> - 1" "cr_clock r \<noteq> - 2" "lookup r name \<noteq> None"
  shows "cr_resolve (tombstone_name i n name r) = (cr_resolve r)(name := None)" "registry_inv (tombstone_name i n name r)"
    "dom (lookup (tombstone_name i n name r)) = dom (lookup r)" "cr_clock (tombstone_name i n name r) = cr_clock r + 2"
proof -
  have next_clock: "cr_clock r < cr_clock r + 1" "cr_clock r + 1 \<noteq> - 1"
    using assms(2,3) less_Suc_word [of "cr_clock r"] by (auto simp: eq_diff_eq [symmetric])
  obtain e where e: "map_of (cr_entries r) name = Some e" using assms(4) by (auto simp: lookup_def)
  let ?e = "\<lparr>re_name = name, re_actor_addr = re_actor_addr e, re_node_id = i, re_timestamp = cr_clock r + 1,
    re_generation = next_generation (r\<lparr>cr_clock := cr_clock r + 1\<rparr>) name, re_tombstone = True\<rparr>"
  have r': "tombstone_name i n name r = merge_and_enqueue ?e n (r\<lparr>cr_clock := cr_clock r + 1\<rparr>)"
    by (simp add: tombstone_name_def Let_def e)
  note w = write_wins [OF assms(1) next_clock _ r'] and ef = write_effect [OF assms(1) next_clock _ r', of name None]
  show "cr_resolve (tombstone_name i n name r) = (cr_resolve r)(name := None)" "registry_inv (tombstone_name i n name r)"
    using ef by simp_all
  show "dom (lookup (tombstone_name i n name r)) = dom (lookup r)" using w(1) assms(4) by (auto simp: dom_def)
  show "cr_clock (tombstone_name i n name r) = cr_clock r + 2" using w(3) by simp
qed

lemma map_of_filter_alist:
  "hm_inv m \<Longrightarrow> map_of (filter P m) k = (case map_of m k of Some v \<Rightarrow> if P (k, v) then Some v else None | None \<Rightarrow> None)"
proof (induction m)
  case (Cons x m)
  have "map_of (filter P m) (fst x) = None" using Cons.prems by (auto simp: map_of_eq_None_iff)
  then show ?case using Cons by (cases x) auto
qed simp

lemma gc_resolve:
  assumes "table_inv r"
  shows "cr_resolve (gc_tick r) = cr_resolve r"
proof -
  have "hm_inv (cr_entries r)" using assms by (simp add: table_inv_def)
  then show ?thesis
    by (simp add: fun_eq_iff cr_resolve_def gc_tick_def Let_def map_of_filter_alist gc_keeps_def split: option.split)
qed

lemma clock_room:
  fixes c :: u64
  assumes "unat c + 2 < 2 ^ 64"
  shows "c \<noteq> - 1" "c \<noteq> - 2" "unat (c + 2) = unat c + 2"
  using assms by (auto simp: unat_word_ariths unsigned_minus_1_eq_mask mask_eq_exp_minus_1)

lemma tombstone_names_effect:
  assumes "registry_inv r" "unat (cr_clock r) + 2 * length names < 2 ^ 64 - 2" "\<forall>name \<in> set names. lookup r name \<noteq> None"
  shows "cr_resolve (fold (tombstone_name i n) names r) = (\<lambda>name. if name \<in> set names then None else cr_resolve r name) \<and>
    registry_inv (fold (tombstone_name i n) names r)"
  using assms
proof (induction names arbitrary: r)
  case (Cons name names)
  have room: "unat (cr_clock r) + 2 < 2 ^ 64" using Cons.prems(2) by simp
  have "lookup r name \<noteq> None" using Cons.prems(3) by simp
  note t = tombstone_name_effect [OF Cons.prems(1) clock_room(1,2) [OF room] this, of i n]
  have "unat (cr_clock (tombstone_name i n name r)) + 2 * length names < 2 ^ 64 - 2"
    using Cons.prems(2) unfolding t(4) clock_room(3) [OF room] by simp
  moreover have "\<forall>x \<in> set names. lookup (tombstone_name i n name r) x \<noteq> None" using Cons.prems(3) t(3) by (auto simp: dom_def)
  ultimately show ?case using Cons.IH [OF t(2)] t(1) by (simp add: fun_eq_iff)
qed simp

text \<open>A dead node's names are withdrawn and nothing else is lost: when a node is declared dead, exactly the
  names that resolved to it stop resolving, all other names resolve as before, and garbage collection never
  changes what any name resolves to. (The clock must have room for two steps per withdrawn name.)\<close>

theorem dead_node_names_are_withdrawn:
  assumes "registry_inv r" "unat (cr_clock r) + 2 * length (owned_names dead r) < 2 ^ 64 - 2"
  shows "cr_resolve (gc_tick (tombstone_node dead n r)) = (\<lambda>name. case cr_resolve r name of
      Some (a, i) \<Rightarrow> if i = dead then None else Some (a, i) | None \<Rightarrow> None) \<and>
    registry_inv (tombstone_node dead n r)"
proof -
  have inv: "table_inv r" using assms(1) by (simp add: registry_inv_def)
  note owned = owned_names_lookup [OF inv, of _ dead]
  have "\<forall>name \<in> set (owned_names dead r). lookup r name \<noteq> None" using owned by auto
  from tombstone_names_effect [OF assms this, of dead n]
  have eff: "cr_resolve (tombstone_node dead n r) = (\<lambda>name. if name \<in> set (owned_names dead r) then None else cr_resolve r name)"
    "registry_inv (tombstone_node dead n r)" by (simp_all add: tombstone_node_def)
  then have "cr_resolve (gc_tick (tombstone_node dead n r)) = cr_resolve (tombstone_node dead n r)"
    by (intro gc_resolve) (simp add: registry_inv_def)
  also have "\<dots> = (\<lambda>name. case cr_resolve r name of Some (a, i) \<Rightarrow> if i = dead then None else Some (a, i) | None \<Rightarrow> None)"
    unfolding eff(1) owned by (auto simp: fun_eq_iff resolve_lookup split: option.split)
  finally show ?thesis using eff(2) by simp
qed

theorem dead_node_names_are_withdrawn_witness:
  "cr_resolve (gc_tick (tombstone_node (NodeId 1) 3
     (cr_register ''db'' (ActorAddress 7) (NodeId 1) 3 (cluster_registry_new registry_config_default)))) ''db'' = None"
proof -
  let ?new = "cluster_registry_new registry_config_default"
  let ?r = "cr_register ''db'' (ActorAddress 7) (NodeId 1) 3 ?new"
  have inv0: "registry_inv ?new" by (rule registry_inv_new) (simp add: registry_config_default_def)
  let ?e = "\<lparr>re_name = ''db'', re_actor_addr = ActorAddress 7, re_node_id = NodeId 1, re_timestamp = 1, re_generation = 1, re_tombstone = False\<rparr>"
  have r: "?r = merge_and_enqueue ?e 3 (?new\<lparr>cr_clock := 1\<rparr>)"
    by (simp add: cr_register_def Let_def next_generation_def) (simp add: cluster_registry_new_def)
  have clock0: "cr_clock ?new < 1" by (simp add: cluster_registry_new_def)
  note w = write_wins [OF inv0 clock0 _ _ r]
  have l: "lookup ?r ''db'' = Some ?e" "cr_clock ?r = 2" "registry_inv ?r" using w by simp_all
  have "cr_entries ?r = [(''db'', ?e)]"
    unfolding r by (simp add: merge_and_enqueue_result merge_result newer_def lookup_def) (simp add: cluster_registry_new_def)
  then have "length (owned_names (NodeId 1) ?r) = 1" by (simp add: owned_names_def)
  then have "unat (cr_clock ?r) + 2 * length (owned_names (NodeId 1) ?r) < 2 ^ 64 - 2" using l(2) by simp
  from dead_node_names_are_withdrawn [OF l(3) this, of 3]
  show ?thesis using l(1) by (simp add: resolve_lookup)
qed

section \<open>Where replicas part\<close>

text \<open>Equal ranks never converge. A node re-registers a name while another node, which holds the first
  registration, declares it dead: both write an entry with the same timestamp, generation and node. After
  the two registries have exchanged everything they hold, the name resolves on one and not on the other, and
  further exchanges change neither.\<close>

theorem registry_tie_diverges:
  "let d1 = cr_register ''db'' (ActorAddress 1) (NodeId 9) 2 (cluster_registry_new registry_config_default);
       s1 = merge_batch (map snd (cr_entries d1)) 2 (cluster_registry_new registry_config_default);
       d2 = cr_register ''db'' (ActorAddress 2) (NodeId 9) 2 d1;
       s2 = tombstone_node (NodeId 9) 1 s1 in
   merge_batch (map snd (cr_entries d2)) 2 s2 = s2 \<and> merge_batch (map snd (cr_entries s2)) 2 d2 = d2 \<and>
   cr_resolve s2 ''db'' = None \<and> cr_resolve d2 ''db'' = Some (ActorAddress 2, NodeId 9)"
  by (simp add: cr_register_def merge_batch_def tombstone_node_def tombstone_name_def owned_names_def merge_and_enqueue_def cr_merge_def
    cr_enqueue_def emit_event_def next_generation_def lww_wins_def cluster_registry_new_def registry_config_default_def cr_resolve_def Let_def)

text \<open>C20. One entry with the greatest timestamp captures its name: merging it makes the 64-bit clock wrap to
  zero, and the next local registration or withdrawal of the name has no effect.\<close>

theorem greatest_timestamp_captures_name:
  assumes "re_timestamp e = - 1" "newer e r"
  defines "r' \<equiv> snd (cr_merge e r)"
  shows "cr_clock r' = 0 \<and> lookup (cr_register (re_name e) a i n r') (re_name e) = Some e \<and>
    lookup (cr_unregister (re_name e) i n r') (re_name e) = Some e"
proof -
  have clock: "cr_clock r' = 0" using assms(1,2) by (simp add: r'_def merge_result)
  have held: "lookup r' (re_name e) = Some e" using assms(2) by (simp add: r'_def lookup_merge)
  have "lookup (merge_and_enqueue f n (r'\<lparr>cr_clock := 1\<rparr>)) (re_name e) = Some e"
    if "re_name f = re_name e" "re_timestamp f = 1" for f
  proof -
    have same: "lookup (r'\<lparr>cr_clock := 1\<rparr>) = lookup r'" by (rule lookup_cong) simp
    have "\<not> (- 1 :: u64) \<le> 1" by (simp add: word_le_nat_alt unsigned_minus_1_eq_mask mask_eq_exp_minus_1)
    then have "\<not> rank e < rank f" using that assms(1) by (auto simp: rank_def less_prod_def)
    then have "\<not> newer f (r'\<lparr>cr_clock := 1\<rparr>)" using that held by (auto simp: newer_def same)
    then have "cr_entries (merge_and_enqueue f n (r'\<lparr>cr_clock := 1\<rparr>)) = cr_entries r'" by (simp add: merge_and_enqueue_result merge_result)
    then show ?thesis using held lookup_cong by metis
  qed
  then show ?thesis using clock by (simp add: cr_register_def cr_unregister_def Let_def)
qed

theorem greatest_timestamp_captures_name_witness:
  "let e = \<lparr>re_name = ''db'', re_actor_addr = ActorAddress 1, re_node_id = NodeId 3, re_timestamp = - 1, re_generation = 1, re_tombstone = True\<rparr>;
       r = cluster_registry_new registry_config_default in
   lookup (cr_register ''db'' (ActorAddress 2) (NodeId 1) 2 (snd (cr_merge e r))) ''db'' = Some e"
proof -
  let ?e = "\<lparr>re_name = ''db'', re_actor_addr = ActorAddress 1, re_node_id = NodeId 3, re_timestamp = - 1, re_generation = 1, re_tombstone = True\<rparr>"
  have "newer ?e (cluster_registry_new registry_config_default)" by (simp add: newer_def)
  from greatest_timestamp_captures_name [OF _ this, of "ActorAddress 2" "NodeId 1" 2] show ?thesis by (simp add: Let_def)
qed

end
