(* ===== verification/Swim_Actor.thy ===== *)
theory Swim_Actor
  imports Swim_Node
begin

text \<open>
  The actor around the SWIM node (\<open>swim/actor.rs\<close>): messages in, sends and notifications out, and the binding
  from node identities to mailbox addresses. \<open>resolve\<close> is the peer directory's current content and
  \<open>accepts\<close> says which sends the runtime accepts; a refused or unresolvable send comes back to the actor as a
  \<open>SendFailed\<close> message. Binding a signed entry, which checks
  its signature, is in the theory \<open>Actor_Directory\<close>.
\<close>

section \<open>The binding\<close>

type_synonym peer_directory = "(node_id \<times> (u64 \<times> actor_address)) list"

definition pd_bind :: "node_id \<Rightarrow> actor_address \<Rightarrow> u64 \<Rightarrow> peer_directory \<Rightarrow> peer_directory" where
  "pd_bind i a generation d =
     (case map_of d i of
        Some (cur, _) \<Rightarrow> (if cur \<ge> generation then d else bt_insert i (generation, a) d)
      | None \<Rightarrow> bt_insert i (generation, a) d)"

definition pd_unbind :: "node_id \<Rightarrow> peer_directory \<Rightarrow> peer_directory" where
  "pd_unbind i d = bt_remove i d"

definition pd_resolve :: "peer_directory \<Rightarrow> node_id \<Rightarrow> actor_address option" where
  "pd_resolve d i = map_option snd (map_of d i)"

section \<open>Messages and effects\<close>

record membership_change =
  mc_node_id :: node_id
  mc_state :: member_state
  mc_incarnation :: u64

datatype swim_in =
    SwPing node_id u64 piggyback
  | SwAck node_id u64 piggyback
  | SwPingReq node_id node_id u64 piggyback
  | SwIndirectAck node_id u64 piggyback
  | SwJoinRequest node_id
  | SwJoinResponse "node_record list"
  | SwTick nat
  | SwSendFailed node_id
  | SwJoin "node_id list"
  | SwLeave
  | SwSubscribe actor_address

datatype swim_out =
    SwSend actor_address swim_in
  | SwNotify actor_address membership_change

record swim_actor =
  sa_self_id :: node_id
  sa_node :: swim_node
  sa_last_now :: nat
  sa_subscribers :: "actor_address list"

definition swim_actor_new :: "node_id \<Rightarrow> swim_config \<Rightarrow> nat \<Rightarrow> swim_actor" where
  "swim_actor_new self c now = \<lparr>sa_self_id = self, sa_node = swim_node_new self c now, sa_last_now = now, sa_subscribers = []\<rparr>"

text \<open>What an actor sees of its surroundings while it handles a message.\<close>

record swim_env =
  env_codec :: codec
  env_self_addr :: actor_address
  env_resolve :: "node_id \<Rightarrow> actor_address option"
  env_accepts :: "actor_address \<Rightarrow> swim_in \<Rightarrow> bool"

section \<open>Handling\<close>

definition send_to_node :: "swim_env \<Rightarrow> node_id \<Rightarrow> swim_in \<Rightarrow> swim_out list" where
  "send_to_node E i msg =
     (case env_resolve E i of
        Some a \<Rightarrow> (if env_accepts E a msg then [SwSend a msg] else [SwSend (env_self_addr E) (SwSendFailed i)])
      | None \<Rightarrow> [SwSend (env_self_addr E) (SwSendFailed i)])"

fun dispatch_one :: "swim_env \<Rightarrow> swim_actor \<Rightarrow> node_action \<Rightarrow> swim_out list" where
  "dispatch_one E A (NSendPing i seq pb) = send_to_node E i (SwPing (sa_self_id A) seq pb)"
| "dispatch_one E A (NSendAck i seq pb) = send_to_node E i (SwAck (sa_self_id A) seq pb)"
| "dispatch_one E A (NSendPingReq relay target seq pb) = send_to_node E relay (SwPingReq (sa_self_id A) target seq pb)"
| "dispatch_one E A (NForwardAck i target seq pb) = send_to_node E i (SwIndirectAck target seq pb)"
| "dispatch_one E A (NSendJoinResponse i rs) = send_to_node E i (SwJoinResponse rs)"
| "dispatch_one E A (MembershipChanged i st inc) =
     map (\<lambda>s. SwNotify s \<lparr>mc_node_id = i, mc_state = st, mc_incarnation = inc\<rparr>) (sa_subscribers A)"

definition dispatch :: "swim_env \<Rightarrow> swim_actor \<Rightarrow> node_action list \<Rightarrow> swim_out list" where
  "dispatch E A as = concat (map (dispatch_one E A) as)"

fun node_input_of :: "swim_in \<Rightarrow> node_input option" where
  "node_input_of (SwTick now) = Some (InTick now)"
| "node_input_of (SwPing src seq pb) = Some (InPing src seq pb)"
| "node_input_of (SwAck src seq pb) = Some (InAck src seq pb)"
| "node_input_of (SwPingReq src target seq pb) = Some (InPingReq src target seq pb)"
| "node_input_of (SwIndirectAck target seq pb) = Some (InIndirectAck target seq pb)"
| "node_input_of (SwJoinRequest src) = Some (InJoinRequest src)"
| "node_input_of (SwJoinResponse rs) = Some (InJoinResponse rs)"
| "node_input_of (SwSendFailed i) = Some (InSendFailure i)"
| "node_input_of SwLeave = Some InLeave"
| "node_input_of _ = None"

definition swim_handle :: "swim_env \<Rightarrow> swim_in \<Rightarrow> swim_actor \<Rightarrow> (swim_out list \<times> swim_actor) option" where
  "swim_handle E msg A =
     (case node_input_of msg of
        Some inp \<Rightarrow>
          (let A1 = (case msg of SwTick now \<Rightarrow> A\<lparr>sa_last_now := now\<rparr> | _ \<Rightarrow> A) in
           map_option (\<lambda>(as, n). (dispatch E A1 as, A1\<lparr>sa_node := n\<rparr>)) (node_step (env_codec E) inp (sa_node A)))
      | None \<Rightarrow>
          (case msg of
             SwJoin seeds \<Rightarrow> Some (concat (map (\<lambda>seed. send_to_node E seed (SwJoinRequest (sa_self_id A))) seeds), A)
           | SwSubscribe a \<Rightarrow> Some ([], A\<lparr>sa_subscribers := sa_subscribers A @ [a]\<rparr>)
           | _ \<Rightarrow> Some ([], A)))"

section \<open>What a subscriber sees\<close>

fun notes_to :: "actor_address \<Rightarrow> swim_out list \<Rightarrow> membership_change list" where
  "notes_to s [] = []"
| "notes_to s (SwNotify a m # outs) = (if a = s then m # notes_to s outs else notes_to s outs)"
| "notes_to s (_ # outs) = notes_to s outs"

definition follow :: "membership_change list \<Rightarrow> (node_id \<Rightarrow> (u64 \<times> member_state) option) \<Rightarrow> node_id \<Rightarrow> (u64 \<times> member_state) option" where
  "follow ms v = fold (\<lambda>m v. v(mc_node_id m \<mapsto> (mc_incarnation m, mc_state m))) ms v"

lemma notes_append [simp]: "notes_to s (xs @ ys) = notes_to s xs @ notes_to s ys"
  by (induction s xs rule: notes_to.induct) simp_all

lemma follow_append [simp]: "follow (xs @ ys) v = follow ys (follow xs v)"
  by (simp add: follow_def)

lemma notes_send [simp]: "notes_to s (send_to_node E i msg) = []"
  by (simp add: send_to_node_def split: option.split)

lemma notes_map: "notes_to s (map (\<lambda>a. SwNotify a m) as) = replicate (length (filter (\<lambda>a. a = s) as)) m"
  by (induction as) auto

lemma follow_replicate: "0 < k \<Longrightarrow> follow (replicate k m) v = v(mc_node_id m \<mapsto> (mc_incarnation m, mc_state m))"
proof (induction k arbitrary: v)
  case (Suc k)
  have "follow (replicate (Suc k) m) v = follow (replicate k m) (v(mc_node_id m \<mapsto> (mc_incarnation m, mc_state m)))" by (simp add: follow_def)
  then show ?case using Suc.IH by (cases "k = 0") (simp_all add: follow_def fun_eq_iff)
qed simp

lemma follow_dispatch:
  assumes "s \<in> set (sa_subscribers A)"
  shows "follow (notes_to s (dispatch E A as)) v = replay as v"
proof (induction as arbitrary: v)
  case (Cons a as)
  have "filter (\<lambda>a. a = s) (sa_subscribers A) \<noteq> []" using assms by (auto simp: filter_empty_conv)
  then have one: "follow (replicate (length (filter (\<lambda>a. a = s) (sa_subscribers A))) m) v = v(mc_node_id m \<mapsto> (mc_incarnation m, mc_state m))" for m v
    by (intro follow_replicate) simp
  show ?case using Cons.IH by (cases a) (simp_all add: dispatch_def notes_map one del: fun_upd_apply)
qed (simp add: dispatch_def follow_def)

fun swim_run :: "swim_env \<Rightarrow> swim_in list \<Rightarrow> swim_actor \<Rightarrow> (swim_out list \<times> swim_actor) option" where
  "swim_run E [] A = Some ([], A)"
| "swim_run E (msg # msgs) A =
     (case swim_handle E msg A of
        None \<Rightarrow> None
      | Some (outs, A1) \<Rightarrow> map_option (\<lambda>(outs', A2). (outs @ outs', A2)) (swim_run E msgs A1))"

lemma handle_tracks:
  assumes "node_inv (sa_node A)" "s \<in> set (sa_subscribers A)" "swim_handle E msg A = Some (outs, A')"
  shows "view (members (sa_node A')) = follow (notes_to s outs) (view (members (sa_node A))) \<and> node_inv (sa_node A') \<and>
    s \<in> set (sa_subscribers A')"
proof (cases "node_input_of msg")
  case (Some inp)
  define A1 where "A1 = (case msg of SwTick now \<Rightarrow> A\<lparr>sa_last_now := now\<rparr> | _ \<Rightarrow> A)"
  have A1: "sa_subscribers A1 = sa_subscribers A" by (simp add: A1_def split: swim_in.split)
  obtain as n where step: "node_step (env_codec E) inp (sa_node A) = Some (as, n)" and
    out: "outs = dispatch E A1 as" "A' = A1\<lparr>sa_node := n\<rparr>"
    using assms(3) Some by (auto simp: swim_handle_def Let_def A1_def [symmetric])
  show ?thesis using replay_step [OF assms(1) step] node_inv_step [OF assms(1) step] follow_dispatch [of s A1 E as] assms(2)
    by (simp add: out A1)
next
  case None
  have "notes_to s (concat (map (\<lambda>seed. send_to_node E seed m) seeds)) = []" for m seeds by (induction seeds) simp_all
  then show ?thesis using assms None by (cases msg) (auto simp: swim_handle_def follow_def)
qed

text \<open>C15. Subscribers can follow the membership exactly. Whatever messages a SWIM actor handles, an actor that is
  subscribed reconstructs the new view of the cluster from the old one by applying the membership notifications
  it is sent, in order: no change goes unannounced, and the notifications lead to no view the node does not hold.\<close>

theorem subscribers_track_membership:
  assumes "node_inv (sa_node A)" "s \<in> set (sa_subscribers A)" "swim_run E msgs A = Some (outs, A')"
  shows "view (members (sa_node A')) = follow (notes_to s outs) (view (members (sa_node A)))"
  using assms
proof (induction msgs arbitrary: A outs)
  case (Cons msg msgs)
  from Cons.prems(3) obtain o1 A1 o2 where parts: "swim_handle E msg A = Some (o1, A1)" "swim_run E msgs A1 = Some (o2, A')" "outs = o1 @ o2"
    by (auto split: option.splits)
  note h = handle_tracks [OF Cons.prems(1,2) parts(1)]
  show ?case using Cons.IH [OF _ _ parts(2)] h parts(3) by simp
qed (simp add: follow_def)

definition quiet_env :: swim_env where
  "quiet_env = \<lparr>env_codec = silent_codec, env_self_addr = ActorAddress 1, env_resolve = \<lambda>_. None, env_accepts = \<lambda>_ _. True\<rparr>"

theorem subscribers_track_membership_witness:
  "let A = (swim_actor_new (NodeId 1) swim_config_default 0)\<lparr>sa_subscribers := [ActorAddress 5]\<rparr>;
       msgs = [SwJoinResponse [\<lparr>nr_node_id = NodeId 7, nr_state = Alive, nr_incarnation = 2\<rparr>], SwPing (NodeId 8) 5 []] in
   case swim_run quiet_env msgs A of
     Some (outs, A') \<Rightarrow> view (members (sa_node A')) (NodeId 7) = Some (2, Alive) \<and>
       view (members (sa_node A')) = follow (notes_to (ActorAddress 5) outs) (view (members (sa_node A)))
   | None \<Rightarrow> False"
proof -
  define A where "A = (swim_actor_new (NodeId 1) swim_config_default 0)\<lparr>sa_subscribers := [ActorAddress 5]\<rparr>"
  let ?msgs = "[SwJoinResponse [\<lparr>nr_node_id = NodeId 7, nr_state = Alive, nr_incarnation = 2\<rparr>], SwPing (NodeId 8) 5 []]"
  have n: "sa_node A = swim_node_new (NodeId 1) swim_config_default 0" by (simp add: A_def swim_actor_new_def)
  obtain outs A' where run: "swim_run quiet_env ?msgs A = Some (outs, A')" by (simp add: swim_handle_def Let_def split_beta)
  moreover have "view (members (sa_node A')) (NodeId 7) = Some (2, Alive)"
    using run by (auto simp: swim_handle_def Let_def split_beta n handle_ping_def join_record_def apply_piggyback_def unpack_piggyback_def
      swim_node_new_def clear_dead_member_def view_def swim_defs)
  moreover have "node_inv (sa_node A)" "ActorAddress 5 \<in> set (sa_subscribers A)" by (simp_all add: n node_inv_new) (simp add: A_def)
  ultimately show ?thesis using subscribers_track_membership [OF _ _ run, of "ActorAddress 5"] by (simp add: A_def [symmetric])
qed

end
