(* ===== verification/Registry_Actor.thy ===== *)
theory Registry_Actor
  imports Cluster_Registry Swim_Actor
begin

text \<open>
  The actor around the name registry (\<open>registry_actor.rs\<close>). Effects are the list of messages sent, in order.
  \<open>resolve\<close> is the peer directory and \<open>live\<close> tells which watchers still exist (the weak references that
  upgrade); a watcher is a number. Alive peers are kept in a sorted list, as in a \<open>BTreeSet\<close>.
\<close>

section \<open>Messages and state\<close>

datatype registry_delivery =
    DeliveryRequest actor_address
  | DeliveryAcknowledged actor_address node_id

record registry_gossip =
  rg_entries :: "registry_entry list"
  rg_delivery :: "registry_delivery option"

datatype registry_in =
    RMembership membership_change
  | RegisterName string actor_address
  | RegisterNameAt string actor_address u64
  | DisseminateNameTo string "node_id list" actor_address
  | NameAcknowledged registry_entry node_id
  | UnregisterName string
  | ResolveName string actor_address
  | RGossip registry_gossip
  | RSyncTo node_id
  | WatchName string nat
  | RTick

datatype registry_out =
    RSend actor_address registry_in
  | NameResolved actor_address string "(actor_address \<times> node_id) option"
  | RWake nat

record registry_actor =
  ra_self_id :: node_id
  ra_registry :: cluster_registry
  ra_alive :: "node_id list"
  ra_fanout_cursor :: u64
  ra_view :: "registry_snapshot option"
  ra_watchers :: "(string \<times> registry_entry option \<times> nat) list"

definition registry_actor_new :: "node_id \<Rightarrow> registry_config \<Rightarrow> registry_actor" where
  "registry_actor_new self c = \<lparr>ra_self_id = self, ra_registry = cluster_registry_new c, ra_alive = [],
     ra_fanout_cursor = 0, ra_view = None, ra_watchers = []\<rparr>"

definition with_view :: "registry_actor \<Rightarrow> registry_actor" where
  "with_view A = A\<lparr>ra_view := Some (cr_snapshot (ra_registry A))\<rparr>"

text \<open>\<open>BTreeSet::insert\<close> and \<open>remove\<close>.\<close>

definition bs_insert :: "'a::linorder \<Rightarrow> 'a list \<Rightarrow> bool \<times> 'a list" where
  "bs_insert x xs = (if x \<in> set xs then (False, xs) else (True, insort x xs))"

definition bs_remove :: "'a \<Rightarrow> 'a list \<Rightarrow> 'a list" where
  "bs_remove x xs = remove1 x xs"

section \<open>Steps\<close>

definition find_name :: "string \<Rightarrow> registry_actor \<Rightarrow> registry_entry option" where
  "find_name name A = find (\<lambda>e. re_name e = name) (map snd (cr_entries (ra_registry A)))"

fun wake_watchers :: "(nat \<Rightarrow> bool) \<Rightarrow> registry_actor \<Rightarrow> (string \<times> registry_entry option \<times> nat) list
    \<Rightarrow> registry_out list \<times> (string \<times> registry_entry option \<times> nat) list" where
  "wake_watchers live A [] = ([], [])"
| "wake_watchers live A ((name, previous, w) # ws) =
     (case wake_watchers live A ws of (outs, ws') \<Rightarrow>
      if \<not> live w then (outs, ws')
      else if find_name name A \<noteq> previous then (RWake w # outs, (name, find_name name A, w) # ws')
      else (outs, (name, previous, w) # ws'))"

definition publish :: "(nat \<Rightarrow> bool) \<Rightarrow> registry_actor \<Rightarrow> registry_out list \<times> registry_actor" where
  "publish live A =
     (let A1 = (if ra_view A = None then A else with_view A) in
      case wake_watchers live A1 (ra_watchers A1) of (outs, ws) \<Rightarrow> (outs, A1\<lparr>ra_watchers := ws\<rparr>))"

definition ra_cluster_size :: "registry_actor \<Rightarrow> nat" where
  "ra_cluster_size A = length (ra_alive A) + 1"

definition upd_registry :: "(cluster_registry \<Rightarrow> cluster_registry) \<Rightarrow> registry_actor \<Rightarrow> registry_actor" where
  "upd_registry f A = A\<lparr>ra_registry := f (ra_registry A)\<rparr>"

definition ra_disseminate :: "(node_id \<Rightarrow> actor_address option) \<Rightarrow> registry_actor \<Rightarrow> registry_out list \<times> registry_actor" where
  "ra_disseminate resolve A =
     (if ra_alive A = [] then ([], A)
      else case cr_take_pending 8 (ra_registry A) of (es, r) \<Rightarrow>
        let A1 = A\<lparr>ra_registry := r\<rparr> in
        if es = [] then ([], A1)
        else
          let peer = ra_alive A1 ! (unat (ra_fanout_cursor A1) mod length (ra_alive A1)) in
          (case resolve peer of Some a \<Rightarrow> [RSend a (RGossip \<lparr>rg_entries = es, rg_delivery = None\<rparr>)] | None \<Rightarrow> [],
           A1\<lparr>ra_fanout_cursor := ra_fanout_cursor A1 + 1\<rparr>))"

definition ra_sync_to :: "(node_id \<Rightarrow> actor_address option) \<Rightarrow> node_id \<Rightarrow> registry_actor \<Rightarrow> registry_out list" where
  "ra_sync_to resolve peer A =
     (case resolve peer of
        None \<Rightarrow> []
      | Some a \<Rightarrow> map (\<lambda>b. RSend a (RGossip \<lparr>rg_entries = b, rg_delivery = None\<rparr>)) (batches 8 (map snd (cr_entries (ra_registry A)))))"

definition holds_entry :: "registry_actor \<Rightarrow> registry_entry \<Rightarrow> bool" where
  "holds_entry A e \<longleftrightarrow> e \<in> set (map snd (cr_entries (ra_registry A)))"

definition on_gossip :: "(node_id \<Rightarrow> actor_address option) \<Rightarrow> (nat \<Rightarrow> bool) \<Rightarrow> registry_gossip \<Rightarrow> registry_actor
    \<Rightarrow> registry_out list \<times> registry_actor" where
  "on_gossip resolve live g A =
     (case rg_delivery g of
        Some (DeliveryAcknowledged reply_to peer) \<Rightarrow>
          (map (\<lambda>e. RSend reply_to (NameAcknowledged e peer))
             (filter (\<lambda>e. \<not> re_tombstone e \<and> re_node_id e = ra_self_id A \<and> holds_entry A e) (rg_entries g)), A)
      | Some (DeliveryRequest reply_to) \<Rightarrow>
          (case publish live (upd_registry (merge_batch (rg_entries g) (ra_cluster_size A)) A) of (outs, A1) \<Rightarrow>
             (outs @ concat (map (\<lambda>e.
                  if \<not> re_tombstone e \<and> holds_entry A1 e
                  then (case resolve (re_node_id e) of
                          Some a \<Rightarrow> [RSend a (RGossip \<lparr>rg_entries = [e], rg_delivery = Some (DeliveryAcknowledged reply_to (ra_self_id A1))\<rparr>)]
                        | None \<Rightarrow> [])
                  else []) (rg_entries g)), A1))
      | None \<Rightarrow> publish live (upd_registry (merge_batch (rg_entries g) (ra_cluster_size A)) A))"

fun on_membership :: "(nat \<Rightarrow> bool) \<Rightarrow> membership_change \<Rightarrow> registry_actor \<Rightarrow> registry_out list \<times> registry_actor" where
  "on_membership live m A =
     (case mc_state m of
        Alive \<Rightarrow>
          (if mc_node_id m \<noteq> ra_self_id A
           then (case bs_insert (mc_node_id m) (ra_alive A) of
                   (True, al) \<Rightarrow> (let A1 = A\<lparr>ra_alive := al\<rparr> in ([], upd_registry (cr_re_disseminate_all (ra_cluster_size A1)) A1))
                 | (False, _) \<Rightarrow> ([], A))
           else ([], A))
      | Dead \<Rightarrow>
          (let A1 = A\<lparr>ra_alive := bs_remove (mc_node_id m) (ra_alive A)\<rparr> in
           publish live (upd_registry (tombstone_node (mc_node_id m) (ra_cluster_size A1)) A1))
      | Suspect \<Rightarrow> ([], A))"

fun registry_handle :: "(node_id \<Rightarrow> actor_address option) \<Rightarrow> (nat \<Rightarrow> bool) \<Rightarrow> registry_in \<Rightarrow> registry_actor
    \<Rightarrow> registry_out list \<times> registry_actor" where
  "registry_handle resolve live (RMembership m) A = on_membership live m A"
| "registry_handle resolve live (RegisterName name a) A =
     publish live (upd_registry (cr_register name a (ra_self_id A) (ra_cluster_size A)) A)"
| "registry_handle resolve live (RegisterNameAt name a ts) A =
     publish live (upd_registry (cr_register_at name a (ra_self_id A) ts (ra_cluster_size A)) A)"
| "registry_handle resolve live (DisseminateNameTo name peers reply_to) A =
     (case find (\<lambda>e. re_name e = name \<and> \<not> re_tombstone e \<and> re_node_id e = ra_self_id A) (map snd (cr_entries (ra_registry A))) of
        None \<Rightarrow> ([], A)
      | Some e \<Rightarrow>
          (concat (map (\<lambda>peer. case resolve peer of
               Some a \<Rightarrow> [RSend a (RGossip \<lparr>rg_entries = [e], rg_delivery = Some (DeliveryRequest reply_to)\<rparr>)]
             | None \<Rightarrow> []) peers), A))"
| "registry_handle resolve live (UnregisterName name) A =
     publish live (upd_registry (cr_unregister name (ra_self_id A) (ra_cluster_size A)) A)"
| "registry_handle resolve live (RSyncTo peer) A = (ra_sync_to resolve peer A, A)"
| "registry_handle resolve live (WatchName name w) A =
     (if live w then ([RWake w], A\<lparr>ra_watchers := ra_watchers A @ [(name, find_name name A, w)]\<rparr>) else ([], A))"
| "registry_handle resolve live (ResolveName name reply) A = ([NameResolved reply name (cr_resolve (ra_registry A) name)], A)"
| "registry_handle resolve live (RGossip g) A = on_gossip resolve live g A"
| "registry_handle resolve live (NameAcknowledged _ _) A = ([], A)"
| "registry_handle resolve live RTick A =
     (case ra_disseminate resolve (upd_registry gc_tick A) of (outs, A1) \<Rightarrow>
      case publish live A1 of (outs', A2) \<Rightarrow> (outs @ outs', A2))"

section \<open>Synchronising a peer\<close>

lemma publish_frame [simp]:
  "ra_registry (snd (publish live A)) = ra_registry A" "ra_self_id (snd (publish live A)) = ra_self_id A" "ra_alive (snd (publish live A)) = ra_alive A"
  by (simp_all add: publish_def Let_def split_beta with_view_def)

text \<open>The registry part of a message delivered to an actor; other effects carry none.\<close>

fun deliver_out :: "(node_id \<Rightarrow> actor_address option) \<Rightarrow> (nat \<Rightarrow> bool) \<Rightarrow> registry_out \<Rightarrow> registry_actor \<Rightarrow> registry_actor" where
  "deliver_out resolve live (RSend _ msg) A = snd (registry_handle resolve live msg A)"
| "deliver_out resolve live _ A = A"

lemma sync_delivery:
  "ra_registry (fold (deliver_out res live) (map (\<lambda>b. RSend a (RGossip \<lparr>rg_entries = b, rg_delivery = None\<rparr>)) bs) B) =
   fold (\<lambda>b. merge_batch b (ra_cluster_size B)) bs (ra_registry B)"
proof (induction bs arbitrary: B)
  case (Cons b bs)
  let ?B = "snd (registry_handle res live (RGossip \<lparr>rg_entries = b, rg_delivery = None\<rparr>) B)"
  have "ra_registry ?B = merge_batch b (ra_cluster_size B) (ra_registry B)" "ra_cluster_size ?B = ra_cluster_size B"
    by (simp_all add: on_gossip_def upd_registry_def ra_cluster_size_def)
  then show ?case using Cons.IH [of ?B] by simp
qed simp

lemma merge_batches: "fold (\<lambda>b. merge_batch b n) bs r = merge_batch (concat bs) n r"
  by (induction bs arbitrary: r) (simp_all add: merge_batch_def)

lemma merge_batch_distinct:
  assumes "table_inv r"
  shows "lookup (merge_batch (map snd (cr_entries r)) n (cluster_registry_new c)) = lookup r"
proof
  fix name
  let ?es = "map snd (cr_entries r)" and ?f = "\<lambda>e. (re_name e, e)"
  have cand: "registry.candidates (map ?f ?es) (cluster_registry_new c) name = set_option (lookup r name)"
  proof (unfold candidates_new, intro set_eqI iffI)
    fix e assume "e \<in> {e \<in> set ?es. re_name e = name}"
    then obtain k where "(k, e) \<in> set (cr_entries r)" "re_name e = name" by auto
    then have "(name, e) \<in> set (cr_entries r)" using assms by (auto simp: table_inv_def)
    then show "e \<in> set_option (lookup r name)" using assms by (simp add: table_inv_def lookup_def)
  next
    fix e assume "e \<in> set_option (lookup r name)"
    then have "(name, e) \<in> set (cr_entries r)" by (auto simp: lookup_def dest: map_of_SomeD)
    then show "e \<in> {e \<in> set ?es. re_name e = name}" using assms by (force simp: table_inv_def)
  qed
  show "lookup (merge_batch ?es n (cluster_registry_new c)) name = lookup r name"
    using registry.deliver_maximal [OF table_inv_new, of "map ?f ?es" c name n] unfolding cand merge_batch_deliver
    by (cases "lookup r name") auto
qed

lemma table_inv_register: "table_inv r \<Longrightarrow> table_inv (cr_register name a i n r)"
  using table_inv_merge [of "r\<lparr>cr_clock := cr_clock r + 1\<rparr>"] table_inv_cong [of r "r\<lparr>cr_clock := cr_clock r + 1\<rparr>"]
  unfolding cr_register_def Let_def by (subst table_inv_cong [OF merge_and_enqueue_result(1)]) simp

text \<open>C21. Synchronising a peer transfers the registry. The messages sent for \<open>SyncTo\<close> carry at most eight entries
  each; a peer with an empty registry that handles them, in order, ends up with the same entry for every name,
  tombstones included, and so resolves every name alike.\<close>

theorem sync_transfers_the_registry:
  fixes live live' res
  assumes "table_inv (ra_registry A)" "resolve peer = Some a" "ra_registry B = cluster_registry_new c"
  defines "outs \<equiv> fst (registry_handle resolve live (RSyncTo peer) A)"
  defines "B' \<equiv> fold (deliver_out res live') outs B"
  shows "(\<forall>m \<in> set outs. \<exists>es. m = RSend a (RGossip \<lparr>rg_entries = es, rg_delivery = None\<rparr>) \<and> es \<noteq> [] \<and> length es \<le> 8) \<and>
    lookup (ra_registry B') = lookup (ra_registry A) \<and> cr_resolve (ra_registry B') = cr_resolve (ra_registry A)"
proof -
  let ?es = "map snd (cr_entries (ra_registry A))"
  have outs: "outs = map (\<lambda>b. RSend a (RGossip \<lparr>rg_entries = b, rg_delivery = None\<rparr>)) (batches 8 ?es)"
    using assms(2) by (simp add: outs_def ra_sync_to_def)
  have "ra_registry B' = merge_batch ?es (ra_cluster_size B) (cluster_registry_new c)"
    unfolding B'_def outs sync_delivery assms(3) merge_batches by (simp add: concat_batches)
  then have "lookup (ra_registry B') = lookup (ra_registry A)" using merge_batch_distinct [OF assms(1)] by simp
  then show ?thesis using batches_bound [of 8 ?es] by (auto simp: outs resolve_lookup fun_eq_iff)
qed

definition two_names :: registry_actor where
  "two_names = (registry_actor_new (NodeId 1) registry_config_default)\<lparr>ra_registry :=
     cr_register ''b'' (ActorAddress 8) (NodeId 1) 2 (cr_register ''a'' (ActorAddress 7) (NodeId 1) 2 (cluster_registry_new registry_config_default))\<rparr>"

theorem sync_transfers_the_registry_witness:
  "cr_resolve (ra_registry (fold (deliver_out (\<lambda>_. None) (\<lambda>_. True))
     (fst (registry_handle (\<lambda>_. Some (ActorAddress 3)) (\<lambda>_. True) (RSyncTo (NodeId 2)) two_names))
     (registry_actor_new (NodeId 2) registry_config_default))) = cr_resolve (ra_registry two_names)"
proof -
  have "table_inv (ra_registry two_names)" by (simp add: two_names_def table_inv_register table_inv_new)
  from sync_transfers_the_registry [OF this, of "\<lambda>_. Some (ActorAddress 3)" "NodeId 2" "ActorAddress 3"
      "registry_actor_new (NodeId 2) registry_config_default" registry_config_default]
  show ?thesis by (simp add: registry_actor_new_def)
qed

end
