(* ===== verification/Node_Metadata.thy ===== *)
theory Node_Metadata
  imports Registry_Actor
begin

text \<open>
  Per-node metadata (\<open>node_metadata.rs\<close>) and its actor (\<open>node_metadata_actor.rs\<close>): relay URL and name of each
  node, gossiped with the highest generation winning, and the mirror of relay URLs that the dial path reads.
\<close>

section \<open>The disseminator\<close>

record metadata_entry =
  nm_node_id :: node_id
  nm_relay_url :: "string option"
  nm_node_name :: "string option"
  nm_generation :: u64

record metadata_store =
  ms_store :: "(node_id \<times> metadata_entry) list"
  ms_pending :: "metadata_entry pending list"
  ms_lambda :: nat
  ms_local_generation :: u64

definition metadata_new :: "nat \<Rightarrow> metadata_store" where
  "metadata_new lambda = \<lparr>ms_store = [], ms_pending = [], ms_lambda = lambda, ms_local_generation = 0\<rparr>"

definition ms_enqueue :: "metadata_entry \<Rightarrow> nat \<Rightarrow> metadata_store \<Rightarrow> metadata_store" where
  "ms_enqueue e size_n s =
     s\<lparr>ms_pending := pend_enqueue nm_node_id e (gossip_budget (ms_lambda s) size_n) (ms_pending s)\<rparr>"

definition ms_put :: "metadata_entry \<Rightarrow> nat \<Rightarrow> metadata_store \<Rightarrow> metadata_store" where
  "ms_put e size_n s = ms_enqueue e size_n (s\<lparr>ms_store := hm_insert (nm_node_id e) e (ms_store s)\<rparr>)"

definition set_local :: "node_id \<Rightarrow> string option \<Rightarrow> string option \<Rightarrow> nat \<Rightarrow> metadata_store \<Rightarrow> metadata_store" where
  "set_local i url name size_n s =
     (let s1 = s\<lparr>ms_local_generation := ms_local_generation s + 1\<rparr> in
      ms_put \<lparr>nm_node_id = i, nm_relay_url = url, nm_node_name = name, nm_generation = ms_local_generation s1\<rparr> size_n s1)"

definition ms_apply :: "nat \<Rightarrow> metadata_entry \<Rightarrow> metadata_store \<Rightarrow> metadata_store" where
  "ms_apply size_n e s =
     (if (case map_of (ms_store s) (nm_node_id e) of Some existing \<Rightarrow> nm_generation e \<le> nm_generation existing | None \<Rightarrow> False)
      then s else ms_put e size_n s)"

definition apply_incoming :: "metadata_entry list \<Rightarrow> nat \<Rightarrow> metadata_store \<Rightarrow> metadata_store" where
  "apply_incoming es size_n s = fold (ms_apply size_n) es s"

definition ms_take_pending :: "nat \<Rightarrow> metadata_store \<Rightarrow> metadata_entry list \<times> metadata_store" where
  "ms_take_pending max_count s = (case pend_take max_count (ms_pending s) of (es, q) \<Rightarrow> (es, s\<lparr>ms_pending := q\<rparr>))"

definition relay_url :: "metadata_store \<Rightarrow> node_id \<Rightarrow> string option" where
  "relay_url s i = Option.bind (map_of (ms_store s) i) nm_relay_url"

definition node_name :: "metadata_store \<Rightarrow> node_id \<Rightarrow> string option" where
  "node_name s i = Option.bind (map_of (ms_store s) i) nm_node_name"

definition ms_remove_node :: "node_id \<Rightarrow> metadata_store \<Rightarrow> metadata_store" where
  "ms_remove_node i s = s\<lparr>ms_store := hm_remove i (ms_store s), ms_pending := filter (\<lambda>x. nm_node_id (pe_entry x) \<noteq> i) (ms_pending s)\<rparr>"

definition local_version :: "metadata_store \<Rightarrow> u64" where
  "local_version s = ms_local_generation s"

definition peer_version :: "metadata_store \<Rightarrow> node_id \<Rightarrow> u64 option" where
  "peer_version s i = map_option nm_generation (map_of (ms_store s) i)"

definition all_versions :: "metadata_store \<Rightarrow> (node_id \<times> u64) list" where
  "all_versions s = map (\<lambda>(_, e). (nm_node_id e, nm_generation e)) (ms_store s)"

definition ms_re_disseminate_all :: "nat \<Rightarrow> metadata_store \<Rightarrow> metadata_store" where
  "ms_re_disseminate_all size_n s = fold (\<lambda>(_, e). ms_enqueue e size_n) (ms_store s) s"

section \<open>The actor\<close>

datatype metadata_in =
    MMembership membership_change
  | SetRelayUrl "string option"
  | SetNodeName string
  | RelayLookup node_id actor_address
  | MGossip "metadata_entry list"
  | MTick

datatype metadata_out =
    MSend actor_address metadata_in
  | RelayInfo actor_address node_id "string option"

record metadata_actor =
  ma_self_id :: node_id
  ma_metadata :: metadata_store
  ma_relay_mirror :: "(node_id \<times> string) list"
  ma_alive :: "node_id list"
  ma_fanout_cursor :: u64
  ma_self_relay :: "string option"
  ma_self_name :: "string option"

definition metadata_actor_new :: "node_id \<Rightarrow> nat \<Rightarrow> (node_id \<times> string) list \<Rightarrow> metadata_actor" where
  "metadata_actor_new self lambda mirror = \<lparr>ma_self_id = self, ma_metadata = metadata_new lambda, ma_relay_mirror = mirror,
     ma_alive = [], ma_fanout_cursor = 0, ma_self_relay = None, ma_self_name = None\<rparr>"

definition ma_cluster_size :: "metadata_actor \<Rightarrow> nat" where
  "ma_cluster_size A = length (ma_alive A) + 1"

definition refresh_relay_mirror :: "metadata_actor \<Rightarrow> metadata_actor" where
  "refresh_relay_mirror A =
     A\<lparr>ma_relay_mirror := fold (\<lambda>(i, _) m. case relay_url (ma_metadata A) i of Some url \<Rightarrow> hm_insert i url m | None \<Rightarrow> m)
        (all_versions (ma_metadata A)) []\<rparr>"

definition ma_disseminate :: "(node_id \<Rightarrow> actor_address option) \<Rightarrow> metadata_actor \<Rightarrow> metadata_out list \<times> metadata_actor" where
  "ma_disseminate resolve A =
     (if ma_alive A = [] then ([], A)
      else case ms_take_pending 4 (ma_metadata A) of (es, s) \<Rightarrow>
        let A1 = A\<lparr>ma_metadata := s\<rparr> in
        if es = [] then ([], A1)
        else
          let peer = ma_alive A1 ! (unat (ma_fanout_cursor A1) mod length (ma_alive A1)) in
          (case resolve peer of Some a \<Rightarrow> [MSend a (MGossip es)] | None \<Rightarrow> [],
           A1\<lparr>ma_fanout_cursor := ma_fanout_cursor A1 + 1\<rparr>))"

definition upd_metadata :: "(metadata_store \<Rightarrow> metadata_store) \<Rightarrow> metadata_actor \<Rightarrow> metadata_actor" where
  "upd_metadata f A = A\<lparr>ma_metadata := f (ma_metadata A)\<rparr>"

definition publish_local :: "metadata_actor \<Rightarrow> metadata_actor" where
  "publish_local A = upd_metadata (set_local (ma_self_id A) (ma_self_relay A) (ma_self_name A) (ma_cluster_size A)) A"

fun metadata_handle :: "(node_id \<Rightarrow> actor_address option) \<Rightarrow> metadata_in \<Rightarrow> metadata_actor \<Rightarrow> metadata_out list \<times> metadata_actor" where
  "metadata_handle resolve (MMembership m) A =
     (case mc_state m of
        Alive \<Rightarrow>
          (if mc_node_id m \<noteq> ma_self_id A
           then (case bs_insert (mc_node_id m) (ma_alive A) of
                   (True, al) \<Rightarrow> (let A1 = A\<lparr>ma_alive := al\<rparr> in ([], upd_metadata (ms_re_disseminate_all (ma_cluster_size A1)) A1))
                 | (False, _) \<Rightarrow> ([], A))
           else ([], A))
      | Dead \<Rightarrow>
          ([], refresh_relay_mirror (upd_metadata (ms_remove_node (mc_node_id m)) (A\<lparr>ma_alive := bs_remove (mc_node_id m) (ma_alive A)\<rparr>)))
      | Suspect \<Rightarrow> ([], A))"
| "metadata_handle resolve (SetRelayUrl url) A = ([], refresh_relay_mirror (publish_local (A\<lparr>ma_self_relay := url\<rparr>)))"
| "metadata_handle resolve (SetNodeName name) A = ([], publish_local (A\<lparr>ma_self_name := Some name\<rparr>))"
| "metadata_handle resolve (RelayLookup i reply) A = ([RelayInfo reply i (relay_url (ma_metadata A) i)], A)"
| "metadata_handle resolve (MGossip es) A = ([], refresh_relay_mirror (upd_metadata (apply_incoming es (ma_cluster_size A)) A))"
| "metadata_handle resolve MTick A = ma_disseminate resolve A"

section \<open>Highest generation wins\<close>

definition meta_lookup :: "metadata_store \<Rightarrow> node_id \<Rightarrow> metadata_entry option" where
  "meta_lookup s i = map_of (ms_store s) i"

definition meta_inv :: "metadata_store \<Rightarrow> bool" where
  "meta_inv s \<longleftrightarrow> hm_inv (ms_store s) \<and> (\<forall>(i, e) \<in> set (ms_store s). nm_node_id e = i)"

lemma ms_put_frame [simp]:
  "ms_store (ms_put e n s) = hm_insert (nm_node_id e) e (ms_store s)" "ms_store (ms_enqueue e n s) = ms_store s"
  by (simp_all add: ms_put_def ms_enqueue_def)

lemma meta_inv_put: "meta_inv s \<Longrightarrow> meta_inv (ms_put e n s)"
  using set_hm_insert_subset [of "nm_node_id e" e "ms_store s"] by (auto simp: meta_inv_def distinct_update)

lemma meta_inv_apply: "meta_inv s \<Longrightarrow> meta_inv (ms_apply n e s)"
  by (simp add: ms_apply_def meta_inv_put)

definition deliver_metadata :: "nat \<Rightarrow> metadata_store \<Rightarrow> node_id \<Rightarrow> metadata_entry \<Rightarrow> metadata_store" where
  "deliver_metadata size_n s i e = (if nm_node_id e = i then ms_apply size_n e s else s)"

interpretation metadata: lww_register meta_lookup "deliver_metadata n" nm_generation "\<lambda>s i e. nm_node_id e = i" meta_inv for n
proof
  fix s k v k'
  show "meta_lookup (deliver_metadata n s k v) k' =
      (if k' = k \<and> nm_node_id v = k \<and> (\<forall>old. meta_lookup s k = Some old \<longrightarrow> nm_generation old < nm_generation v) then Some v else meta_lookup s k')"
    by (auto simp: meta_lookup_def deliver_metadata_def ms_apply_def update_conv' split: option.split)
  assume "meta_inv s"
  then show "meta_inv (deliver_metadata n s k v)" by (simp add: deliver_metadata_def meta_inv_apply)
qed simp

lemma apply_incoming_deliver: "apply_incoming es n s = metadata.deliver n (map (\<lambda>e. (nm_node_id e, e)) es) s"
  by (induction es arbitrary: s) (simp_all add: apply_incoming_def deliver_metadata_def)

lemma meta_inv_incoming: "meta_inv s \<Longrightarrow> meta_inv (apply_incoming es n s)"
  by (simp add: apply_incoming_deliver metadata.inv_deliver)

lemma meta_inv_new: "meta_inv (metadata_new lambda)"
  by (simp add: meta_inv_def metadata_new_def)

text \<open>A restarted node cannot correct its metadata. The local generation starts again at zero, so the first
  entry a restarted node publishes has generation one, and a peer that still holds any entry of the node with a
  positive generation keeps the old one, however often the new entry reaches it.\<close>

theorem restarted_metadata_is_ignored:
  assumes "meta_inv s" "meta_lookup s i = Some old" "0 < nm_generation old"
    "set es \<subseteq> pe_entry ` set (ms_pending (set_local i url name m (metadata_new lambda)))"
  shows "meta_lookup (apply_incoming es n s) = meta_lookup s"
proof -
  have es: "\<forall>e \<in> set es. nm_node_id e = i \<and> nm_generation e = 1"
    using assms(4) by (auto simp: set_local_def ms_put_def ms_enqueue_def metadata_new_def Let_def)
  have "1 \<le> nm_generation old" using assms(3) by (simp add: word_le_nat_alt word_less_nat_alt)
  then show ?thesis using es assms(1,2)
  proof (induction es arbitrary: s)
    case (Cons e es)
    have "ms_apply n e s = s" using Cons.prems by (auto simp: ms_apply_def meta_lookup_def split: option.split)
    then show ?case using Cons by (simp add: apply_incoming_def)
  qed (simp add: apply_incoming_def)
qed

theorem restarted_metadata_is_ignored_witness:
  "let peer = apply_incoming [\<lparr>nm_node_id = NodeId 4, nm_relay_url = Some ''old'', nm_node_name = None, nm_generation = 3\<rparr>] 2 (metadata_new 3) in
   relay_url (apply_incoming (map pe_entry (ms_pending (set_local (NodeId 4) (Some ''new'') None 2 (metadata_new 3)))) 2 peer) (NodeId 4) = Some ''old''"
proof -
  let ?old = "\<lparr>nm_node_id = NodeId 4, nm_relay_url = Some ''old'', nm_node_name = None, nm_generation = 3\<rparr>"
  let ?peer = "apply_incoming [?old] 2 (metadata_new 3)"
  have held: "meta_lookup ?peer (NodeId 4) = Some ?old" by (simp add: apply_incoming_def ms_apply_def meta_lookup_def metadata_new_def)
  have "meta_lookup (apply_incoming (map pe_entry (ms_pending (set_local (NodeId 4) (Some ''new'') None 2 (metadata_new 3)))) 2 ?peer) = meta_lookup ?peer"
    by (rule restarted_metadata_is_ignored [OF meta_inv_incoming [OF meta_inv_new] held, where m = 2 and lambda = 3]) auto
  then show ?thesis using held by (simp add: Let_def relay_url_def meta_lookup_def [symmetric])
qed

section \<open>The relay mirror\<close>

lemma mirror_fold:
  "map_of (fold (\<lambda>(i, _) m. case f i of Some url \<Rightarrow> hm_insert i url m | None \<Rightarrow> m) xs m) j =
   (if j \<in> fst ` set xs \<and> f j \<noteq> None then f j else map_of m j)"
proof (induction xs arbitrary: m)
  case (Cons x xs)
  then show ?case by (cases x) (auto simp: update_conv' split: option.split)
qed simp

lemma mirror_refreshed:
  assumes "meta_inv (ma_metadata A)"
  shows "map_of (ma_relay_mirror (refresh_relay_mirror A)) = relay_url (ma_metadata A)"
proof
  fix j
  have "relay_url (ma_metadata A) j = None" if "j \<notin> fst ` set (all_versions (ma_metadata A))"
  proof -
    have "map_of (ms_store (ma_metadata A)) j = None"
      using that assms by (force simp: all_versions_def meta_inv_def map_of_eq_None_iff)
    then show ?thesis by (simp add: relay_url_def)
  qed
  then show "map_of (ma_relay_mirror (refresh_relay_mirror A)) j = relay_url (ma_metadata A) j"
    by (auto simp: refresh_relay_mirror_def mirror_fold)
qed

definition metadata_run :: "(node_id \<Rightarrow> actor_address option) \<Rightarrow> metadata_in list \<Rightarrow> metadata_actor \<Rightarrow> metadata_actor" where
  "metadata_run resolve msgs A = fold (\<lambda>msg A. snd (metadata_handle resolve msg A)) msgs A"

definition mirror_inv :: "metadata_actor \<Rightarrow> bool" where
  "mirror_inv A \<longleftrightarrow> meta_inv (ma_metadata A) \<and> (\<forall>i. i \<noteq> ma_self_id A \<longrightarrow> map_of (ma_relay_mirror A) i = relay_url (ma_metadata A) i)"

lemma ms_re_disseminate_store: "ms_store (ms_re_disseminate_all n s) = ms_store s"
proof -
  have "ms_store (fold (\<lambda>(_, e). ms_enqueue e n) xs s) = ms_store s" for xs by (induction xs arbitrary: s) auto
  then show ?thesis by (simp add: ms_re_disseminate_all_def)
qed

lemma mirror_inv_cong:
  "mirror_inv A \<Longrightarrow> ms_store (ma_metadata A') = ms_store (ma_metadata A) \<Longrightarrow> ma_relay_mirror A' = ma_relay_mirror A \<Longrightarrow>
   ma_self_id A' = ma_self_id A \<Longrightarrow> mirror_inv A'"
  by (simp add: mirror_inv_def meta_inv_def relay_url_def)

lemma mirror_inv_refresh: "meta_inv (ma_metadata A) \<Longrightarrow> mirror_inv (refresh_relay_mirror A)"
  using mirror_refreshed [of A] by (simp add: mirror_inv_def) (simp add: refresh_relay_mirror_def)

lemma meta_inv_local: "meta_inv s \<Longrightarrow> meta_inv (set_local i url name n s)"
  unfolding set_local_def Let_def by (rule meta_inv_put) (simp add: meta_inv_def)

lemma mirror_inv_handle: "mirror_inv A \<Longrightarrow> mirror_inv (snd (metadata_handle resolve msg A))"
proof (cases msg)
  case (MMembership m)
  assume inv: "mirror_inv A"
  then have "meta_inv (ms_remove_node i (ma_metadata A))" for i
    by (auto simp: mirror_inv_def meta_inv_def ms_remove_node_def AList.delete_eq distinct_map_filter)
  then show ?thesis using inv MMembership
    by (auto simp: upd_metadata_def Let_def ms_re_disseminate_store bs_insert_def split: member_state.split
      intro!: mirror_inv_refresh intro: mirror_inv_cong)
next
  case (SetNodeName name)
  assume inv: "mirror_inv A"
  let ?A = "publish_local (A\<lparr>ma_self_name := Some name\<rparr>)"
  have "relay_url (ma_metadata ?A) i = relay_url (ma_metadata A) i" if "i \<noteq> ma_self_id A" for i
    using that by (simp add: publish_local_def upd_metadata_def set_local_def Let_def relay_url_def update_conv')
  moreover have "meta_inv (ma_metadata ?A)" using inv by (simp add: publish_local_def upd_metadata_def mirror_inv_def meta_inv_local)
  moreover have "ma_self_id ?A = ma_self_id A" "ma_relay_mirror ?A = ma_relay_mirror A" by (simp_all add: publish_local_def upd_metadata_def)
  ultimately show ?thesis using inv SetNodeName by (simp add: mirror_inv_def)
next
  case MTick
  assume "mirror_inv A"
  then show ?thesis using MTick
    by (auto simp: ma_disseminate_def Let_def split_beta ms_take_pending_def intro: mirror_inv_cong)
qed (auto simp: publish_local_def upd_metadata_def mirror_inv_def meta_inv_local meta_inv_incoming intro!: mirror_inv_refresh [unfolded mirror_inv_def])

lemma mirror_inv_run: "mirror_inv A \<Longrightarrow> mirror_inv (metadata_run resolve msgs A)"
  by (induction msgs arbitrary: A) (simp_all add: metadata_run_def mirror_inv_handle)

lemma metadata_self_handle: "ma_self_id (snd (metadata_handle resolve msg A)) = ma_self_id A"
  by (cases msg) (auto simp: upd_metadata_def publish_local_def refresh_relay_mirror_def ma_disseminate_def Let_def
    bs_insert_def split_beta split: member_state.split)

lemma metadata_self_run: "ma_self_id (metadata_run resolve msgs A) = ma_self_id A"
  by (induction msgs arbitrary: A) (simp_all add: metadata_run_def metadata_self_handle)

text \<open>The relay mirror is current. After any sequence of messages the mirror that the dial path reads gives,
  for every node other than this one, exactly the relay URL of the metadata table: no URL of a removed node is
  left in it and none that was gossiped is missing.\<close>

theorem relay_mirror_is_current:
  assumes "i \<noteq> self"
  shows "map_of (ma_relay_mirror (metadata_run resolve msgs (metadata_actor_new self lambda []))) i =
    relay_url (ma_metadata (metadata_run resolve msgs (metadata_actor_new self lambda []))) i"
proof -
  have "mirror_inv (metadata_actor_new self lambda [])"
    by (simp add: mirror_inv_def metadata_actor_new_def meta_inv_new) (simp add: relay_url_def metadata_new_def)
  then have "mirror_inv (metadata_run resolve msgs (metadata_actor_new self lambda []))" by (rule mirror_inv_run)
  with assms show ?thesis by (simp add: mirror_inv_def metadata_self_run) (simp add: metadata_actor_new_def)
qed

end
