(* ===== verification/Transport_Bridge.thy ===== *)
theory Transport_Bridge
  imports Prelude
begin

text \<open>
  Egress: the router from addresses to transports and the remote sink (\<open>crates/transport/src/transport.rs\<close>),
  and the transports, peer directory and route binder that the distribution layer installs on it
  (\<open>crates/distribution/src/transport_bridge.rs\<close>). What encodes a message, the codec registry, is an argument
  of the sink; the wakeup of the network driver is left out.
\<close>

section \<open>State\<close>

record wire_envelope =
  we_dest :: actor_address
  we_type_tag :: string
  we_payload :: "u8 list"

record out_frame =
  of_to :: node_id
  of_dest :: actor_address
  of_type_tag :: string
  of_payload :: "u8 list"

datatype transport = PeerTransport node_id | RouteViewTransport

type_synonym route_view = "(actor_address \<times> node_id) list"

record egress =
  eg_routes :: "(actor_address \<times> transport) list"
  eg_outbox :: "out_frame list"
  eg_peers_bound :: "node_id list"
  eg_actors_bound :: "actor_address list"

definition egress_new :: egress where
  "egress_new = \<lparr>eg_routes = [], eg_outbox = [], eg_peers_bound = [], eg_actors_bound = []\<rparr>"

section \<open>The router\<close>

definition add_route :: "actor_address \<Rightarrow> transport \<Rightarrow> egress \<Rightarrow> egress" where
  "add_route a t E = E\<lparr>eg_routes := hm_insert a t (eg_routes E)\<rparr>"

definition router_remove_route :: "actor_address \<Rightarrow> egress \<Rightarrow> egress" where
  "router_remove_route a E = E\<lparr>eg_routes := hm_remove a (eg_routes E)\<rparr>"

definition route_lookup :: "egress \<Rightarrow> actor_address \<Rightarrow> transport option" where
  "route_lookup E a = map_of (eg_routes E) a"

section \<open>Transports\<close>

definition outbox_push :: "out_frame \<Rightarrow> egress \<Rightarrow> egress" where
  "outbox_push f E = E\<lparr>eg_outbox := eg_outbox E @ [f]\<rparr>"

definition peer_transport_send :: "node_id \<Rightarrow> wire_envelope \<Rightarrow> egress \<Rightarrow> egress" where
  "peer_transport_send n e E =
     outbox_push \<lparr>of_to = n, of_dest = we_dest e, of_type_tag = we_type_tag e, of_payload = we_payload e\<rparr> E"

definition route_view_send :: "route_view \<Rightarrow> wire_envelope \<Rightarrow> egress \<Rightarrow> egress" where
  "route_view_send view e E =
     (case map_of view (we_dest e) of
        Some n \<Rightarrow> outbox_push \<lparr>of_to = n, of_dest = we_dest e, of_type_tag = we_type_tag e, of_payload = we_payload e\<rparr> E
      | None \<Rightarrow> E)"

fun transport_send :: "route_view \<Rightarrow> transport \<Rightarrow> wire_envelope \<Rightarrow> egress \<Rightarrow> egress" where
  "transport_send view (PeerTransport n) e E = peer_transport_send n e E"
| "transport_send view RouteViewTransport e E = route_view_send view e E"

datatype sink_error = AddressNotFound | EncodeFailed

definition sink_send :: "('m \<Rightarrow> (string \<times> u8 list) option) \<Rightarrow> route_view \<Rightarrow> actor_address \<Rightarrow> 'm \<Rightarrow> egress \<Rightarrow> sink_error + egress" where
  "sink_send encode view a msg E =
     (case route_lookup E a of
        None \<Rightarrow> Inl AddressNotFound
      | Some t \<Rightarrow>
          (case encode msg of
             None \<Rightarrow> Inl EncodeFailed
           | Some (tag, payload) \<Rightarrow> Inr (transport_send view t \<lparr>we_dest = a, we_type_tag = tag, we_payload = payload\<rparr> E)))"

section \<open>Peers and actors\<close>

fun peer_addr :: "node_id \<Rightarrow> actor_address" where
  "peer_addr (NodeId w) = ActorAddress w"

definition outbox_resolve :: "node_id \<Rightarrow> egress \<Rightarrow> actor_address option \<times> egress" where
  "outbox_resolve n E =
     (Some (peer_addr n),
      if n \<in> set (eg_peers_bound E) then E
      else add_route (peer_addr n) (PeerTransport n) (E\<lparr>eg_peers_bound := n # eg_peers_bound E\<rparr>))"

definition ensure_routable :: "actor_address \<Rightarrow> egress \<Rightarrow> egress" where
  "ensure_routable a E =
     (if a \<in> set (eg_actors_bound E) then E
      else add_route a RouteViewTransport (E\<lparr>eg_actors_bound := a # eg_actors_bound E\<rparr>))"

definition remove_route :: "actor_address \<Rightarrow> egress \<Rightarrow> egress" where
  "remove_route a E =
     (if a \<in> set (eg_actors_bound E) then router_remove_route a (E\<lparr>eg_actors_bound := removeAll a (eg_actors_bound E)\<rparr>)
      else E)"

section \<open>Facts\<close>

lemma peer_addr_inj [simp]: "peer_addr m = peer_addr n \<longleftrightarrow> m = n"
  by (cases m; cases n) simp

lemma ensure_routable_routes:
  "route_lookup (ensure_routable a E) b =
     (if b = a \<and> a \<notin> set (eg_actors_bound E) then Some RouteViewTransport else route_lookup E b)"
  by (auto simp: ensure_routable_def add_route_def route_lookup_def update_conv')

lemma remove_route_routes:
  "route_lookup (remove_route a E) b = (if b = a \<and> a \<in> set (eg_actors_bound E) then None else route_lookup E b)"
  by (auto simp: remove_route_def router_remove_route_def route_lookup_def delete_conv')

lemma bound_sets [simp]:
  "set (eg_actors_bound (ensure_routable a E)) = insert a (set (eg_actors_bound E))"
  "set (eg_actors_bound (remove_route a E)) = set (eg_actors_bound E) - {a}"
  by (auto simp: ensure_routable_def remove_route_def add_route_def router_remove_route_def)

text \<open>An actor route is in the router exactly while the binder holds the address.\<close>

definition egress_inv :: "egress \<Rightarrow> bool" where
  "egress_inv E \<longleftrightarrow> (\<forall>a. route_lookup E a = Some RouteViewTransport \<longleftrightarrow> a \<in> set (eg_actors_bound E))"

lemma egress_inv_ensure: "egress_inv E \<Longrightarrow> egress_inv (ensure_routable a E)"
  by (auto simp: egress_inv_def ensure_routable_routes)

lemma egress_inv_remove: "egress_inv E \<Longrightarrow> egress_inv (remove_route a E)"
  by (auto simp: egress_inv_def remove_route_routes)

lemma egress_inv_new: "egress_inv egress_new"
  by (simp add: egress_inv_def egress_new_def route_lookup_def)

end
