(* ===== verification/Actor_Directory.thy ===== *)
theory Actor_Directory
  imports Registry_Actor Transport_Bridge
begin

text \<open>
  The actor-to-host directory (\<open>directory_actor.rs\<close>, with \<open>DirectoryEntry\<close> of \<open>types.rs\<close> and
  \<open>verify_directory_entry\<close> of \<open>crypto.rs\<close>): signed claims merged by generation and host, gossip of fresh
  claims, and the route view and route bindings the egress uses. Serialisation and signature verification are
  parameters. The pinned routes, the peer directory and the liveness of the watchers are read at each message,
  so they are an argument of the handler; the effects are returned as a list.
\<close>

section \<open>Claims\<close>

record directory_payload =
  dp_actor_addr :: actor_address
  dp_node_id :: node_id
  dp_generation :: u64

record directory_entry =
  de_actor_addr :: actor_address
  de_node_id :: node_id
  de_generation :: u64
  de_signature :: "u8 list"

record crypto =
  to_json :: "directory_payload \<Rightarrow> u8 list option"
  verify :: "node_id \<Rightarrow> u8 list \<Rightarrow> u8 list \<Rightarrow> bool"

definition payload :: "directory_entry \<Rightarrow> directory_payload" where
  "payload e = \<lparr>dp_actor_addr = de_actor_addr e, dp_node_id = de_node_id e, dp_generation = de_generation e\<rparr>"

definition verify_directory_entry :: "crypto \<Rightarrow> directory_entry \<Rightarrow> bool" where
  "verify_directory_entry K e =
     (case to_json K (payload e) of None \<Rightarrow> False | Some bytes \<Rightarrow> verify K (de_node_id e) bytes (de_signature e))"

definition pd_register :: "crypto \<Rightarrow> directory_entry \<Rightarrow> peer_directory \<Rightarrow> bool \<times> peer_directory" where
  "pd_register K e m =
     (if \<not> verify_directory_entry K e then (False, m) else (True, pd_bind (de_node_id e) (de_actor_addr e) (de_generation e) m))"

section \<open>State and messages\<close>

definition FANOUT :: nat where "FANOUT = 3"

definition MAX_ROUNDS :: nat where "MAX_ROUNDS = 8"

definition BATCH :: nat where "BATCH = 16"

datatype directory_in =
    Register directory_entry
  | DGossip "directory_entry list"
  | DMembership membership_change
  | DResolve actor_address actor_address
  | Resync
  | DSyncTo node_id
  | WatchRoutes nat
  | DTick

datatype directory_out =
    DSend actor_address directory_in
  | Located actor_address actor_address "node_id option"
  | DWake nat
  | EnsureRoutable actor_address
  | RemoveRoute actor_address

record directory_env =
  dv_resolve :: "node_id \<Rightarrow> actor_address option"
  dv_live :: "nat \<Rightarrow> bool"
  dv_pinned :: route_view

record directory_actor =
  da_self_id :: node_id
  da_map :: "(actor_address \<times> directory_entry) list"
  da_alive :: "node_id list"
  da_hot :: "(actor_address \<times> nat) list"
  da_cursor :: u64
  da_route_view :: route_view
  da_bound_remote :: "actor_address list"
  da_watchers :: "nat list"

definition directory_new :: "node_id \<Rightarrow> directory_actor" where
  "directory_new self = \<lparr>da_self_id = self, da_map = [], da_alive = [], da_hot = [], da_cursor = 0, da_route_view = [],
     da_bound_remote = [], da_watchers = []\<rparr>"

definition location :: "directory_actor \<Rightarrow> actor_address \<Rightarrow> (node_id \<times> u64) option" where
  "location D a = map_option (\<lambda>c. (de_node_id c, de_generation c)) (map_of (da_map D) a)"

section \<open>Merging and dissemination\<close>

fun bit_length :: "nat \<Rightarrow> nat" where
  "bit_length n = (if n = 0 then 0 else Suc (bit_length (n div 2)))"

declare bit_length.simps [simp del]

definition budget :: "directory_actor \<Rightarrow> nat" where
  "budget D = min (max (FANOUT * bit_length ((length (da_alive D) + 1) mod 2 ^ 32)) FANOUT) (FANOUT * MAX_ROUNDS)"

definition merge_one :: "crypto \<Rightarrow> directory_entry \<Rightarrow> directory_actor \<Rightarrow> bool \<times> directory_actor" where
  "merge_one K c D =
     (if \<not> verify_directory_entry K c then (False, D)
      else
        let supersedes =
          (case map_of (da_map D) (de_actor_addr c) of
             None \<Rightarrow> True
           | Some cur \<Rightarrow> de_generation c > de_generation cur \<or>
               (de_generation c = de_generation cur \<and> de_node_id c > de_node_id cur)) in
        if supersedes
        then (True, D\<lparr>da_hot := hm_insert (de_actor_addr c) (budget D) (da_hot D), da_map := hm_insert (de_actor_addr c) c (da_map D)\<rparr>)
        else (False, D))"

fun merge_claims :: "crypto \<Rightarrow> directory_entry list \<Rightarrow> directory_actor \<Rightarrow> bool \<times> directory_actor" where
  "merge_claims K [] D = (False, D)"
| "merge_claims K (c # cs) D =
     (case merge_one K c D of (changed, D1) \<Rightarrow> case merge_claims K cs D1 of (changed', D2) \<Rightarrow> (changed \<or> changed', D2))"

definition rearm :: "directory_actor \<Rightarrow> directory_actor" where
  "rearm D = D\<lparr>da_hot := fold (\<lambda>a. hm_insert a (budget D)) (map fst (da_map D)) (da_hot D)\<rparr>"

definition spend_hot :: "actor_address \<Rightarrow> (actor_address \<times> nat) list \<Rightarrow> (actor_address \<times> nat) list" where
  "spend_hot a hot =
     (case map_of hot a of
        None \<Rightarrow> hot
      | Some left \<Rightarrow> if left - 1 = 0 then hm_remove a hot else hm_insert a (left - 1) hot)"

definition take_hot :: "nat \<Rightarrow> directory_actor \<Rightarrow> directory_entry list \<times> directory_actor" where
  "take_hot limit D =
     (let actors = take limit (map fst (da_hot D)) in
      (List.map_filter (map_of (da_map D)) actors, D\<lparr>da_hot := fold spend_hot actors (da_hot D)\<rparr>))"

definition da_disseminate :: "directory_env \<Rightarrow> directory_actor \<Rightarrow> directory_out list \<times> directory_actor" where
  "da_disseminate V D =
     (if da_alive D = [] \<or> da_hot D = [] then ([], D)
      else
        let peer = da_alive D ! (unat (da_cursor D) mod length (da_alive D));
            D1 = D\<lparr>da_cursor := da_cursor D + 1\<rparr> in
        case take_hot BATCH D1 of (claims, D2) \<Rightarrow>
          if claims = [] then ([], D2)
          else (case dv_resolve V peer of Some a \<Rightarrow> [DSend a (DGossip claims)] | None \<Rightarrow> [], D2))"

definition da_sync_to :: "directory_env \<Rightarrow> node_id \<Rightarrow> directory_actor \<Rightarrow> directory_out list" where
  "da_sync_to V peer D =
     (case dv_resolve V peer of
        None \<Rightarrow> []
      | Some a \<Rightarrow> map (\<lambda>b. DSend a (DGossip b)) (batches BATCH (map snd (da_map D))))"

section \<open>Publishing routes\<close>

text \<open>\<open>HashMap\<close> equality.\<close>

definition hm_eq :: "('k \<times> 'v) list \<Rightarrow> ('k \<times> 'v) list \<Rightarrow> bool" where
  "hm_eq m m' \<longleftrightarrow> length m = length m' \<and> list_all (\<lambda>(k, v). map_of m' k = Some v) m"

fun route_claims :: "directory_actor \<Rightarrow> (actor_address \<times> directory_entry) list \<Rightarrow> route_view \<times> actor_address list \<Rightarrow> route_view \<times> actor_address list" where
  "route_claims D [] (routes, remote) = (routes, remote)"
| "route_claims D ((a, c) # cs) (routes, remote) =
     route_claims D cs
       (if map_of routes a \<noteq> None then (routes, remote)
        else if de_node_id c = da_self_id D then (hm_insert a (de_node_id c) routes, remote)
        else if de_node_id c \<in> set (da_alive D) then (hm_insert a (de_node_id c) routes, List.insert a remote)
        else (routes, remote))"

definition republish :: "directory_env \<Rightarrow> bool \<Rightarrow> directory_actor \<Rightarrow> directory_out list \<times> directory_actor" where
  "republish V claims_changed D =
     (case route_claims D (da_map D) (dv_pinned V, map fst (filter (\<lambda>(_, n). n \<noteq> da_self_id D) (dv_pinned V))) of
        (routes, remote) \<Rightarrow>
          let changed = \<not> hm_eq (da_route_view D) routes;
              departed = filter (\<lambda>a. a \<notin> set remote) (da_bound_remote D);
              joined = filter (\<lambda>a. a \<notin> set (da_bound_remote D)) remote;
              D1 = D\<lparr>da_route_view := routes, da_bound_remote := remote\<rparr>;
              binds = map RemoveRoute departed @ map EnsureRoutable joined in
          if changed \<or> claims_changed
          then (binds @ map DWake (filter (dv_live V) (da_watchers D1)), D1\<lparr>da_watchers := filter (dv_live V) (da_watchers D1)\<rparr>)
          else (binds, D1))"

definition da_membership :: "directory_env \<Rightarrow> membership_change \<Rightarrow> directory_actor \<Rightarrow> directory_out list \<times> directory_actor" where
  "da_membership V m D =
     republish V False
       (case mc_state m of
          Alive \<Rightarrow>
            (if mc_node_id m \<noteq> da_self_id D
             then (case bs_insert (mc_node_id m) (da_alive D) of
                     (True, al) \<Rightarrow> rearm (D\<lparr>da_alive := al\<rparr>)
                   | (False, _) \<Rightarrow> D)
             else D)
        | Dead \<Rightarrow> D\<lparr>da_alive := bs_remove (mc_node_id m) (da_alive D)\<rparr>
        | Suspect \<Rightarrow> D)"

fun directory_handle :: "crypto \<Rightarrow> directory_env \<Rightarrow> directory_in \<Rightarrow> directory_actor \<Rightarrow> directory_out list \<times> directory_actor" where
  "directory_handle K V (Register c) D = (case merge_one K c D of (changed, D1) \<Rightarrow> republish V changed D1)"
| "directory_handle K V (DGossip cs) D = (case merge_claims K cs D of (changed, D1) \<Rightarrow> republish V changed D1)"
| "directory_handle K V (DMembership m) D = da_membership V m D"
| "directory_handle K V (DSyncTo peer) D = (da_sync_to V peer D, D)"
| "directory_handle K V (WatchRoutes w) D =
     (let D1 = D\<lparr>da_watchers := filter (dv_live V) (da_watchers D)\<rparr> in
      if dv_live V w then ([DWake w], D1\<lparr>da_watchers := da_watchers D1 @ [w]\<rparr>) else ([], D1))"
| "directory_handle K V Resync D = republish V False (rearm D)"
| "directory_handle K V DTick D = da_disseminate V D"
| "directory_handle K V (DResolve a reply) D = ([Located reply a (map_of (da_route_view D) a)], D)"

section \<open>What the directory knows\<close>

definition claim_rank :: "directory_entry \<Rightarrow> u64 \<times> node_id" where
  "claim_rank c = (de_generation c, de_node_id c)"

text \<open>The effect of one claim on the map, and the map as a last-writer-wins register.\<close>

definition put_claim :: "crypto \<Rightarrow> directory_entry \<Rightarrow> (actor_address \<times> directory_entry) list \<Rightarrow> (actor_address \<times> directory_entry) list" where
  "put_claim K c m =
     (if verify_directory_entry K c \<and> (case map_of m (de_actor_addr c) of None \<Rightarrow> True | Some cur \<Rightarrow> claim_rank cur < claim_rank c)
      then hm_insert (de_actor_addr c) c m else m)"

definition deliver_claim :: "crypto \<Rightarrow> (actor_address \<times> directory_entry) list \<Rightarrow> actor_address \<Rightarrow> directory_entry \<Rightarrow> (actor_address \<times> directory_entry) list" where
  "deliver_claim K m a c = (if de_actor_addr c = a then put_claim K c m else m)"

interpretation claims: lww_register map_of "deliver_claim K" claim_rank
  "\<lambda>_ a c. de_actor_addr c = a \<and> verify_directory_entry K c" "\<lambda>_. True" for K
  by unfold_locales (auto simp: deliver_claim_def put_claim_def update_conv' split: option.split)

lemma put_claims_deliver: "fold (put_claim K) cs m = claims.deliver K (map (\<lambda>c. (de_actor_addr c, c)) cs) m"
  by (induction cs arbitrary: m) (simp_all add: deliver_claim_def)

lemma merge_one_map: "da_map (snd (merge_one K c D)) = put_claim K c (da_map D)"
  by (auto simp: merge_one_def put_claim_def Let_def claim_rank_def split: option.split)

lemma merge_claims_map: "da_map (snd (merge_claims K cs D)) = fold (put_claim K) cs (da_map D)"
  by (induction cs arbitrary: D) (simp_all add: split_beta merge_one_map)

lemma republish_frame [simp]:
  "da_map (snd (republish V b D)) = da_map D" "da_alive (snd (republish V b D)) = da_alive D"
  "da_self_id (snd (republish V b D)) = da_self_id D"
  by (simp_all add: republish_def Let_def split_beta)

lemma rearm_frame [simp]:
  "da_map (rearm D) = da_map D" "da_alive (rearm D) = da_alive D" "da_self_id (rearm D) = da_self_id D" "da_bound_remote (rearm D) = da_bound_remote D"
  by (simp_all add: rearm_def)

fun claims_in :: "directory_in \<Rightarrow> directory_entry list" where
  "claims_in (Register c) = [c]"
| "claims_in (DGossip cs) = cs"
| "claims_in _ = []"

lemma handle_map: "da_map (snd (directory_handle K V msg D)) = fold (put_claim K) (claims_in msg) (da_map D)"
  by (cases msg) (auto simp: split_beta merge_one_map merge_claims_map da_membership_def da_disseminate_def take_hot_def Let_def bs_insert_def
    split: member_state.split)

fun directory_run :: "crypto \<Rightarrow> (directory_env \<times> directory_in) list \<Rightarrow> directory_actor \<Rightarrow> directory_out list \<times> directory_actor" where
  "directory_run K [] D = ([], D)"
| "directory_run K ((V, msg) # steps) D =
     (case directory_handle K V msg D of (outs, D1) \<Rightarrow> case directory_run K steps D1 of (outs', D2) \<Rightarrow> (outs @ outs', D2))"

definition claims_received :: "(directory_env \<times> directory_in) list \<Rightarrow> directory_entry list" where
  "claims_received steps = concat (map (claims_in \<circ> snd) steps)"

lemma run_map: "da_map (snd (directory_run K steps D)) = fold (put_claim K) (claims_received steps) (da_map D)"
proof (induction steps arbitrary: D)
  case (Cons s steps)
  then show ?case by (cases s) (simp add: split_beta handle_map claims_received_def)
qed (simp add: claims_received_def)

text \<open>C23. A directory locates every actor by its newest genuine claim. Whatever messages a directory handles, in
  whatever order and however often, it knows no host for an actor it received no verified claim for; otherwise the
  host and generation it gives are those of a verified claim it received, and no verified claim it received has a
  higher generation, or the same generation and a greater host. Directories that received the same claims
  therefore agree, and an unverified claim has no influence.\<close>

theorem newest_verified_claim_locates:
  assumes "D = snd (directory_run K steps (directory_new self))"
    and "cs = filter (\<lambda>c. verify_directory_entry K c \<and> de_actor_addr c = a) (claims_received steps)"
  shows "case location D a of
      None \<Rightarrow> cs = []
    | Some (n, g) \<Rightarrow> (\<exists>c \<in> set cs. de_node_id c = n \<and> de_generation c = g) \<and> (\<forall>c \<in> set cs. (de_generation c, de_node_id c) \<le> (g, n))"
proof -
  let ?ms = "map (\<lambda>c. (de_actor_addr c, c)) (claims_received steps)"
  have m: "da_map D = claims.deliver K ?ms []" by (simp add: assms(1) run_map put_claims_deliver directory_new_def)
  have cand: "claims.candidates K ?ms [] a = set cs" by (auto simp: claims.candidates_def assms(2))
  show ?thesis
  proof (cases "cs = []")
    case True
    then have "map_of (da_map D) a = None" using claims.deliver_maximal [OF TrueI, of K ?ms "[]" a] cand m by simp
    then show ?thesis using True by (simp add: location_def)
  next
    case False
    then obtain w where "w \<in> set cs" "map_of (da_map D) a = Some w" "\<forall>u \<in> set cs. claim_rank u \<le> claim_rank w"
      using claims.deliver_maximal [OF TrueI, of K ?ms "[]" a] cand m by auto
    then show ?thesis by (auto simp: location_def claim_rank_def)
  qed
qed

text \<open>A concrete signature scheme for the examples: the signature of a claim is its last payload byte.\<close>

definition toy_crypto :: crypto where
  "toy_crypto = \<lparr>to_json = \<lambda>p. Some [ucast (dp_generation p)], verify = \<lambda>_ bytes sig. sig = bytes\<rparr>"

definition toy_claim :: "actor_address \<Rightarrow> node_id \<Rightarrow> u64 \<Rightarrow> directory_entry" where
  "toy_claim a n g = \<lparr>de_actor_addr = a, de_node_id = n, de_generation = g, de_signature = [ucast g]\<rparr>"

definition quiet_directory :: directory_env where
  "quiet_directory = \<lparr>dv_resolve = \<lambda>_. None, dv_live = \<lambda>_. False, dv_pinned = []\<rparr>"

lemma toy_verifies: "verify_directory_entry toy_crypto (toy_claim a n g)"
  by (simp add: verify_directory_entry_def toy_crypto_def toy_claim_def payload_def)

theorem newest_verified_claim_locates_witness:
  "let steps = [(quiet_directory, DGossip [toy_claim (ActorAddress 9) (NodeId 2) 4, toy_claim (ActorAddress 9) (NodeId 3) 1])] in
   location (snd (directory_run toy_crypto steps (directory_new (NodeId 1)))) (ActorAddress 9) = Some (NodeId 2, 4)"
proof -
  let ?c = "toy_claim (ActorAddress 9) (NodeId 2) 4" and ?d = "toy_claim (ActorAddress 9) (NodeId 3) 1"
  let ?steps = "[(quiet_directory, DGossip [?c, ?d])]"
  let ?loc = "location (snd (directory_run toy_crypto ?steps (directory_new (NodeId 1)))) (ActorAddress 9)"
  have cs: "filter (\<lambda>c. verify_directory_entry toy_crypto c \<and> de_actor_addr c = ActorAddress 9) (claims_received ?steps) = [?c, ?d]"
    by (simp add: claims_received_def toy_verifies) (simp add: toy_claim_def)
  note newest = newest_verified_claim_locates [of _ toy_crypto ?steps "NodeId 1" _ "ActorAddress 9", OF refl refl, unfolded cs]
  have "?loc \<noteq> None" using newest by (auto split: option.splits)
  then obtain n g where loc: "?loc = Some (n, g)" by fastforce
  then have "(\<exists>c \<in> {?c, ?d}. de_node_id c = n \<and> de_generation c = g) \<and> (de_generation ?c, de_node_id ?c) \<le> (g, n)" using newest by simp
  then show ?thesis using loc by (auto simp: toy_claim_def word_le_nat_alt)
qed

section \<open>Where messages are routed\<close>

text \<open>The effects of the directory on the egress.\<close>

fun bind_route :: "directory_out \<Rightarrow> egress \<Rightarrow> egress" where
  "bind_route (EnsureRoutable a) E = ensure_routable a E"
| "bind_route (RemoveRoute a) E = remove_route a E"
| "bind_route _ E = E"

definition reachable_host :: "directory_env \<Rightarrow> directory_actor \<Rightarrow> actor_address \<Rightarrow> node_id option" where
  "reachable_host V D a =
     (case map_of (dv_pinned V) a of
        Some n \<Rightarrow> Some n
      | None \<Rightarrow>
          (case location D a of
             Some (n, _) \<Rightarrow> if n = da_self_id D \<or> n \<in> set (da_alive D) then Some n else None
           | None \<Rightarrow> None))"

fun republishes :: "directory_in \<Rightarrow> bool" where
  "republishes (Register _) = True"
| "republishes (DGossip _) = True"
| "republishes (DMembership _) = True"
| "republishes Resync = True"
| "republishes _ = False"

definition routed :: "directory_actor \<Rightarrow> directory_entry \<Rightarrow> node_id option" where
  "routed D c = (if de_node_id c = da_self_id D \<or> de_node_id c \<in> set (da_alive D) then Some (de_node_id c) else None)"

lemma route_claims_spec:
  assumes "distinct (map fst cs)" "route_claims D cs (routes, remote) = (routes', remote')"
  shows "map_of routes' a = (case map_of routes a of Some n \<Rightarrow> Some n | None \<Rightarrow> Option.bind (map_of cs a) (routed D)) \<and>
    (a \<in> set remote' \<longleftrightarrow> a \<in> set remote \<or> (map_of routes a = None \<and> (\<exists>n. Option.bind (map_of cs a) (routed D) = Some n \<and> n \<noteq> da_self_id D)))"
  using assms
proof (induction cs arbitrary: routes remote)
  case (Cons x cs)
  obtain b c where x: "x = (b, c)" by fastforce
  have fresh: "map_of cs b = None" "distinct (map fst cs)" using Cons.prems(1) by (auto simp: x map_of_eq_None_iff)
  consider (known) "map_of routes b \<noteq> None" | (self) "map_of routes b = None" "de_node_id c = da_self_id D"
    | (alive) "map_of routes b = None" "de_node_id c \<noteq> da_self_id D" "de_node_id c \<in> set (da_alive D)"
    | (dead) "map_of routes b = None" "de_node_id c \<noteq> da_self_id D" "de_node_id c \<notin> set (da_alive D)" by blast
  then show ?case
  proof cases
    case known
    then show ?thesis using Cons.IH [OF fresh(2), of routes remote] Cons.prems(2) fresh(1) by (cases "a = b"; cases "map_of routes a") (auto simp: x)
  next
    case self
    then show ?thesis using Cons.IH [OF fresh(2), of "hm_insert b (de_node_id c) routes" remote] Cons.prems(2) fresh(1)
      by (cases "a = b"; cases "map_of routes a") (auto simp: x update_conv' routed_def)
  next
    case alive
    then show ?thesis using Cons.IH [OF fresh(2), of "hm_insert b (de_node_id c) routes" "List.insert b remote"] Cons.prems(2) fresh(1)
      by (cases "a = b"; cases "map_of routes a") (auto simp: x update_conv' routed_def)
  next
    case dead
    then show ?thesis using Cons.IH [OF fresh(2), of routes remote] Cons.prems(2) fresh(1) by (cases "a = b"; cases "map_of routes a") (auto simp: x routed_def)
  qed
qed (auto split: option.split)

lemma bind_removes:
  "route_lookup (fold bind_route (map RemoveRoute as) E) a = (if a \<in> set as \<and> a \<in> set (eg_actors_bound E) then None else route_lookup E a) \<and>
   set (eg_actors_bound (fold bind_route (map RemoveRoute as) E)) = set (eg_actors_bound E) - set as"
  by (induction as arbitrary: E) (auto simp: remove_route_routes)

lemma bind_ensures:
  "route_lookup (fold bind_route (map EnsureRoutable as) E) a =
     (if a \<in> set as \<and> a \<notin> set (eg_actors_bound E) then Some RouteViewTransport else route_lookup E a) \<and>
   set (eg_actors_bound (fold bind_route (map EnsureRoutable as) E)) = set (eg_actors_bound E) \<union> set as"
  by (induction as arbitrary: E) (auto simp: ensure_routable_routes)

lemma bind_wakes: "fold bind_route (map DWake ws) E = E"
  by (induction ws) simp_all

lemma republish_binds:
  assumes "hm_inv (da_map D)" "hm_inv (dv_pinned V)" "set (eg_actors_bound E) = set (da_bound_remote D)"
    and rep: "republish V b D = (outs, D')"
  shows "map_of (da_route_view D') a = reachable_host V D a \<and>
    (a \<in> set (da_bound_remote D') \<longleftrightarrow> (\<exists>n. reachable_host V D a = Some n \<and> n \<noteq> da_self_id D)) \<and>
    set (eg_actors_bound (fold bind_route outs E)) = set (da_bound_remote D') \<and>
    route_lookup (fold bind_route outs E) a =
      (if a \<in> set (da_bound_remote D') - set (da_bound_remote D) then Some RouteViewTransport
       else if a \<in> set (da_bound_remote D) - set (da_bound_remote D') then None else route_lookup E a)"
proof -
  obtain routes remote where rc:
    "route_claims D (da_map D) (dv_pinned V, map fst (filter (\<lambda>(_, n). n \<noteq> da_self_id D) (dv_pinned V))) = (routes, remote)" by fastforce
  let ?dep = "filter (\<lambda>a. a \<notin> set remote) (da_bound_remote D)" and ?join = "filter (\<lambda>a. a \<notin> set (da_bound_remote D)) remote"
  obtain ws where o: "outs = map RemoveRoute ?dep @ map EnsureRoutable ?join @ map DWake ws" "da_route_view D' = routes" "da_bound_remote D' = remote"
    using rep by (auto simp: republish_def rc Let_def split: if_splits intro: that [of "[]"])
  have pin: "a \<in> set (map fst (filter (\<lambda>(_, n). n \<noteq> da_self_id D) (dv_pinned V))) \<longleftrightarrow> (\<exists>n. map_of (dv_pinned V) a = Some n \<and> n \<noteq> da_self_id D)"
    using assms(2) by (force simp: map_of_eq_Some_iff)
  have "map_of (da_map D) a = None \<Longrightarrow> location D a = None" "map_of (da_map D) a = Some c \<Longrightarrow> location D a = Some (de_node_id c, de_generation c)" for c
    by (simp_all add: location_def)
  then have host: "reachable_host V D a = (case map_of (dv_pinned V) a of Some n \<Rightarrow> Some n | None \<Rightarrow> Option.bind (map_of (da_map D) a) (routed D))"
    by (cases "map_of (da_map D) a") (auto simp: reachable_host_def routed_def split: option.split)
  note spec = route_claims_spec [OF assms(1) rc, of a]
  have "a \<in> set remote \<longleftrightarrow> (\<exists>n. reachable_host V D a = Some n \<and> n \<noteq> da_self_id D)"
    using spec pin host by (auto split: option.splits)
  then show ?thesis
    using spec host assms(3) bind_removes [of ?dep E] bind_ensures [of ?join "fold bind_route (map RemoveRoute ?dep) E"]
    by (auto simp: o bind_wakes)
qed

definition bound_inv :: "directory_actor \<Rightarrow> egress \<Rightarrow> bool" where
  "bound_inv D E \<longleftrightarrow> hm_inv (da_map D) \<and> egress_inv E \<and> set (eg_actors_bound E) = set (da_bound_remote D)"

lemma put_claims_inv: "hm_inv m \<Longrightarrow> hm_inv (fold (put_claim K) cs m)"
  by (induction cs arbitrary: m) (simp_all add: put_claim_def distinct_update)

lemma merge_one_frame [simp]:
  "da_bound_remote (snd (merge_one K c D)) = da_bound_remote D"
  "da_self_id (snd (merge_one K c D)) = da_self_id D" "da_alive (snd (merge_one K c D)) = da_alive D"
  by (simp_all add: merge_one_def Let_def)

lemma merge_claims_frame [simp]:
  "da_bound_remote (snd (merge_claims K cs D)) = da_bound_remote D"
  "da_self_id (snd (merge_claims K cs D)) = da_self_id D" "da_alive (snd (merge_claims K cs D)) = da_alive D"
  by (induction cs arbitrary: D) (simp_all add: split_beta)

text \<open>A message that republishes is a change of the state followed by \<open>republish\<close>.\<close>

lemma republishing_form:
  assumes "republishes msg"
  shows "\<exists>b D1. directory_handle K V msg D = republish V b D1 \<and> da_bound_remote D1 = da_bound_remote D \<and> da_self_id D1 = da_self_id D"
proof (cases msg)
  case (DMembership m)
  show ?thesis unfolding DMembership directory_handle.simps da_membership_def
    by (intro exI conjI, rule refl) (auto simp: bs_insert_def split: member_state.split)
qed (use assms in \<open>auto simp: split_beta intro!: exI conjI\<close>)

lemma quiet_form:
  assumes "\<not> republishes msg"
  shows "fold bind_route (fst (directory_handle K V msg D)) E = E \<and> da_bound_remote (snd (directory_handle K V msg D)) = da_bound_remote D \<and>
    da_self_id (snd (directory_handle K V msg D)) = da_self_id D"
proof -
  have sends: "fold bind_route (map (\<lambda>b. DSend a (DGossip b)) bs) E = E" for a bs by (induction bs) simp_all
  show ?thesis using assms
    by (cases msg) (auto simp: sends da_sync_to_def Let_def da_disseminate_def take_hot_def split: option.split)
qed

lemma bound_inv_handle:
  assumes "bound_inv D E" "hm_inv (dv_pinned V)" "directory_handle K V msg D = (outs, D')"
  shows "bound_inv D' (fold bind_route outs E) \<and> da_self_id D' = da_self_id D"
proof -
  have map: "hm_inv (da_map D')" using handle_map [of K V msg D] put_claims_inv assms(1,3) by (simp add: bound_inv_def)
  have inv: "egress_inv (fold bind_route os E)" for os
  proof -
    have "egress_inv E" using assms(1) by (simp add: bound_inv_def)
    then show ?thesis
    proof (induction os arbitrary: E)
      case (Cons x os)
      then show ?case by (cases x) (simp_all add: egress_inv_ensure egress_inv_remove)
    qed simp
  qed
  show ?thesis
  proof (cases "republishes msg")
    case True
    then obtain b D1 where r: "republish V b D1 = (outs, D')" "da_bound_remote D1 = da_bound_remote D" "da_self_id D1 = da_self_id D"
      using republishing_form [OF True, of K V D] assms(3) by auto
    have same: "da_map D' = da_map D1" "da_self_id D' = da_self_id D1" using republish_frame [of V b D1] by (simp_all add: r(1))
    have "set (eg_actors_bound (fold bind_route outs E)) = set (da_bound_remote D')"
      using republish_binds [of D1 V E b outs D'] r assms(1,2) map same by (simp add: bound_inv_def)
    then show ?thesis using map inv same r(3) by (simp add: bound_inv_def)
  next
    case False
    then show ?thesis using quiet_form [OF False, of K V D E] assms(1,3) map by (simp add: bound_inv_def)
  qed
qed

lemma bound_inv_run:
  "bound_inv D E \<Longrightarrow> \<forall>s \<in> set steps. hm_inv (dv_pinned (fst s)) \<Longrightarrow> directory_run K steps D = (outs, D') \<Longrightarrow>
   bound_inv D' (fold bind_route outs E) \<and> da_self_id D' = da_self_id D"
proof (induction steps arbitrary: D E outs)
  case (Cons s steps)
  obtain V msg o1 D1 o2 where parts: "s = (V, msg)" "directory_handle K V msg D = (o1, D1)" "directory_run K steps D1 = (o2, D')" "outs = o1 @ o2"
    using Cons.prems(3) by (cases s) (auto split: prod.splits)
  have "bound_inv D1 (fold bind_route o1 E) \<and> da_self_id D1 = da_self_id D"
    using bound_inv_handle [OF Cons.prems(1) _ parts(2)] Cons.prems(2) parts(1) by simp
  then show ?case using Cons.IH [of D1 "fold bind_route o1 E" o2] Cons.prems(2) parts by simp
qed simp

lemma bound_inv_new: "bound_inv (directory_new self) egress_new"
  by (simp add: bound_inv_def directory_new_def egress_inv_new) (simp add: egress_new_def)

text \<open>C24. Routes follow the claims of reachable hosts. After any history of messages and one that republishes (a
  registration, gossip, a membership change or a resync), the published view gives for every actor its pinned
  route, or else the host of its newest claim when that host is this node or an alive peer, and nothing when the
  host is dead or unknown; and the router, which received only the bindings the directory asked for, has a route
  for exactly the actors that the view places on other nodes.\<close>

theorem routes_follow_reachable_claims:
  assumes "\<forall>s \<in> set (steps @ [(V, msg)]). hm_inv (dv_pinned (fst s))" "republishes msg"
    and run: "directory_run K (steps @ [(V, msg)]) (directory_new self) = (outs, D)"
  shows "map_of (da_route_view D) a = reachable_host V D a \<and>
    (route_lookup (fold bind_route outs egress_new) a = Some RouteViewTransport \<longleftrightarrow> (\<exists>n. map_of (da_route_view D) a = Some n \<and> n \<noteq> self))"
proof -
  have append: "directory_run K (xs @ ys) D = (case directory_run K xs D of (o1, D1) \<Rightarrow> case directory_run K ys D1 of (o2, D2) \<Rightarrow> (o1 @ o2, D2))" for xs ys D
    by (induction xs arbitrary: D) (auto split: prod.splits)
  obtain o1 D1 o2 where parts: "directory_run K steps (directory_new self) = (o1, D1)" "directory_handle K V msg D1 = (o2, D)" "outs = o1 @ o2"
    using run by (auto simp: append split: prod.splits)
  have inv1: "bound_inv D1 (fold bind_route o1 egress_new)" "da_self_id D1 = self"
    using bound_inv_run [OF bound_inv_new _ parts(1)] assms(1) by (auto simp: directory_new_def)
  have pin: "hm_inv (dv_pinned V)" using assms(1) by simp
  have inv: "bound_inv D (fold bind_route outs egress_new)" "da_self_id D = self"
    using bound_inv_handle [OF inv1(1) pin parts(2)] inv1(2) parts(3) by simp_all
  obtain b D2 where r: "republish V b D2 = (o2, D)" "da_bound_remote D2 = da_bound_remote D1" "da_self_id D2 = self"
    using republishing_form [OF assms(2), of K V D1] parts(2) inv1(2) by auto
  have same: "da_map D = da_map D2" "da_alive D = da_alive D2" using republish_frame [of V b D2] by (simp_all add: r(1))
  have "location D2 a = location D a" using same by (simp add: location_def)
  then have host: "reachable_host V D2 a = reachable_host V D a" using same r(3) inv(2) by (simp add: reachable_host_def split: option.split)
  have "hm_inv (da_map D2)" using inv(1) same by (simp add: bound_inv_def)
  note R = republish_binds [OF this pin _ r(1), of "fold bind_route o1 egress_new" a]
  have "map_of (da_route_view D) a = reachable_host V D a" "a \<in> set (da_bound_remote D) \<longleftrightarrow> (\<exists>n. reachable_host V D a = Some n \<and> n \<noteq> self)"
    using R inv1(1) r(2,3) host by (simp_all add: bound_inv_def)
  then show ?thesis using inv(1) by (simp add: bound_inv_def egress_inv_def)
qed

theorem routes_follow_reachable_claims_witness:
  "let (outs, D) = directory_run toy_crypto
        [(quiet_directory, DMembership \<lparr>mc_node_id = NodeId 2, mc_state = Alive, mc_incarnation = 1\<rparr>),
         (quiet_directory, Register (toy_claim (ActorAddress 9) (NodeId 2) 4))] (directory_new (NodeId 1)) in
   map_of (da_route_view D) (ActorAddress 9) = Some (NodeId 2) \<and>
   route_lookup (fold bind_route outs egress_new) (ActorAddress 9) = Some RouteViewTransport"
proof -
  let ?join = "(quiet_directory, DMembership \<lparr>mc_node_id = NodeId 2, mc_state = Alive, mc_incarnation = 1\<rparr>)"
  let ?claim = "toy_claim (ActorAddress 9) (NodeId 2) 4"
  let ?reg = "Register ?claim"
  obtain outs D where run: "directory_run toy_crypto ([?join] @ [(quiet_directory, ?reg)]) (directory_new (NodeId 1)) = (outs, D)" by fastforce
  have D: "da_map D = [(ActorAddress 9, ?claim)]" "da_alive D = [NodeId 2]"
  proof -
    have claim: "de_actor_addr ?claim = ActorAddress 9" by (simp add: toy_claim_def)
    show "da_map D = [(ActorAddress 9, ?claim)]"
      using run_map [of toy_crypto "[?join] @ [(quiet_directory, ?reg)]" "directory_new (NodeId 1)", unfolded run snd_conv]
      by (simp add: claims_received_def put_claim_def toy_verifies claim directory_new_def)
    show "da_alive D = [NodeId 2]"
      using run by (auto simp: da_membership_def bs_insert_def directory_new_def split_beta dest!: arg_cong [where f = "\<lambda>x. da_alive (snd x)"])
  qed
  have "reachable_host quiet_directory D (ActorAddress 9) = Some (NodeId 2)"
    by (simp add: reachable_host_def quiet_directory_def location_def D toy_claim_def)
  moreover note routes_follow_reachable_claims [OF _ _ run, of "ActorAddress 9"]
  ultimately show ?thesis using run by (simp add: quiet_directory_def)
qed

section \<open>Claims on the addresses of peers\<close>

lemma bind_peers: "eg_peers_bound (fold bind_route outs E) = eg_peers_bound E"
proof (induction outs arbitrary: E)
  case (Cons x outs)
  then show ?case by (cases x) (simp_all add: ensure_routable_def remove_route_def add_route_def router_remove_route_def)
qed simp

text \<open>C25. A claim on a peer's synthetic address takes over the route to that peer. The address that gossip to a peer
  is sent to is the peer's node identifier, and nothing keeps a claim from naming it as an actor. Once a directory
  accepts a verified claim for the address of \<open>victim\<close> by another alive node, every message for \<open>victim\<close> is put in
  the outbox for the claimant; and when the claimant is declared dead, the route to \<open>victim\<close> is removed, and
  resolving \<open>victim\<close> again does not restore it.\<close>

theorem claim_takes_peer_route:
  assumes "hm_inv (da_map D)" "hm_inv (dv_pinned V)" "set (eg_actors_bound E) = set (da_bound_remote D)" "distinct (da_alive D)"
    and free: "peer_addr victim \<notin> set (da_bound_remote D)" "map_of (dv_pinned V) (peer_addr victim) = None" "map_of (da_map D) (peer_addr victim) = None"
    and claim: "verify_directory_entry K c" "de_actor_addr c = peer_addr victim" "de_node_id c \<in> set (da_alive D)" "de_node_id c \<noteq> da_self_id D"
    and step: "directory_handle K V (DGossip [c]) D = (outs, D1)" "E1 = fold bind_route outs (snd (outbox_resolve victim E))"
    and death: "directory_handle K V (DMembership \<lparr>mc_node_id = de_node_id c, mc_state = Dead, mc_incarnation = i\<rparr>) D1 = (outs', D2)"
      "E2 = fold bind_route outs' E1"
    and enc: "encode m = Some (tag, bytes)"
  shows "sink_send encode (da_route_view D1) (peer_addr victim) m E1 =
      Inr (outbox_push \<lparr>of_to = de_node_id c, of_dest = peer_addr victim, of_type_tag = tag, of_payload = bytes\<rparr> E1) \<and>
    route_lookup E2 (peer_addr victim) = None \<and> outbox_resolve victim E2 = (Some (peer_addr victim), E2)"
proof -
  let ?a = "peer_addr victim" and ?E = "snd (outbox_resolve victim E)"
  define M where "M = snd (merge_claims K [c] D)"
  have M: "da_map M = hm_insert ?a c (da_map D)" "da_alive M = da_alive D" "da_self_id M = da_self_id D" "da_bound_remote M = da_bound_remote D"
    using merge_claims_map [of K "[c]" D] claim free(3) unfolding M_def by (simp_all add: put_claim_def split_beta)
  have rep: "republish V (fst (merge_claims K [c] D)) M = (outs, D1)" using step(1) unfolding M_def by (simp add: split_beta)
  have bound: "set (eg_actors_bound ?E) = set (da_bound_remote M)" using assms(3) M(4) by (simp add: outbox_resolve_def add_route_def)
  have minv: "hm_inv (da_map M)" using assms(1) M(1) by (simp add: distinct_update)
  have host: "reachable_host V M ?a = Some (de_node_id c)" using claim(3) M free(2) by (simp add: reachable_host_def location_def update_conv')
  note R = republish_binds [OF minv assms(2) bound rep, of ?a, folded step(2)]
  have D1: "map_of (da_route_view D1) ?a = Some (de_node_id c)" "?a \<in> set (da_bound_remote D1)" "route_lookup E1 ?a = Some RouteViewTransport"
    "set (eg_actors_bound E1) = set (da_bound_remote D1)"
    using R host claim(4) free(1) M(3,4) by simp_all
  have frame: "da_map D1 = da_map M" "da_alive D1 = da_alive D" "da_self_id D1 = da_self_id D"
    using republish_frame [of V "fst (merge_claims K [c] D)" M, unfolded rep snd_conv] M by simp_all
  define N where "N = D1\<lparr>da_alive := bs_remove (de_node_id c) (da_alive D1)\<rparr>"
  have rep2: "republish V False N = (outs', D2)" using death(1) unfolding N_def by (simp add: da_membership_def)
  have N: "hm_inv (da_map N)" "set (eg_actors_bound E1) = set (da_bound_remote N)" using minv frame(1) D1(4) by (simp_all add: N_def)
  have "de_node_id c \<notin> set (da_alive N)" using assms(4) by (simp add: N_def bs_remove_def frame)
  then have gone: "reachable_host V N ?a = None" using free(2) claim(4) by (simp add: reachable_host_def location_def N_def frame M update_conv')
  note R2 = republish_binds [OF N(1) assms(2) N(2) rep2, of ?a, folded death(2)]
  have "route_lookup E2 ?a = None" using R2 gone D1(2) by (simp add: N_def)
  moreover have "victim \<in> set (eg_peers_bound E2)"
    by (simp add: death(2) step(2) bind_peers outbox_resolve_def add_route_def)
  ultimately show ?thesis using D1(1,3) enc by (simp add: sink_send_def route_view_send_def outbox_resolve_def)
qed

theorem claim_takes_peer_route_witness:
  "let D = (directory_new (NodeId 1))\<lparr>da_alive := [NodeId 2, NodeId 3]\<rparr>;
       c = toy_claim (peer_addr (NodeId 3)) (NodeId 2) 1;
       (outs, D1) = directory_handle toy_crypto quiet_directory (DGossip [c]) D;
       E1 = fold bind_route outs (snd (outbox_resolve (NodeId 3) egress_new));
       (outs', D2) = directory_handle toy_crypto quiet_directory (DMembership \<lparr>mc_node_id = NodeId 2, mc_state = Dead, mc_incarnation = 0\<rparr>) D1 in
   map_option (map of_to \<circ> eg_outbox) (case sink_send Some (da_route_view D1) (peer_addr (NodeId 3)) (''Ping'', []) E1 of Inr E \<Rightarrow> Some E | Inl _ \<Rightarrow> None)
     = Some (map of_to (eg_outbox E1) @ [NodeId 2]) \<and>
   route_lookup (fold bind_route outs' E1) (peer_addr (NodeId 3)) = None"
proof -
  let ?D = "(directory_new (NodeId 1))\<lparr>da_alive := [NodeId 2, NodeId 3]\<rparr>" and ?c = "toy_claim (peer_addr (NodeId 3)) (NodeId 2) 1"
  obtain outs D1 where s1: "directory_handle toy_crypto quiet_directory (DGossip [?c]) ?D = (outs, D1)" by fastforce
  obtain outs' D2 where s2: "directory_handle toy_crypto quiet_directory
      (DMembership \<lparr>mc_node_id = NodeId 2, mc_state = Dead, mc_incarnation = 0\<rparr>) D1 = (outs', D2)" by fastforce
  have c: "de_actor_addr ?c = peer_addr (NodeId 3)" "de_node_id ?c = NodeId 2" by (simp_all add: toy_claim_def)
  let ?E1 = "fold bind_route outs (snd (outbox_resolve (NodeId 3) egress_new))"
  have "sink_send Some (da_route_view D1) (peer_addr (NodeId 3)) (''Ping'', []) ?E1 =
      Inr (outbox_push \<lparr>of_to = NodeId 2, of_dest = peer_addr (NodeId 3), of_type_tag = ''Ping'', of_payload = []\<rparr> ?E1) \<and>
    route_lookup (fold bind_route outs' ?E1) (peer_addr (NodeId 3)) = None"
    using claim_takes_peer_route [of ?D quiet_directory egress_new "NodeId 3" toy_crypto ?c outs D1 ?E1 0 outs' D2 "fold bind_route outs' ?E1"
        Some "(''Ping'', [])" "''Ping''" "[]"] s1 s2 c toy_verifies [of "peer_addr (NodeId 3)" "NodeId 2" 1]
    by (simp del: directory_handle.simps add: directory_new_def quiet_directory_def egress_new_def)
  then show ?thesis by (simp only: Let_def s1 s2 prod.case sum.case option.map comp_apply) (simp add: outbox_push_def)
qed

end
