(* ===== verification/Node_Identity.thy ===== *)
theory Node_Identity
  imports Prelude
begin

unbundle bit_operations_syntax

text \<open>
  The text encodings of keys and node identifiers (\<open>crates/transport/src/identity.rs\<close>): hexadecimal and base58.
  A text is the list of its characters, a character its code point. The carries of the base58 loops are natural
  numbers; \<open>mul_add_carry\<close> shows that they stay far below the 32 bits the code gives them.
\<close>

section \<open>Hexadecimal\<close>

text \<open>\<open>None\<close> of the two encoding functions is the \<open>unreachable!\<close> of the source.\<close>

definition hex_digit :: "u8 \<Rightarrow> u8 option" where
  "hex_digit n = (if n \<le> 9 then Some (48 + n) else if n \<le> 15 then Some (97 + n - 10) else None)"

definition from_hex_digit :: "u8 \<Rightarrow> u8 option" where
  "from_hex_digit b =
     (if 48 \<le> b \<and> b \<le> 57 then Some (b - 48)
      else if 97 \<le> b \<and> b \<le> 102 then Some (b - 97 + 10)
      else if 65 \<le> b \<and> b \<le> 70 then Some (b - 65 + 10)
      else None)"

fun hex_encode :: "u8 list \<Rightarrow> u8 list option" where
  "hex_encode [] = Some []"
| "hex_encode (b # bs) =
     (case (hex_digit (drop_bit 4 b), hex_digit (b AND 15), hex_encode bs) of
        (Some hi, Some lo, Some s) \<Rightarrow> Some (hi # lo # s)
      | _ \<Rightarrow> None)"

fun hex_pairs :: "u8 list \<Rightarrow> u8 list option" where
  "hex_pairs (h # l # s) =
     (case from_hex_digit h of
        None \<Rightarrow> None
      | Some hi \<Rightarrow>
          (case from_hex_digit l of
             None \<Rightarrow> None
           | Some lo \<Rightarrow> map_option (\<lambda>bs. (push_bit 4 hi OR lo) # bs) (hex_pairs s)))"
| "hex_pairs _ = Some []"

definition hex_decode :: "u8 list \<Rightarrow> u8 list option" where
  "hex_decode hex = (if length hex mod 2 \<noteq> 0 then None else hex_pairs hex)"

section \<open>Base58\<close>

definition B58_ALPHABET :: "nat list" where
  "B58_ALPHABET = map of_char ''123456789ABCDEFGHJKLMNPQRSTUVWXYZabcdefghijkmnopqrstuvwxyz''"

fun flush :: "nat \<Rightarrow> nat \<Rightarrow> nat list" where
  "flush base carry = (if carry = 0 \<or> base \<le> 1 then [] else carry mod base # flush base (carry div base))"

declare flush.simps [simp del]

text \<open>One round of the loops over \<open>buf\<close>: multiply the number in it by \<open>m\<close>, add the carry and push what is left.\<close>

fun mul_add :: "nat \<Rightarrow> nat \<Rightarrow> nat list \<Rightarrow> nat \<Rightarrow> nat list" where
  "mul_add m base [] carry = flush base carry"
| "mul_add m base (digit # buf) carry =
     (carry + digit * m) mod base # mul_add m base buf ((carry + digit * m) div base)"

definition base58_encode :: "u8 list \<Rightarrow> nat list" where
  "base58_encode bytes =
     (let zeros = length (takeWhile (\<lambda>b. b = 0) bytes);
          buf = fold (\<lambda>b buf. mul_add 256 58 buf (unat b)) (drop zeros bytes) [] in
      replicate zeros (B58_ALPHABET ! 0) @ map (\<lambda>digit. B58_ALPHABET ! digit) (rev buf))"

fun position :: "('a \<Rightarrow> bool) \<Rightarrow> 'a list \<Rightarrow> nat option" where
  "position P [] = None"
| "position P (x # xs) = (if P x then Some 0 else map_option Suc (position P xs))"

fun decode_chars :: "nat list \<Rightarrow> nat list \<Rightarrow> nat list option" where
  "decode_chars [] buf = Some buf"
| "decode_chars (c # cs) buf =
     (case position (\<lambda>a. a = c mod 256) B58_ALPHABET of
        None \<Rightarrow> None
      | Some v \<Rightarrow> decode_chars cs (mul_add 58 256 buf v))"

definition base58_decode :: "nat list \<Rightarrow> u8 list option" where
  "base58_decode input =
     (let zeros = length (takeWhile (\<lambda>c. c = B58_ALPHABET ! 0) input) in
      case decode_chars (dropWhile (\<lambda>c. c = B58_ALPHABET ! 0) input) [] of
        None \<Rightarrow> None
      | Some buf \<Rightarrow>
          let out = replicate zeros 0 @ map of_nat (rev buf) in
          if length out \<noteq> 32 then None else Some out)"

section \<open>Numbers in a base\<close>

definition num :: "nat \<Rightarrow> nat list \<Rightarrow> nat" where
  "num base ds = foldr (\<lambda>d n. d + base * n) ds 0"

definition canonical :: "nat \<Rightarrow> nat list \<Rightarrow> bool" where
  "canonical base ds \<longleftrightarrow> (\<forall>d \<in> set ds. d < base) \<and> (ds \<noteq> [] \<longrightarrow> last ds \<noteq> 0)"

lemma num_simps [simp]: "num base [] = 0" "num base (d # ds) = d + base * num base ds"
  by (simp_all add: num_def)

lemma canonical_Cons: "canonical base (d # ds) \<longleftrightarrow> d < base \<and> canonical base ds \<and> (ds = [] \<longrightarrow> d \<noteq> 0)"
  by (auto simp: canonical_def)

lemma canonical_Nil [simp]: "canonical base []"
  by (simp add: canonical_def)

lemma canonical_pos: "canonical base ds \<Longrightarrow> 0 < base \<Longrightarrow> num base ds = 0 \<longleftrightarrow> ds = []"
  by (induction ds) (auto simp: canonical_Cons)

lemma canonical_unique: "canonical base ds \<Longrightarrow> canonical base es \<Longrightarrow> 0 < base \<Longrightarrow> num base ds = num base es \<Longrightarrow> ds = es"
proof (induction ds arbitrary: es)
  case Nil
  then show ?case using canonical_pos [of base es] by simp
next
  case (Cons d ds)
  show ?case
  proof (cases es)
    case Nil
    then show ?thesis using Cons.prems canonical_pos [of base "d # ds"] by simp
  next
    case es: (Cons e es')
    have lt: "d < base" "e < base" and eq: "d + base * num base ds = e + base * num base es'"
      using Cons.prems by (simp_all add: es canonical_Cons)
    have "d = e" using arg_cong [OF eq, of "\<lambda>x. x mod base"] lt by simp
    moreover have "num base ds = num base es'" using eq calculation Cons.prems(3) by simp
    ultimately show ?thesis using Cons by (simp add: es canonical_Cons)
  qed
qed

lemma flush_num: "1 < base \<Longrightarrow> num base (flush base c) = c"
  by (induction base c rule: flush.induct) (subst flush.simps, simp)

lemma flush_canonical: "1 < base \<Longrightarrow> canonical base (flush base c)"
proof (induction base c rule: flush.induct)
  case (1 base c)
  have "c mod base \<noteq> 0" if "0 < c" "flush base (c div base) = []"
    using that flush_num [OF 1(2), of "c div base"] 1(2) by (auto simp: div_eq_0_iff)
  then show ?case using 1 by (subst flush.simps) (auto simp: canonical_Cons)
qed

lemma mul_add_num: "1 < base \<Longrightarrow> num base (mul_add m base buf c) = m * num base buf + c"
proof (induction buf arbitrary: c)
  case (Cons d buf)
  have "(c + d * m) mod base + base * ((c + d * m) div base) = c + d * m" by simp
  then show ?case using Cons by (simp add: algebra_simps)
qed (simp add: flush_num)

lemma mul_add_canonical: "1 < base \<Longrightarrow> 0 < m \<Longrightarrow> canonical base buf \<Longrightarrow> canonical base (mul_add m base buf c)"
proof (induction buf arbitrary: c)
  case (Cons d buf)
  let ?t = "c + d * m"
  have "?t mod base \<noteq> 0" if "mul_add m base buf (?t div base) = []"
  proof -
    have "m * num base buf + ?t div base = 0" using mul_add_num [OF Cons.prems(1), of m buf "?t div base"] that by simp
    then have "buf = []" "?t < base" using Cons.prems canonical_pos [of base buf] by (auto simp: canonical_Cons div_eq_0_iff)
    then show ?thesis using Cons.prems by (simp add: canonical_Cons)
  qed
  then show ?case using Cons by (simp add: canonical_Cons)
qed (simp add: flush_canonical)

text \<open>The carry of a round never exceeds the larger of the multiplier and the added digit, so its 32 bits suffice.\<close>

lemma mul_add_carry:
  fixes c d m base :: nat
  assumes "d < base" "c \<le> m" "0 < m" "m \<le> 256" "base \<le> 256"
  shows "c + d * m < 2 ^ 32 \<and> (c + d * m) div base \<le> m"
proof
  have "d * m \<le> 256 * 256" using assms by (intro mult_mono) auto
  then show "c + d * m < 2 ^ 32" using assms by simp
  have "c + d * m \<le> m + d * m" using assms(2) by simp
  also have "\<dots> = Suc d * m" by simp
  also have "\<dots> \<le> base * m" using assms(1) by (intro mult_right_mono) auto
  finally have "(c + d * m) div base \<le> (base * m) div base" by (rule div_le_mono)
  then show "(c + d * m) div base \<le> m" using assms(1) by simp
qed

section \<open>Round trips\<close>

lemma hex_digit_inverse:
  assumes "n \<le> 15"
  shows "\<exists>d. hex_digit n = Some d \<and> from_hex_digit d = Some n"
proof -
  have all: "list_all (\<lambda>k. case hex_digit (of_nat k) of Some d \<Rightarrow> from_hex_digit d = Some (of_nat k) | None \<Rightarrow> False) [0..<16]"
    by code_simp
  have "unat n \<in> set [0..<16]" using assms by (simp add: word_le_nat_alt)
  from bspec [OF all [unfolded list_all_iff] this]
  have "case hex_digit n of Some d \<Rightarrow> from_hex_digit d = Some n | None \<Rightarrow> False" by (simp only: of_nat_unat ucast_id)
  then show ?thesis by (simp split: option.splits)
qed

lemma nibbles: "push_bit 4 (drop_bit 4 b) OR (b AND 15) = b" "drop_bit 4 b \<le> 15" "b AND 15 \<le> 15" for b :: u8
proof -
  have m: "(15 :: u8) = mask 4" by (simp add: mask_eq_exp_minus_1)
  show "push_bit 4 (drop_bit 4 b) OR (b AND 15) = b"
    unfolding m by (rule bit_word_eqI) (auto simp: bit_simps)
  show "b AND 15 \<le> 15" by (rule word_and_le1)
  have "unat b < 256" using unsigned_less [of b] by simp
  then show "drop_bit 4 b \<le> 15" by (simp add: word_le_nat_alt drop_bit_eq_div unat_div_distrib)
qed

lemma hex_pairs_encode: "\<exists>s. hex_encode bs = Some s \<and> hex_pairs s = Some bs \<and> length s = 2 * length bs"
proof (induction bs)
  case (Cons b bs)
  from Cons.IH obtain s where "hex_encode bs = Some s" "hex_pairs s = Some bs" "length s = 2 * length bs" by blast
  moreover obtain h l where "hex_digit (drop_bit 4 b) = Some h" "from_hex_digit h = Some (drop_bit 4 b)"
    "hex_digit (b AND 15) = Some l" "from_hex_digit l = Some (b AND 15)"
    using hex_digit_inverse nibbles(2,3) [of b] by meson
  ultimately show ?case by (simp add: nibbles(1))
qed simp

lemma alphabet: "length B58_ALPHABET = 58" "distinct B58_ALPHABET" "\<forall>c \<in> set B58_ALPHABET. c < 256" "B58_ALPHABET ! 0 = 49"
  unfolding B58_ALPHABET_def by code_simp+

lemma position_nth: "distinct xs \<Longrightarrow> i < length xs \<Longrightarrow> position (\<lambda>a. a = xs ! i) xs = Some i"
proof (induction xs arbitrary: i)
  case (Cons x xs)
  then show ?case by (cases i) auto
qed simp

lemma position_digit: "d < 58 \<Longrightarrow> position (\<lambda>a. a = (B58_ALPHABET ! d) mod 256) B58_ALPHABET = Some d"
  using position_nth [OF alphabet(2), of d] alphabet(1,3) by simp

lemma decode_digits:
  "\<forall>d \<in> set ds. d < 58 \<Longrightarrow> decode_chars (map (\<lambda>d. B58_ALPHABET ! d) ds) buf = Some (fold (\<lambda>v buf. mul_add 58 256 buf v) ds buf)"
  by (induction ds arbitrary: buf) (simp_all add: position_digit)

lemma num_append: "num base (xs @ ys) = num base xs + base ^ length xs * num base ys"
  by (induction xs) (simp_all add: algebra_simps)

lemma fold_mul_add:
  "1 < base \<Longrightarrow> 0 < m \<Longrightarrow> canonical base buf \<Longrightarrow>
   canonical base (fold (\<lambda>v buf. mul_add m base buf v) ds buf) \<and>
   num base (fold (\<lambda>v buf. mul_add m base buf v) ds buf) = num m (rev ds) + m ^ length ds * num base buf"
  by (induction ds arbitrary: buf) (simp_all add: mul_add_canonical mul_add_num num_append algebra_simps)

text \<open>Converting a number from base \<open>b\<close> to base \<open>b'\<close> and back gives the digits it started from.\<close>

lemma rebase:
  assumes "1 < b" "1 < b'" "canonical b (rev ds)"
  shows "fold (\<lambda>v buf. mul_add b' b buf v) (rev (fold (\<lambda>v buf. mul_add b b' buf v) ds [])) [] = rev ds"
proof -
  let ?buf = "fold (\<lambda>v buf. mul_add b b' buf v) ds []"
  have there: "num b' ?buf = num b (rev ds)" using fold_mul_add [of b' b "[]" ds] assms by simp
  have again: "canonical b (fold (\<lambda>v buf. mul_add b' b buf v) (rev ?buf) [])"
    "num b (fold (\<lambda>v buf. mul_add b' b buf v) (rev ?buf) []) = num b' ?buf"
    using fold_mul_add [of b b' "[]" "rev ?buf"] assms by simp_all
  show ?thesis by (rule canonical_unique [OF again(1) assms(3)]) (use assms there again(2) in simp_all)
qed

lemma stripped_canonical:
  "canonical 256 (rev (map unat (dropWhile (\<lambda>b. b = 0) bytes)))" for bytes :: "u8 list"
proof -
  let ?ds = "dropWhile (\<lambda>b. b = 0) bytes"
  have "unat b < 256" for b :: u8 using unsigned_less [of b] by simp
  moreover have "unat (hd ?ds) \<noteq> 0" if "?ds \<noteq> []" using hd_dropWhile [OF that] by (simp add: unat_eq_zero)
  ultimately show ?thesis by (auto simp: canonical_def last_rev hd_map)
qed

lemma first_digit:
  assumes "canonical 58 buf"
  shows "map (\<lambda>d. B58_ALPHABET ! d) (rev buf) \<noteq> [] \<longrightarrow> hd (map (\<lambda>d. B58_ALPHABET ! d) (rev buf)) \<noteq> B58_ALPHABET ! 0"
  using assms alphabet(1,2) by (auto simp: canonical_def nth_eq_iff_index_eq hd_map hd_rev)

lemma leading_run:
  "ys \<noteq> [] \<longrightarrow> hd ys \<noteq> a \<Longrightarrow> takeWhile (\<lambda>c. c = a) (replicate n a @ ys) = replicate n a \<and> dropWhile (\<lambda>c. c = a) (replicate n a @ ys) = ys"
  by (cases ys) (induction n; simp)+

lemma base58_round_trip:
  assumes "length bytes = 32"
  shows "base58_decode (base58_encode bytes) = Some bytes"
proof -
  let ?z = "length (takeWhile (\<lambda>b. b = 0) bytes)" and ?ds = "dropWhile (\<lambda>b. b = 0) bytes"
  let ?buf = "fold (\<lambda>v buf. mul_add 256 58 buf v) (map unat ?ds) []"
  let ?digits = "map (\<lambda>d. B58_ALPHABET ! d) (rev ?buf)"
  have enc: "base58_encode bytes = replicate ?z (B58_ALPHABET ! 0) @ ?digits"
    by (simp add: base58_encode_def Let_def dropWhile_eq_drop [symmetric] fold_map comp_def)
  have can: "canonical 58 ?buf" using fold_mul_add [of 58 256 "[]" "map unat ?ds"] by simp
  have hd: "?digits \<noteq> [] \<longrightarrow> hd ?digits \<noteq> B58_ALPHABET ! 0"
    by (rule first_digit [OF can])
  have split: "takeWhile (\<lambda>c. c = B58_ALPHABET ! 0) (base58_encode bytes) = replicate ?z (B58_ALPHABET ! 0)"
    "dropWhile (\<lambda>c. c = B58_ALPHABET ! 0) (base58_encode bytes) = ?digits"
    unfolding enc using leading_run [OF hd] by blast+
  have dec: "decode_chars ?digits [] = Some (rev (map unat ?ds))"
  proof -
    have "\<forall>d \<in> set (rev ?buf). d < 58" using can by (simp only: canonical_def set_rev) blast
    from decode_digits [OF this, of "[]"] show ?thesis
      by (simp only: rebase [of 256 58 "map unat ?ds", OF _ _ stripped_canonical [of bytes]] one_less_numeral_iff semiring_norm)
  qed
  have zeros: "replicate ?z 0 = takeWhile (\<lambda>b. b = 0) bytes" by (rule replicate_eqI [symmetric]) (auto dest: set_takeWhileD)
  have "replicate ?z 0 @ map of_nat (rev (rev (map unat ?ds))) = bytes" by (simp add: zeros comp_def)
  moreover have "length (replicate ?z 0 @ map of_nat (rev (rev (map unat ?ds))) :: u8 list) = 32" using calculation assms by (simp only:)
  ultimately show ?thesis by (simp only: base58_decode_def Let_def split dec length_replicate option.case not_not if_True if_False simp_thms)
qed

text \<open>C39. Identities survive their text forms. Encoding bytes in hexadecimal always succeeds, gives two characters
  per byte and decodes to the same bytes; the base58 form of a 32-byte node identifier decodes to that identifier,
  leading zero bytes included.\<close>

theorem identity_text_round_trip:
  "(\<exists>s. hex_encode bytes = Some s \<and> length s = 2 * length bytes \<and> hex_decode s = Some bytes) \<and>
   (length bytes = 32 \<longrightarrow> base58_decode (base58_encode bytes) = Some bytes)"
proof
  show "\<exists>s. hex_encode bytes = Some s \<and> length s = 2 * length bytes \<and> hex_decode s = Some bytes"
    using hex_pairs_encode [of bytes] by (fastforce simp: hex_decode_def)
qed (simp add: base58_round_trip)

theorem identity_text_round_trip_witness:
  "length (0 # replicate 31 (7 :: u8)) = 32 \<and> base58_decode (base58_encode (0 # replicate 31 7)) = Some (0 # replicate 31 7)"
  using identity_text_round_trip [of "0 # replicate 31 7"] by simp

lemma decode_chars_append:
  "decode_chars (xs @ ys) buf = (case decode_chars xs buf of None \<Rightarrow> None | Some buf' \<Rightarrow> decode_chars ys buf')"
  by (induction xs arbitrary: buf) (auto split: option.split)

text \<open>The base58 decoder reads only the low byte of a character. After the first character other than \<open>1\<close>,
  replacing a character by one whose code point differs by a multiple of 256, so by a character outside the
  alphabet, changes nothing: many texts that are not base58 decode to the node identifier of one that is.\<close>

theorem base58_reads_low_bytes:
  assumes "\<exists>x \<in> set xs. x \<noteq> B58_ALPHABET ! 0"
  shows "base58_decode (xs @ (c + 256 * k) # ys) = base58_decode (xs @ c # ys)"
proof -
  have "takeWhile (\<lambda>c. c = B58_ALPHABET ! 0) (xs @ zs) = takeWhile (\<lambda>c. c = B58_ALPHABET ! 0) xs"
    "dropWhile (\<lambda>c. c = B58_ALPHABET ! 0) (xs @ zs) = dropWhile (\<lambda>c. c = B58_ALPHABET ! 0) xs @ zs" for zs
    using assms by (auto simp: takeWhile_append1 dropWhile_append1)
  moreover have "decode_chars (zs @ (c + 256 * k) # ys) [] = decode_chars (zs @ c # ys) []" for zs
    by (simp add: decode_chars_append split: option.split)
  ultimately show ?thesis by (simp only: base58_decode_def)
qed

theorem base58_reads_low_bytes_witness:
  "base58_decode (replicate 31 49 @ [53, 81 + 256]) = Some (replicate 31 0 @ [255])"
proof -
  have digits: "B58_ALPHABET ! 4 = 53" "B58_ALPHABET ! 23 = 81" by (simp_all add: B58_ALPHABET_def)
  have "base58_encode (replicate 31 0 @ [255]) = replicate 31 49 @ [53, 81]"
    using digits by (simp add: base58_encode_def Let_def takeWhile_append alphabet(4) flush.simps)
  then have "base58_decode (replicate 31 49 @ [53, 81]) = Some (replicate 31 0 @ [255])"
    using base58_round_trip [of "replicate 31 0 @ [255]"] by simp
  then show ?thesis using base58_reads_low_bytes [of "replicate 31 49 @ [53]" 81 1 "[]"] by (simp add: alphabet(4))
qed

end
