(* ===== verification/Arena.thy ===== *)
theory Arena
  imports Prelude
begin

text \<open>
  The ring allocator of the data plane (\<open>crates/data-plane/src/arena.rs\<close>): first fit over a list of free
  ranges, a queue of requests that did not fit, release with coalescing. Offsets and sizes are 64-bit words
  with the checked arithmetic of the code. Of the memory mapping behind the arena only the checks made before
  creating it and whether the operating system granted it are modelled.
\<close>

section \<open>State and messages\<close>

record arena_config =
  ac_node_id :: u64
  reservation_ceiling :: u64
  base_alignment :: u64

record ring_spec =
  header_bytes :: u64
  rs_data_bytes :: u64
  rs_alignment :: u64

record lease_ring =
  lr_request_id :: u64
  lr_ring_spec :: ring_spec

record ring_layout =
  start_offset :: u64
  header_offset :: u64
  data_offset :: u64
  end_offset :: u64
  rl_data_bytes :: u64
  rl_alignment :: u64

record ring_lease =
  rle_request_id :: u64
  ring_id :: u64
  rle_node_id :: u64
  layout :: ring_layout
  requested_alignment :: u64

datatype arena_request =
    LeaseRing lease_ring
  | CancelLease u64
  | ReleaseRing u64 bool
  | Shutdown

datatype arena_fault = InvalidReservationCeiling | InvalidBaseAlignment | BackingUnavailable

datatype ring_lease_rejection = CannotFitWithinCeiling | ArenaShuttingDown

datatype ring_release_rejection = MissingQuiescenceProof | UnknownRingId

datatype arena_event =
    RingLeased ring_lease
  | RingLeaseQueued u64
  | RingLeaseRejected u64 ring_lease_rejection
  | RingReleased u64 u64 u64
  | RingReleaseRejected u64 ring_release_rejection
  | CancelledFreshLeaseReleased u64

datatype arena_state = Ready | ShuttingDown

record free_range =
  fr_start :: u64
  fr_end :: u64

record queued_lease =
  ql_request :: lease_ring
  cancelled :: bool

record arena_manager =
  config :: arena_config
  state :: arena_state
  next_ring_id :: u64
  free_ranges :: "free_range list"
  pending_leases :: "queued_lease list"
  live_order :: "ring_lease list"
  live_index :: "(u64 \<times> nat) list"
  allocation_failures_total :: u64
  release_failures_total :: u64

definition boot :: "bool \<Rightarrow> arena_config \<Rightarrow> arena_fault + arena_manager" where
  "boot granted c =
     (if reservation_ceiling c = 0 then Inl InvalidReservationCeiling
      else if base_alignment c = 0 then Inl InvalidBaseAlignment
      else if \<not> granted then Inl BackingUnavailable
      else Inr \<lparr>config = c, state = Ready, next_ring_id = 1,
        free_ranges = [\<lparr>fr_start = 0, fr_end = reservation_ceiling c\<rparr>], pending_leases = [], live_order = [], live_index = [],
        allocation_failures_total = 0, release_failures_total = 0\<rparr>)"

section \<open>Layout\<close>

function gcd64 :: "u64 \<Rightarrow> u64 \<Rightarrow> u64" where
  "gcd64 left right = (if right = 0 then left else gcd64 right (left mod right))"
  by auto
termination
  by (relation "measure (\<lambda>(_, r). unat r)") (auto simp: unat_mod_distrib unat_gt_0 intro!: mod_less_divisor)

declare gcd64.simps [simp del]

definition lcm64 :: "u64 \<Rightarrow> u64 \<Rightarrow> u64 option" where
  "lcm64 left right = (if left = 0 \<or> right = 0 then None else checked_mul (left div gcd64 left right) right)"

definition align_up :: "u64 \<Rightarrow> u64 \<Rightarrow> u64 option" where
  "align_up value alignment =
     (if alignment = 0 then None
      else let remainder = value mod alignment in
        if remainder = 0 then Some value else checked_add value (alignment - remainder))"

definition request_layout_at :: "arena_config \<Rightarrow> ring_spec \<Rightarrow> u64 \<Rightarrow> ring_layout option" where
  "request_layout_at c spec range_start =
     Option.bind (lcm64 (base_alignment c) (rs_alignment spec)) (\<lambda>alignment.
     Option.bind (align_up range_start alignment) (\<lambda>start.
     Option.bind (checked_add start (header_bytes spec)) (\<lambda>after_header.
     Option.bind (align_up after_header alignment) (\<lambda>data.
     Option.bind (checked_add data (rs_data_bytes spec)) (\<lambda>end.
       if end > reservation_ceiling c then None
       else Some \<lparr>start_offset = start, header_offset = start, data_offset = data, end_offset = end,
              rl_data_bytes = rs_data_bytes spec, rl_alignment = alignment\<rparr>)))))"

section \<open>Allocation\<close>

fun carve :: "arena_config \<Rightarrow> ring_spec \<Rightarrow> free_range list \<Rightarrow> (ring_layout \<times> free_range list) option" where
  "carve c spec [] = None"
| "carve c spec (r # rs) =
     (case request_layout_at c spec (fr_start r) of
        Some l \<Rightarrow>
          if end_offset l > fr_end r then map_option (\<lambda>(l, rs'). (l, r # rs')) (carve c spec rs)
          else Some (l, (if fr_start r < start_offset l then [\<lparr>fr_start = fr_start r, fr_end = start_offset l\<rparr>] else []) @
                 (if end_offset l < fr_end r then [\<lparr>fr_start = end_offset l, fr_end = fr_end r\<rparr>] else []) @ rs)
      | None \<Rightarrow> map_option (\<lambda>(l, rs'). (l, r # rs')) (carve c spec rs))"

definition try_allocate :: "lease_ring \<Rightarrow> arena_manager \<Rightarrow> ring_lease option \<times> arena_manager" where
  "try_allocate req A =
     (case carve (config A) (lr_ring_spec req) (free_ranges A) of
        None \<Rightarrow> (None, A)
      | Some (l, rs) \<Rightarrow>
          let A1 = A\<lparr>free_ranges := rs\<rparr> in
          (case checked_add (next_ring_id A1) 1 of
             None \<Rightarrow> (None, A1)
           | Some next \<Rightarrow>
               let lease = \<lparr>rle_request_id = lr_request_id req, ring_id = next_ring_id A1, rle_node_id = ac_node_id (config A1),
                     layout = l, requested_alignment = rs_alignment (lr_ring_spec req)\<rparr> in
               (Some lease, A1\<lparr>next_ring_id := next, live_index := bt_insert (ring_id lease) (length (live_order A1)) (live_index A1),
                  live_order := live_order A1 @ [lease]\<rparr>)))"

definition allocation_failed :: "arena_manager \<Rightarrow> arena_manager" where
  "allocation_failed A = A\<lparr>allocation_failures_total := saturating_add (allocation_failures_total A) 1\<rparr>"

definition release_failed :: "arena_manager \<Rightarrow> arena_manager" where
  "release_failed A = A\<lparr>release_failures_total := saturating_add (release_failures_total A) 1\<rparr>"

definition enqueue_lease :: "lease_ring \<Rightarrow> arena_manager \<Rightarrow> arena_event list \<times> arena_manager" where
  "enqueue_lease req A =
     ([RingLeaseQueued (lr_request_id req)], A\<lparr>pending_leases := pending_leases A @ [\<lparr>ql_request = req, cancelled = False\<rparr>]\<rparr>)"

definition arena_lease_ring :: "lease_ring \<Rightarrow> arena_manager \<Rightarrow> arena_event list \<times> arena_manager" where
  "arena_lease_ring req A =
     (if state A = ShuttingDown then ([RingLeaseRejected (lr_request_id req) ArenaShuttingDown], allocation_failed A)
      else if request_layout_at (config A) (lr_ring_spec req) 0 = None
      then ([RingLeaseRejected (lr_request_id req) CannotFitWithinCeiling], allocation_failed A)
      else if pending_leases A = [] then
        (case try_allocate req A of
           (Some lease, A1) \<Rightarrow> ([RingLeased lease], A1)
         | (None, A1) \<Rightarrow> enqueue_lease req A1)
      else enqueue_lease req A)"

definition cancel_lease :: "u64 \<Rightarrow> arena_manager \<Rightarrow> arena_manager" where
  "cancel_lease request A =
     A\<lparr>pending_leases := map (\<lambda>q. if lr_request_id (ql_request q) = request then q\<lparr>cancelled := True\<rparr> else q) (pending_leases A)\<rparr>"

section \<open>Release\<close>

text \<open>The loop over the sorted ranges; the accumulator holds the coalesced ranges, last one first.\<close>

fun coalesce :: "free_range list \<Rightarrow> free_range list \<Rightarrow> free_range list" where
  "coalesce acc [] = rev acc"
| "coalesce acc (r # rs) =
     (if fr_start r = fr_end r then coalesce acc rs
      else case acc of
        l # front \<Rightarrow>
          if fr_start r \<le> fr_end l then coalesce (l\<lparr>fr_end := max (fr_end l) (fr_end r)\<rparr> # front) rs
          else coalesce (r # acc) rs
      | [] \<Rightarrow> coalesce [r] rs)"

definition insert_free_range :: "free_range \<Rightarrow> arena_manager \<Rightarrow> arena_manager" where
  "insert_free_range r A = A\<lparr>free_ranges := coalesce [] (sort_key fr_start (free_ranges A @ [r]))\<rparr>"

definition rebuild_live_index :: "arena_manager \<Rightarrow> arena_manager" where
  "rebuild_live_index A =
     A\<lparr>live_index := fold (\<lambda>(i, lease). bt_insert (ring_id lease) i) (enumerate 0 (live_order A)) []\<rparr>"

fun retry_each :: "queued_lease list \<Rightarrow> arena_manager \<Rightarrow> arena_event list \<times> arena_manager" where
  "retry_each [] A = ([], A\<lparr>pending_leases := []\<rparr>)"
| "retry_each (p # ps) A =
     (if cancelled p then
        (case retry_each ps A of (evs, A1) \<Rightarrow> (CancelledFreshLeaseReleased (lr_request_id (ql_request p)) # evs, A1))
      else case try_allocate (ql_request p) A of
        (Some lease, A1) \<Rightarrow> (case retry_each ps A1 of (evs, A2) \<Rightarrow> (RingLeased lease # evs, A2))
      | (None, A1) \<Rightarrow> ([], A1\<lparr>pending_leases := p # ps\<rparr>))"

definition retry_pending_leases :: "arena_manager \<Rightarrow> arena_event list \<times> arena_manager" where
  "retry_pending_leases A = retry_each (pending_leases A) A"

definition release_ring :: "u64 \<Rightarrow> bool \<Rightarrow> arena_manager \<Rightarrow> arena_event list \<times> arena_manager" where
  "release_ring i verified A =
     (case map_of (live_index A) i of
        None \<Rightarrow> ([RingReleaseRejected i UnknownRingId], release_failed A)
      | Some index \<Rightarrow>
          if \<not> verified then ([RingReleaseRejected i MissingQuiescenceProof], release_failed A)
          else
            let lease = live_order A ! index;
                A1 = rebuild_live_index (A\<lparr>live_order := take index (live_order A) @ drop (Suc index) (live_order A)\<rparr>);
                A2 = insert_free_range \<lparr>fr_start = start_offset (layout lease), fr_end = end_offset (layout lease)\<rparr> A1;
                ev = RingReleased i (start_offset (layout lease)) (end_offset (layout lease)) in
            if state A2 = Ready then (case retry_pending_leases A2 of (evs, A3) \<Rightarrow> (ev # evs, A3)) else ([ev], A2))"

definition shutdown :: "arena_manager \<Rightarrow> arena_event list \<times> arena_manager" where
  "shutdown A =
     (map (\<lambda>p. if cancelled p then CancelledFreshLeaseReleased (lr_request_id (ql_request p))
                else RingLeaseRejected (lr_request_id (ql_request p)) ArenaShuttingDown) (pending_leases A),
      A\<lparr>state := ShuttingDown, pending_leases := []\<rparr>)"

fun request :: "arena_request \<Rightarrow> arena_manager \<Rightarrow> arena_event list \<times> arena_manager" where
  "request (LeaseRing req) A = arena_lease_ring req A"
| "request (CancelLease i) A = ([], cancel_lease i A)"
| "request (ReleaseRing i verified) A = release_ring i verified A"
| "request Shutdown A = shutdown A"

section \<open>Queries\<close>

definition lookup_lease :: "arena_manager \<Rightarrow> u64 \<Rightarrow> ring_lease option" where
  "lookup_lease A i =
     (case map_of (live_index A) i of
        None \<Rightarrow> None
      | Some index \<Rightarrow> if index < length (live_order A) then Some (live_order A ! index) else None)"

definition free_bytes :: "arena_manager \<Rightarrow> u64" where
  "free_bytes A = sum_list (map (\<lambda>r. saturating_sub (fr_end r) (fr_start r)) (free_ranges A))"

definition live_bytes :: "arena_manager \<Rightarrow> u64" where
  "live_bytes A = saturating_sub (reservation_ceiling (config A)) (free_bytes A)"

definition region_in_bounds :: "u64 \<Rightarrow> u64 \<Rightarrow> u64 \<Rightarrow> bool" where
  "region_in_bounds backing_len offset len =
     (case checked_add offset len of None \<Rightarrow> False | Some end \<Rightarrow> \<not> end > backing_len)"

section \<open>Arithmetic\<close>

lemma gcd64_gcd: "unat (gcd64 a b) = gcd (unat a) (unat b)"
proof (induction a b rule: gcd64.induct)
  case (1 a b)
  then show ?case by (subst gcd64.simps) (auto simp: unat_mod_distrib gcd_red_nat [of "unat a" "unat b"] unat_eq_zero)
qed

text \<open>The alignment of a ring is the least common multiple, refused exactly when it does not fit 64 bits.\<close>

lemma lcm64_lcm:
  assumes "a \<noteq> 0" "b \<noteq> 0"
  shows "lcm64 a b = (if lcm (unat a) (unat b) < 2 ^ 64 then Some (of_nat (lcm (unat a) (unat b))) else None)"
proof -
  have g: "unat (a div gcd64 a b) = unat a div gcd (unat a) (unat b)" by (simp add: unat_div_distrib gcd64_gcd)
  have l: "unat a div gcd (unat a) (unat b) * unat b = lcm (unat a) (unat b)"
    by (simp add: lcm_nat_def dvd_div_mult)
  have "of_nat (unat (a div gcd64 a b) * unat b) = (a div gcd64 a b) * b" by simp
  then show ?thesis using assms by (simp add: lcm64_def checked_mul_def g l)
qed

lemma lcm64_dvd:
  assumes "lcm64 a b = Some m"
  shows "m \<noteq> 0 \<and> unat a dvd unat m \<and> unat b dvd unat m"
proof -
  have nz: "a \<noteq> 0" "b \<noteq> 0" using assms by (auto simp: lcm64_def split: if_splits)
  then have "lcm (unat a) (unat b) < 2 ^ 64" "m = of_nat (lcm (unat a) (unat b))"
    using assms by (auto simp: lcm64_lcm split: if_splits)
  then have "unat m = lcm (unat a) (unat b)" by (simp add: unsigned_of_nat take_bit_eq_mod)
  then show ?thesis using nz by (auto simp: unat_eq_zero [symmetric] lcm_eq_0_iff)
qed

lemma checked_add_le: "checked_add a b = Some c \<Longrightarrow> a \<le> c"
  by (auto dest: unat_checked_add simp: word_le_nat_alt)

lemma align_up_spec:
  assumes "align_up v a = Some w"
  shows "v \<le> w \<and> unat a dvd unat w"
proof (cases "v mod a = 0")
  case True
  then show ?thesis using assms unat_mod_distrib [of v a] by (auto simp: align_up_def Let_def dvd_eq_mod_eq_0 split: if_splits)
next
  case False
  have a: "a \<noteq> 0" "checked_add v (a - v mod a) = Some w" using assms False by (auto simp: align_up_def Let_def split: if_splits)
  have le: "v mod a \<le> a" using a(1) by (simp add: word_le_nat_alt unat_mod_distrib unat_gt_0 less_imp_le)
  have "unat w = unat v + (unat a - unat v mod unat a)"
    using unat_checked_add [OF a(2)] le by (simp add: unat_sub unat_mod_distrib)
  moreover have "unat v mod unat a < unat a" using a(1) by (simp add: unat_eq_zero [symmetric])
  ultimately have "unat w = unat a * (unat v div unat a + 1)"
    using mult_div_mod_eq [of "unat a" "unat v"] by (simp only: distrib_left mult_1_right)
  then show ?thesis using checked_add_le [OF a(2)] by simp
qed

lemma layout_spec:
  assumes "request_layout_at c spec s = Some l"
  shows "s \<le> start_offset l \<and> header_offset l = start_offset l \<and> start_offset l \<le> data_offset l \<and> data_offset l \<le> end_offset l \<and>
    end_offset l \<le> reservation_ceiling c \<and>
    unat (start_offset l) + unat (header_bytes spec) \<le> unat (data_offset l) \<and>
    unat (end_offset l) = unat (data_offset l) + unat (rs_data_bytes spec) \<and>
    unat (base_alignment c) dvd unat (start_offset l) \<and> unat (rs_alignment spec) dvd unat (start_offset l) \<and>
    unat (base_alignment c) dvd unat (data_offset l) \<and> unat (rs_alignment spec) dvd unat (data_offset l)"
proof -
  from assms obtain m after where parts: "lcm64 (base_alignment c) (rs_alignment spec) = Some m"
    "align_up s m = Some (start_offset l)" "checked_add (start_offset l) (header_bytes spec) = Some after"
    "align_up after m = Some (data_offset l)" "checked_add (data_offset l) (rs_data_bytes spec) = Some (end_offset l)"
    "end_offset l \<le> reservation_ceiling c" "header_offset l = start_offset l"
    by (auto simp: request_layout_at_def bind_eq_Some_conv split: if_splits)
  note al = align_up_spec [OF parts(2)] align_up_spec [OF parts(4)] lcm64_dvd [OF parts(1)]
  have "unat after \<le> unat (data_offset l)" using al(2) by (simp add: word_le_nat_alt)
  then show ?thesis
    using al parts(6,7) unat_checked_add [OF parts(3)] unat_checked_add [OF parts(5)]
      checked_add_le [OF parts(3)] checked_add_le [OF parts(5)]
    by (auto intro: dvd_trans order_trans)
qed

section \<open>Free ranges as sets of offsets\<close>

definition range_set :: "free_range \<Rightarrow> u64 set" where
  "range_set r = {fr_start r..<fr_end r}"

definition cover :: "free_range list \<Rightarrow> u64 set" where
  "cover rs = (\<Union>r \<in> set rs. range_set r)"

definition lay_set :: "ring_layout \<Rightarrow> u64 set" where
  "lay_set l = {start_offset l..<end_offset l}"

definition live_set :: "ring_lease list \<Rightarrow> u64 set" where
  "live_set ls = (\<Union>l \<in> set ls. lay_set (layout l))"

definition free_inv :: "u64 \<Rightarrow> free_range list \<Rightarrow> bool" where
  "free_inv size_c rs \<longleftrightarrow> sorted_wrt (\<lambda>r s. fr_end r \<le> fr_start s) rs \<and> (\<forall>r \<in> set rs. fr_start r < fr_end r \<and> fr_end r \<le> size_c)"

lemma cover_simps [simp]: "cover [] = {}" "cover (r # rs) = range_set r \<union> cover rs" "cover (rs @ ss) = cover rs \<union> cover ss"
  by (auto simp: cover_def)

lemma live_set_simps [simp]:
  "live_set [] = {}" "live_set (l # ls) = lay_set (layout l) \<union> live_set ls" "live_set (ls @ ms) = live_set ls \<union> live_set ms"
  by (auto simp: live_set_def)

lemma free_inv_Cons:
  "free_inv size_c (r # rs) \<longleftrightarrow> fr_start r < fr_end r \<and> fr_end r \<le> size_c \<and> (\<forall>s \<in> set rs. fr_end r \<le> fr_start s) \<and> free_inv size_c rs"
  by (auto simp: free_inv_def)

lemma cover_above: "\<forall>s \<in> set rs. x \<le> fr_start s \<Longrightarrow> y < x \<Longrightarrow> y \<notin> cover rs"
  by (auto simp: cover_def range_set_def)

text \<open>Carving a ring out of the free ranges: the ring and what is left are a partition of what was free.\<close>

lemma carve_partition:
  assumes "free_inv size_c rs" "carve c spec rs = Some (l, rs')"
  shows "free_inv size_c rs' \<and> lay_set l \<inter> cover rs' = {} \<and> lay_set l \<union> cover rs' = cover rs \<and>
    (\<forall>r' \<in> set rs'. \<exists>r \<in> set rs. fr_start r \<le> fr_start r') \<and> (\<exists>s. request_layout_at c spec s = Some l)"
  using assms
proof (induction rs arbitrary: rs')
  case (Cons r rs)
  show ?case
  proof (cases "\<exists>m. request_layout_at c spec (fr_start r) = Some m \<and> end_offset m \<le> fr_end r")
    case True
    then have lay: "request_layout_at c spec (fr_start r) = Some l" and fits: "end_offset l \<le> fr_end r"
      and rs': "rs' = (if fr_start r < start_offset l then [\<lparr>fr_start = fr_start r, fr_end = start_offset l\<rparr>] else []) @
        (if end_offset l < fr_end r then [\<lparr>fr_start = end_offset l, fr_end = fr_end r\<rparr>] else []) @ rs"
      using Cons.prems(2) by (auto split: if_splits)
    have ord: "fr_start r \<le> start_offset l" "start_offset l \<le> end_offset l" using layout_spec [OF lay] by auto
    have up: "\<forall>s \<in> set rs. fr_end r \<le> fr_start s" "free_inv size_c rs" "fr_start r < fr_end r" "fr_end r \<le> size_c"
      using Cons.prems(1) by (auto simp: free_inv_Cons)
    have disj: "lay_set l \<inter> cover rs = {}" using fits cover_above [OF up(1)] by (auto simp: lay_set_def)
    have "free_inv size_c rs'" unfolding rs' using up ord fits by (auto simp: free_inv_Cons)
    moreover have "lay_set l \<inter> cover rs' = {}" unfolding rs' using disj by (auto simp: lay_set_def range_set_def)
    moreover have "lay_set l \<union> cover rs' = cover (r # rs)" unfolding rs' using ord fits by (auto simp: lay_set_def range_set_def)
    moreover have "\<forall>r' \<in> set rs'. \<exists>q \<in> set (r # rs). fr_start q \<le> fr_start r'" unfolding rs' using ord by (auto intro: order_trans)
    ultimately show ?thesis using lay by blast
  next
    case False
    then obtain ss where ss: "carve c spec rs = Some (l, ss)" "rs' = r # ss"
      using Cons.prems(2) by (auto split: option.splits if_splits)
    have inv: "free_inv size_c rs" and up: "\<forall>s \<in> set rs. fr_end r \<le> fr_start s" using Cons.prems(1) by (auto simp: free_inv_Cons)
    note IH = Cons.IH [OF inv ss(1)]
    have "\<forall>s \<in> set ss. fr_end r \<le> fr_start s" using IH up by (meson order_trans)
    moreover have "range_set r \<inter> cover rs = {}" using cover_above [OF up] by (auto simp: range_set_def)
    ultimately show ?thesis using IH Cons.prems(1) unfolding ss(2) by (auto simp: free_inv_Cons)
  qed
qed simp

text \<open>Coalescing sorted ranges keeps the offsets they cover and leaves no two that touch.\<close>

definition apart :: "free_range list \<Rightarrow> bool" where
  "apart rs \<longleftrightarrow> sorted_wrt (\<lambda>r s. fr_end r < fr_start s) rs \<and> (\<forall>r \<in> set rs. fr_start r < fr_end r)"

lemma merged_range: "a \<le> b \<Longrightarrow> b \<le> c \<Longrightarrow> {a..<max c d} = {a..<c} \<union> {b..<d}" for a b c d :: "'a::linorder"
  by (auto simp: less_max_iff_disj not_le intro: order.strict_trans2 order_trans)

lemma coalesce_spec:
  assumes "sorted_wrt (\<lambda>r s. fr_end s < fr_start r) acc" "\<forall>a \<in> set acc. fr_start a < fr_end a \<and> fr_end a \<le> size_c"
    "sorted (map fr_start rs)" "\<forall>r \<in> set rs. fr_start r \<le> fr_end r \<and> fr_end r \<le> size_c"
    "\<forall>a \<in> set acc. \<forall>r \<in> set rs. fr_start a \<le> fr_start r"
  shows "apart (coalesce acc rs) \<and> cover (coalesce acc rs) = cover acc \<union> cover rs \<and> (\<forall>r \<in> set (coalesce acc rs). fr_end r \<le> size_c)"
  using assms
proof (induction acc rs rule: coalesce.induct)
  case (1 acc)
  then show ?case by (auto simp: apart_def sorted_wrt_rev cover_def)
next
  case (2 acc r rs)
  consider (empty) "fr_start r = fr_end r" | (first) "fr_start r \<noteq> fr_end r" "acc = []"
    | (merge) l front where "fr_start r \<noteq> fr_end r" "acc = l # front" "fr_start r \<le> fr_end l"
    | (push) l front where "fr_start r \<noteq> fr_end r" "acc = l # front" "\<not> fr_start r \<le> fr_end l"
    by (cases acc) auto
  then show ?case
  proof cases
    case empty
    then show ?thesis using 2 by (simp add: range_set_def)
  next
    case first
    then show ?thesis using 2(2-) by (simp add: order_less_le)
  next
    case merge
    have "range_set (l\<lparr>fr_end := max (fr_end l) (fr_end r)\<rparr>) = range_set l \<union> range_set r"
      using 2(9) merge merged_range [of "fr_start l" "fr_start r" "fr_end l" "fr_end r"] by (simp add: range_set_def)
    moreover have "apart (coalesce (l\<lparr>fr_end := max (fr_end l) (fr_end r)\<rparr> # front) rs) \<and>
        cover (coalesce (l\<lparr>fr_end := max (fr_end l) (fr_end r)\<rparr> # front) rs) = cover (l\<lparr>fr_end := max (fr_end l) (fr_end r)\<rparr> # front) \<union> cover rs \<and>
        (\<forall>r \<in> set (coalesce (l\<lparr>fr_end := max (fr_end l) (fr_end r)\<rparr> # front) rs). fr_end r \<le> size_c)"
      by (rule 2(3) [OF merge]) (use 2(5-) merge in \<open>auto simp: less_max_iff_disj\<close>)
    ultimately show ?thesis using merge by auto
  next
    case push
    have "apart (coalesce (r # acc) rs) \<and> cover (coalesce (r # acc) rs) = cover (r # acc) \<union> cover rs \<and> (\<forall>r \<in> set (coalesce (r # acc) rs). fr_end r \<le> size_c)"
      unfolding push(2) by (rule 2(4) [OF push, unfolded push(2)]) (use 2(5-) push in \<open>auto simp: order_less_le dest: order.strict_trans\<close>)
    then show ?thesis using push by auto
  qed
qed

lemma apart_free_inv: "apart rs \<Longrightarrow> \<forall>r \<in> set rs. fr_end r \<le> size_c \<Longrightarrow> free_inv size_c rs"
  unfolding apart_def free_inv_def by (auto elim: sorted_wrt_mono_rel [rotated])

lemma apart_whole:
  assumes "apart rs" "cover rs = {0..<size_c}" "0 < size_c"
  shows "rs = [\<lparr>fr_start = 0, fr_end = size_c\<rparr>]"
proof (cases rs)
  case Nil
  then show ?thesis using assms by auto
next
  case (Cons r rs')
  have r: "fr_start r < fr_end r" "\<forall>s \<in> set rs'. fr_end r < fr_start s \<and> fr_start s < fr_end s" using assms(1) by (auto simp: apart_def Cons)
  have "rs' = []"
  proof (rule ccontr)
    assume "rs' \<noteq> []"
    then obtain s where s: "s \<in> set rs'" by (meson list.set_sel(1))
    have "fr_start s \<in> cover rs" using s r(2) by (auto simp: Cons cover_def range_set_def)
    then have "fr_end r \<in> {0..<size_c}" using r(2) s assms(2) by auto
    then have "fr_end r \<in> cover rs" using assms(2) by simp
    moreover have "fr_end r \<notin> range_set r" by (simp add: range_set_def)
    ultimately have "fr_end r \<in> cover rs'" by (simp add: Cons)
    then show False using r(2) by (auto simp: cover_def range_set_def)
  qed
  then have "{fr_start r..<fr_end r} = {0..<size_c}" using assms(2) by (simp add: Cons range_set_def)
  then have "fr_start r = 0" "fr_end r = size_c" using r(1) assms(3) atLeastLessThan_inj by blast+
  then show ?thesis using Cons \<open>rs' = []\<close> by (cases r) simp
qed

section \<open>The invariant of the allocator\<close>

definition arena_inv :: "arena_manager \<Rightarrow> bool" where
  "arena_inv A \<longleftrightarrow> free_inv (reservation_ceiling (config A)) (free_ranges A) \<and>
     (\<forall>l \<in> set (live_order A). \<exists>spec s. request_layout_at (config A) spec s = Some (layout l) \<and> requested_alignment l = rs_alignment spec) \<and>
     sorted_wrt (\<lambda>l m. lay_set (layout l) \<inter> lay_set (layout m) = {}) (live_order A) \<and>
     cover (free_ranges A) \<inter> live_set (live_order A) = {} \<and>
     sorted_wrt (<) (map ring_id (live_order A)) \<and> (\<forall>l \<in> set (live_order A). ring_id l < next_ring_id A) \<and>
     (\<forall>i n. map_of (live_index A) i = Some n \<longleftrightarrow> n < length (live_order A) \<and> ring_id (live_order A ! n) = i)"

definition total :: "arena_manager \<Rightarrow> u64 set" where
  "total A = cover (free_ranges A) \<union> live_set (live_order A)"

lemma checked_Suc: "checked_add x 1 = (if x = - 1 then None else Some (x + 1))" for x :: u64
proof -
  have "unat x < 2 ^ 64" using unsigned_less [of x] by simp
  moreover have "unat (- 1 :: u64) = 2 ^ 64 - 1" by (simp add: unsigned_minus_1_eq_mask mask_eq_exp_minus_1)
  ultimately have "unat x + 1 < 2 ^ 64 \<longleftrightarrow> x \<noteq> - 1" by (auto simp: word_unat_eq_iff)
  then show ?thesis by (simp add: checked_add_def)
qed

lemma try_allocate_cases:
  obtains (none) "carve (config A) (lr_ring_spec req) (free_ranges A) = None" "try_allocate req A = (None, A)"
  | (full) l rs where "carve (config A) (lr_ring_spec req) (free_ranges A) = Some (l, rs)" "next_ring_id A = - 1"
      "try_allocate req A = (None, A\<lparr>free_ranges := rs\<rparr>)"
  | (granted) l rs lease where "carve (config A) (lr_ring_spec req) (free_ranges A) = Some (l, rs)" "next_ring_id A \<noteq> - 1"
      "layout lease = l" "ring_id lease = next_ring_id A" "requested_alignment lease = rs_alignment (lr_ring_spec req)"
      "try_allocate req A = (Some lease, A\<lparr>free_ranges := rs, next_ring_id := next_ring_id A + 1,
         live_index := bt_insert (ring_id lease) (length (live_order A)) (live_index A), live_order := live_order A @ [lease]\<rparr>)"
proof (cases "carve (config A) (lr_ring_spec req) (free_ranges A)")
  case None
  then show ?thesis using none by (simp add: try_allocate_def)
next
  case (Some p)
  obtain l rs where p: "p = (l, rs)" by fastforce
  show ?thesis
  proof (cases "next_ring_id A = - 1")
    case True
    then show ?thesis using full Some p by (simp add: try_allocate_def checked_Suc)
  next
    case False
    let ?lease = "\<lparr>rle_request_id = lr_request_id req, ring_id = next_ring_id A, rle_node_id = ac_node_id (config A), layout = l,
      requested_alignment = rs_alignment (lr_ring_spec req)\<rparr>"
    show ?thesis by (rule granted [of l rs ?lease]) (use Some p False in \<open>simp_all add: try_allocate_def checked_Suc Let_def\<close>)
  qed
qed

lemma try_allocate_frame [simp]:
  "config (snd (try_allocate req A)) = config A" "state (snd (try_allocate req A)) = state A"
  "pending_leases (snd (try_allocate req A)) = pending_leases A"
  by (rule try_allocate_cases [of A req]; simp)+

lemma index_append:
  assumes "\<forall>i n. map_of ix i = Some n \<longleftrightarrow> n < length ls \<and> ring_id (ls ! n) = i" "\<forall>l \<in> set ls. ring_id l \<noteq> ring_id lease"
  shows "\<forall>i n. map_of (bt_insert (ring_id lease) (length ls) ix) i = Some n \<longleftrightarrow> n < length (ls @ [lease]) \<and> ring_id ((ls @ [lease]) ! n) = i"
  using assms by (auto simp: nth_append less_Suc_eq)

lemma try_allocate_inv:
  assumes "arena_inv A"
  shows "arena_inv (snd (try_allocate req A))"
proof (cases rule: try_allocate_cases [of A req])
  case none
  then show ?thesis using assms by simp
next
  case (full l rs)
  note c = carve_partition [OF _ full(1), of "reservation_ceiling (config A)"]
  show ?thesis using assms c full(3) by (auto simp: arena_inv_def)
next
  case (granted l rs lease)
  have fi: "free_inv (reservation_ceiling (config A)) (free_ranges A)" using assms by (simp add: arena_inv_def)
  note c = carve_partition [OF fi granted(1)]
  have lt: "\<forall>m \<in> set (live_order A). ring_id m < next_ring_id A" using assms by (simp add: arena_inv_def)
  have ix: "\<forall>i n. map_of (bt_insert (ring_id lease) (length (live_order A)) (live_index A)) i = Some n \<longleftrightarrow>
      n < length (live_order A @ [lease]) \<and> ring_id ((live_order A @ [lease]) ! n) = i"
    by (rule index_append) (use assms lt granted(4) in \<open>auto simp: arena_inv_def\<close>)
  have up: "next_ring_id A < next_ring_id A + 1" using granted(2) by (rule less_Suc_word)
  have disj: "\<forall>m \<in> set (live_order A). lay_set (layout m) \<inter> lay_set l = {}" "cover rs \<inter> live_set (live_order A @ [lease]) = {}"
    using assms c granted(3) by (auto simp: arena_inv_def live_set_def)
  have ok: "\<exists>spec s. request_layout_at (config A) spec s = Some (layout lease) \<and> requested_alignment lease = rs_alignment spec"
    using c granted(3,5) by blast
  show ?thesis unfolding granted(6) arena_inv_def
    using assms c lt ix up disj ok granted(3,4)
    by (simp add: arena_inv_def sorted_wrt_append ball_Un) (auto intro: less_trans)
qed

lemma try_allocate_total:
  assumes "arena_inv A" "next_ring_id (snd (try_allocate req A)) \<noteq> - 1"
  shows "next_ring_id A \<noteq> - 1 \<and> total (snd (try_allocate req A)) = total A"
proof (cases rule: try_allocate_cases [of A req])
  case (granted l rs lease)
  have fi: "free_inv (reservation_ceiling (config A)) (free_ranges A)" using assms by (simp add: arena_inv_def)
  show ?thesis using carve_partition [OF fi granted(1)] granted by (auto simp: total_def)
qed (use assms in \<open>simp_all add: total_def\<close>)

lemma rebuild_index:
  "distinct (map ring_id ls) \<Longrightarrow>
   \<forall>i n. map_of (fold (\<lambda>(i, lease). bt_insert (ring_id lease) i) (enumerate 0 ls) []) i = Some n \<longleftrightarrow> n < length ls \<and> ring_id (ls ! n) = i"
proof (induction ls rule: rev_induct)
  case (snoc x xs)
  have "\<forall>i n. map_of (bt_insert (ring_id x) (length xs) (fold (\<lambda>(i, lease). bt_insert (ring_id lease) i) (enumerate 0 xs) [])) i = Some n \<longleftrightarrow>
      n < length (xs @ [x]) \<and> ring_id ((xs @ [x]) ! n) = i"
    by (rule index_append) (use snoc in \<open>auto simp: image_iff\<close>)
  then show ?case by (simp add: enumerate_append_eq)
qed simp

definition freed :: "ring_lease \<Rightarrow> ring_lease list \<Rightarrow> arena_manager \<Rightarrow> arena_manager" where
  "freed lease ls A = insert_free_range \<lparr>fr_start = start_offset (layout lease), fr_end = end_offset (layout lease)\<rparr>
     (rebuild_live_index (A\<lparr>live_order := ls\<rparr>))"

lemma freed_frame [simp]:
  "config (freed x ls A) = config A" "state (freed x ls A) = state A" "pending_leases (freed x ls A) = pending_leases A"
  "next_ring_id (freed x ls A) = next_ring_id A" "live_order (freed x ls A) = ls"
  by (simp_all add: freed_def insert_free_range_def rebuild_live_index_def)

lemma freed_spec:
  assumes "arena_inv A" "live_order A = xs @ x # ys"
  shows "arena_inv (freed x (xs @ ys) A) \<and> total (freed x (xs @ ys) A) = total A \<and> apart (free_ranges (freed x (xs @ ys) A))"
proof -
  let ?r = "\<lparr>fr_start = start_offset (layout x), fr_end = end_offset (layout x)\<rparr>" and ?top = "reservation_ceiling (config A)"
  let ?free = "free_ranges (freed x (xs @ ys) A)"
  obtain spec s where "request_layout_at (config A) spec s = Some (layout x)" using assms by (force simp: arena_inv_def)
  from layout_spec [OF this] have r: "fr_start ?r \<le> fr_end ?r \<and> fr_end ?r \<le> ?top" by auto
  have fi: "free_inv ?top (free_ranges A)" using assms by (simp add: arena_inv_def)
  have "apart ?free \<and> cover ?free = cover [] \<union> cover (sort_key fr_start (free_ranges A @ [?r])) \<and> (\<forall>r \<in> set ?free. fr_end r \<le> ?top)"
    unfolding freed_def insert_free_range_def rebuild_live_index_def
    by (simp, rule coalesce_spec [of "[]", simplified]) (use r fi in \<open>auto simp: free_inv_def less_imp_le\<close>)
  then have free: "apart ?free" "cover ?free = cover (free_ranges A) \<union> lay_set (layout x)" "\<forall>r \<in> set ?free. fr_end r \<le> ?top"
    by (auto simp: cover_def range_set_def lay_set_def)
  have ids: "sorted_wrt (<) (map ring_id (xs @ ys))" using assms by (simp add: arena_inv_def sorted_wrt_append)
  have ix: "live_index (freed x (xs @ ys) A) = fold (\<lambda>(i, lease). bt_insert (ring_id lease) i) (enumerate 0 (xs @ ys)) []"
    by (simp add: freed_def insert_free_range_def rebuild_live_index_def)
  have "distinct (map ring_id (xs @ ys))" using ids strict_sorted_iff by blast
  note index = rebuild_index [OF this]
  have "arena_inv (freed x (xs @ ys) A)"
    unfolding arena_inv_def ix freed_frame
    by (intro conjI index ids apart_free_inv [OF free(1,3)])
      (use assms in \<open>auto simp: arena_inv_def sorted_wrt_append free(2) live_set_def\<close>)
  moreover have "total (freed x (xs @ ys) A) = total A" using assms(2) free(2) by (auto simp: total_def)
  ultimately show ?thesis using free(1) by blast
qed

text \<open>The queue: every request in it fits an empty arena, and the one in front does not fit now.\<close>

definition fits :: "arena_manager \<Rightarrow> queued_lease \<Rightarrow> bool" where
  "fits A q \<longleftrightarrow> carve (config A) (lr_ring_spec (ql_request q)) (free_ranges A) \<noteq> None"

definition queue_inv :: "arena_manager \<Rightarrow> bool" where
  "queue_inv A \<longleftrightarrow> (\<forall>q \<in> set (pending_leases A). request_layout_at (config A) (lr_ring_spec (ql_request q)) 0 \<noteq> None) \<and>
     (state A = ShuttingDown \<longrightarrow> pending_leases A = [])"

definition head_waits :: "arena_manager \<Rightarrow> bool" where
  "head_waits A \<longleftrightarrow> (\<forall>q qs. pending_leases A = q # qs \<longrightarrow> \<not> cancelled q \<longrightarrow> \<not> fits A q)"

definition whole :: "arena_manager \<Rightarrow> bool" where
  "whole A \<longleftrightarrow> free_ranges A = [\<lparr>fr_start = 0, fr_end = reservation_ceiling (config A)\<rparr>]"

definition arena_good :: "arena_manager \<Rightarrow> bool" where
  "arena_good A \<longleftrightarrow> arena_inv A \<and> queue_inv A \<and> 0 < reservation_ceiling (config A) \<and>
     (next_ring_id A \<noteq> - 1 \<longrightarrow> total A = {0..<reservation_ceiling (config A)} \<and> head_waits A \<and>
        (live_order A = [] \<longrightarrow> whole A \<and> pending_leases A = []))"

lemma whole_fits:
  assumes "whole A" "request_layout_at (config A) (lr_ring_spec (ql_request q)) 0 \<noteq> None"
  shows "fits A q"
proof -
  from assms(2) obtain l where l: "request_layout_at (config A) (lr_ring_spec (ql_request q)) 0 = Some l" by blast
  then show ?thesis using assms(1) layout_spec [OF l] by (auto simp: whole_def fits_def not_less)
qed

lemma retry_each_inv:
  "arena_inv A \<Longrightarrow> retry_each ps A = (evs, A') \<Longrightarrow>
   arena_inv A' \<and> config A' = config A \<and> state A' = state A \<and> set (pending_leases A') \<subseteq> set ps \<and>
   (next_ring_id A' \<noteq> - 1 \<longrightarrow> next_ring_id A \<noteq> - 1 \<and> total A' = total A \<and> head_waits A')"
proof (induction ps A arbitrary: evs rule: retry_each.induct)
  case (1 A)
  then show ?case by (auto simp: arena_inv_def total_def head_waits_def)
next
  case (2 p ps A)
  show ?case
  proof (cases "cancelled p")
    case True
    then obtain evs' where "retry_each ps A = (evs', A')" using 2(4) by (auto split: prod.splits)
    from 2(1) [OF True 2(3) this] show ?thesis by auto
  next
    case False
    obtain r A1 where t: "try_allocate (ql_request p) A = (r, A1)" by fastforce
    have A1: "arena_inv A1" "config A1 = config A" "state A1 = state A"
      using try_allocate_inv [OF 2(3), of "ql_request p"] try_allocate_frame [of "ql_request p" A] by (simp_all add: t)
    have tot: "next_ring_id A1 \<noteq> - 1 \<longrightarrow> next_ring_id A \<noteq> - 1 \<and> total A1 = total A"
      using try_allocate_total [OF 2(3), of "ql_request p"] by (simp add: t)
    show ?thesis
    proof (cases r)
      case None
      then have A': "A' = A1\<lparr>pending_leases := p # ps\<rparr>" using 2(4) False t by simp
      have "next_ring_id A1 \<noteq> - 1 \<Longrightarrow> \<not> fits A1 p"
        using t None by (cases rule: try_allocate_cases [of A "ql_request p"]) (auto simp: fits_def)
      then show ?thesis unfolding A' using A1 tot by (auto simp: arena_inv_def total_def head_waits_def fits_def)
    next
      case (Some lease)
      then obtain evs' where "retry_each ps A1 = (evs', A')" using 2(4) False t by (auto split: prod.splits)
      from 2(2) [OF False t [symmetric] Some A1(1) this] show ?thesis using A1 tot by auto
    qed
  qed
qed

lemma retry_each_grows: "live_order A \<noteq> [] \<Longrightarrow> live_order (snd (retry_each ps A)) \<noteq> []"
proof (induction ps A rule: retry_each.induct)
  case (2 p ps A)
  show ?case
  proof (cases "cancelled p")
    case True
    then show ?thesis using 2(1) [OF True 2(3)] by (simp add: split_beta)
  next
    case False
    obtain r A1 where t: "try_allocate (ql_request p) A = (r, A1)" by fastforce
    have A1: "live_order A1 \<noteq> []" using 2(3) t by (cases rule: try_allocate_cases [of A "ql_request p"]) auto
    show ?thesis
    proof (cases r)
      case None
      then show ?thesis using False t A1 by simp
    next
      case (Some lease)
      then show ?thesis using 2(2) [OF False t [symmetric] Some A1] False t by (simp add: split_beta)
    qed
  qed
qed simp

lemma retry_each_empty:
  "retry_each ps A = (evs, A') \<Longrightarrow> live_order A' = [] \<Longrightarrow> next_ring_id A' \<noteq> - 1 \<Longrightarrow> \<forall>q \<in> set ps. fits A q \<Longrightarrow>
   free_ranges A' = free_ranges A \<and> pending_leases A' = []"
proof (induction ps A arbitrary: evs rule: retry_each.induct)
  case (2 p ps A)
  show ?case
  proof (cases "cancelled p")
    case True
    then obtain evs' where "retry_each ps A = (evs', A')" using 2(3) by (auto split: prod.splits)
    from 2(1) [OF True this 2(4,5)] show ?thesis using 2(6) by simp
  next
    case False
    show ?thesis
    proof (cases rule: try_allocate_cases [of A "ql_request p"])
      case none
      then show ?thesis using 2(6) by (simp add: fits_def)
    next
      case (full l rs)
      then show ?thesis using False 2(3,5) by auto
    next
      case (granted l rs lease)
      let ?A1 = "snd (try_allocate (ql_request p) A)"
      have "A' = snd (retry_each ps ?A1)" using False 2(3) granted(6) by (auto split: prod.splits)
      moreover have "live_order ?A1 \<noteq> []" using granted(6) by simp
      ultimately show ?thesis using retry_each_grows [of ?A1 ps] 2(4) by simp
    qed
  qed
qed auto

lemma good_cong:
  "arena_good A \<Longrightarrow> config A' = config A \<Longrightarrow> state A' = state A \<Longrightarrow> next_ring_id A' = next_ring_id A \<Longrightarrow> free_ranges A' = free_ranges A \<Longrightarrow>
   pending_leases A' = pending_leases A \<Longrightarrow> live_order A' = live_order A \<Longrightarrow> live_index A' = live_index A \<Longrightarrow> arena_good A'"
  by (simp add: arena_good_def arena_inv_def queue_inv_def total_def head_waits_def fits_def whole_def)

lemma good_enqueue:
  assumes "arena_inv A" "queue_inv A" "0 < reservation_ceiling (config A)" "state A \<noteq> ShuttingDown"
    "request_layout_at (config A) (lr_ring_spec req) 0 \<noteq> None"
    "next_ring_id A \<noteq> - 1 \<longrightarrow> total A = {0..<reservation_ceiling (config A)} \<and> live_order A \<noteq> [] \<and>
       (if pending_leases A = [] then \<not> fits A \<lparr>ql_request = req, cancelled = False\<rparr> else head_waits A)"
  shows "arena_good (snd (enqueue_lease req A))"
proof -
  let ?A = "snd (enqueue_lease req A)"
  have "head_waits ?A" if "next_ring_id A \<noteq> - 1"
    using assms(6) that by (cases "pending_leases A") (auto simp: enqueue_lease_def head_waits_def fits_def)
  then show ?thesis using assms by (auto simp: arena_good_def enqueue_lease_def arena_inv_def queue_inv_def total_def)
qed

lemma good_lease:
  assumes "arena_good A"
  shows "arena_good (snd (arena_lease_ring req A))"
proof -
  consider (rejected) "snd (arena_lease_ring req A) = allocation_failed A"
    | (queued) "state A \<noteq> ShuttingDown" "request_layout_at (config A) (lr_ring_spec req) 0 \<noteq> None" "pending_leases A \<noteq> []"
        "arena_lease_ring req A = enqueue_lease req A"
    | (tried) "state A \<noteq> ShuttingDown" "request_layout_at (config A) (lr_ring_spec req) 0 \<noteq> None" "pending_leases A = []"
        "arena_lease_ring req A = (case try_allocate req A of (Some lease, A1) \<Rightarrow> ([RingLeased lease], A1) | (None, A1) \<Rightarrow> enqueue_lease req A1)"
    unfolding arena_lease_ring_def
    by (cases "state A = ShuttingDown"; cases "request_layout_at (config A) (lr_ring_spec req) 0 = None"; cases "pending_leases A = []"; simp)
  then show ?thesis
  proof cases
    case rejected
    then show ?thesis by (auto intro!: good_cong [OF assms] simp: allocation_failed_def)
  next
    case queued
    note g = assms [unfolded arena_good_def]
    show ?thesis unfolding queued(4) by (rule good_enqueue) (use g queued in auto)
  next
    case tried
    let ?q = "\<lparr>ql_request = req, cancelled = False\<rparr>" and ?A1 = "snd (try_allocate req A)"
    note inv = try_allocate_inv [of A req] try_allocate_total [of A req]
    show ?thesis
    proof (cases rule: try_allocate_cases [of A req])
      case none
      have "\<not> fits A ?q" using none(1) by (simp add: fits_def)
      moreover have "live_order A \<noteq> []" if "next_ring_id A \<noteq> - 1"
        using assms that calculation whole_fits [of A ?q] tried(2) by (auto simp: arena_good_def)
      moreover have "snd (arena_lease_ring req A) = snd (enqueue_lease req A)" using tried(4) none(2) by simp
      ultimately show ?thesis using assms [unfolded arena_good_def] tried by (simp only:) (rule good_enqueue; auto)
    next
      case (full l rs)
      have "snd (arena_lease_ring req A) = snd (enqueue_lease req ?A1)" using tried(4) full(3) by simp
      moreover have "arena_good (snd (enqueue_lease req ?A1))"
        by (rule good_enqueue) (use assms [unfolded arena_good_def] tried inv full in \<open>auto simp: queue_inv_def\<close>)
      ultimately show ?thesis by simp
    next
      case (granted l rs lease)
      then show ?thesis using assms tried inv by (auto simp: arena_good_def queue_inv_def head_waits_def)
    qed
  qed
qed

lemma good_freed:
  assumes "arena_good A" "live_order A = xs @ x # ys"
  shows "arena_inv (freed x (xs @ ys) A) \<and> queue_inv (freed x (xs @ ys) A) \<and>
    (next_ring_id A \<noteq> - 1 \<longrightarrow> total (freed x (xs @ ys) A) = {0..<reservation_ceiling (config A)} \<and> (xs @ ys = [] \<longrightarrow> whole (freed x (xs @ ys) A)))"
proof -
  have inv: "arena_inv A" "queue_inv A" using assms(1) by (simp_all add: arena_good_def)
  note f = freed_spec [OF inv(1) assms(2)]
  have "whole (freed x (xs @ ys) A)" if "xs @ ys = []" "next_ring_id A \<noteq> - 1"
    unfolding whole_def freed_frame
    by (rule apart_whole) (use f that assms in \<open>auto simp: total_def arena_good_def\<close>)
  then show ?thesis using f inv assms(1) by (auto simp: arena_good_def queue_inv_def)
qed

lemma good_release:
  assumes "arena_good A"
  shows "arena_good (snd (release_ring i verified A))"
proof (cases "map_of (live_index A) i")
  case None
  then show ?thesis by (auto simp: release_ring_def release_failed_def intro!: good_cong [OF assms])
next
  case (Some n)
  show ?thesis
  proof (cases verified)
    case False
    then show ?thesis using Some by (auto simp: release_ring_def release_failed_def intro!: good_cong [OF assms])
  next
    case True
    let ?x = "live_order A ! n" and ?ls = "take n (live_order A) @ drop (Suc n) (live_order A)"
    let ?F = "freed ?x ?ls A"
    have "n < length (live_order A)" using assms Some by (auto simp: arena_good_def arena_inv_def)
    note f = good_freed [OF assms id_take_nth_drop [OF this]]
    have pos: "0 < reservation_ceiling (config A)" using assms by (simp add: arena_good_def)
    show ?thesis
    proof (cases "state A = Ready")
      case False
      then have down: "pending_leases A = []" using assms by (cases "state A") (auto simp: arena_good_def queue_inv_def)
      have "snd (release_ring i verified A) = ?F" using Some True False by (simp add: release_ring_def Let_def freed_def [symmetric])
      then show ?thesis using f pos down by (auto simp: arena_good_def head_waits_def)
    next
      case ready: True
      obtain evs A' where r: "retry_each (pending_leases A) ?F = (evs, A')" by fastforce
      have rel: "snd (release_ring i verified A) = A'"
        using Some True ready r by (simp add: release_ring_def Let_def freed_def [symmetric] retry_pending_leases_def)
      have inv: "arena_inv ?F" "queue_inv ?F" using f by blast+
      note R = retry_each_inv [OF inv(1) r]
      have "whole A' \<and> pending_leases A' = []" if "live_order A' = []" "next_ring_id A' \<noteq> - 1"
      proof -
        have "?ls = []"
        proof (rule ccontr)
          assume "?ls \<noteq> []"
          then have "live_order ?F \<noteq> []" by (simp only: freed_frame not_False_eq_True)
          from retry_each_grows [OF this, of "pending_leases A"] show False using that(1) by (simp add: r)
        qed
        then have w: "whole ?F" using f R that(2) by auto
        have "\<forall>q \<in> set (pending_leases A). fits ?F q" using whole_fits [OF w] inv(2) by (simp add: queue_inv_def)
        from retry_each_empty [OF r that this] show ?thesis using w R by (simp add: whole_def)
      qed
      moreover have "queue_inv A'" using R inv(2) ready by (auto simp: queue_inv_def)
      ultimately show ?thesis unfolding rel using R f pos by (auto simp: arena_good_def)
    qed
  qed
qed

lemma good_request: "arena_good A \<Longrightarrow> arena_good (snd (request r A))"
proof (cases r)
  case (CancelLease i)
  assume g: "arena_good A"
  then have "head_waits (cancel_lease i A)" if "next_ring_id A \<noteq> - 1"
    using that by (cases "pending_leases A") (auto simp: arena_good_def head_waits_def cancel_lease_def fits_def split: if_splits)
  then show ?thesis using g CancelLease
    by (auto simp: arena_good_def cancel_lease_def arena_inv_def queue_inv_def total_def whole_def)
next
  case Shutdown
  assume "arena_good A"
  then show ?thesis using Shutdown by (auto simp: arena_good_def shutdown_def arena_inv_def queue_inv_def total_def head_waits_def whole_def)
qed (simp_all add: good_lease good_release)

definition arena_run :: "arena_request list \<Rightarrow> arena_manager \<Rightarrow> arena_manager" where
  "arena_run rs A = fold (\<lambda>r A. snd (request r A)) rs A"

lemma good_run: "arena_good A \<Longrightarrow> arena_good (arena_run rs A)"
  by (induction rs arbitrary: A) (simp_all add: arena_run_def good_request)

lemma retry_config: "config (snd (retry_each ps A)) = config A"
proof (induction ps A rule: retry_each.induct)
  case (2 p ps A)
  obtain r A1 where t: "try_allocate (ql_request p) A = (r, A1)" by fastforce
  have A1: "config A1 = config A" using try_allocate_frame(1) [of "ql_request p" A] by (simp add: t)
  show ?case
  proof (cases "cancelled p")
    case True
    then show ?thesis using 2(1) by (simp add: split_beta)
  next
    case False
    then show ?thesis using 2(2) [OF False t [symmetric]] t A1 by (cases r) (simp_all add: split_beta)
  qed
qed simp

lemma request_config: "config (snd (request r A)) = config A"
proof (cases r)
  case (LeaseRing req)
  obtain r1 A1 where t: "try_allocate req A = (r1, A1)" by fastforce
  have "config A1 = config A" using try_allocate_frame(1) [of req A] by (simp add: t)
  then show ?thesis using LeaseRing t
    by (auto simp: arena_lease_ring_def enqueue_lease_def allocation_failed_def split: prod.split option.split)
next
  case (ReleaseRing i verified)
  then show ?thesis
    by (auto simp: release_ring_def release_failed_def Let_def freed_def [symmetric] retry_pending_leases_def split_beta retry_config split: option.split)
qed (simp_all add: cancel_lease_def shutdown_def)

lemma run_config: "config (arena_run rs A) = config A"
  by (induction rs arbitrary: A) (simp_all add: arena_run_def request_config)

lemma good_boot: "boot granted c = Inr A \<Longrightarrow> arena_good A \<and> config A = c"
  by (auto simp: boot_def arena_good_def arena_inv_def queue_inv_def total_def head_waits_def whole_def free_inv_def range_set_def
    word_neq_0_conv split: if_splits)

lemma lookup_lease_iff:
  assumes "arena_inv A"
  shows "lookup_lease A i = Some l \<longleftrightarrow> l \<in> set (live_order A) \<and> ring_id l = i"
proof -
  have ix: "map_of (live_index A) i = Some n \<longleftrightarrow> n < length (live_order A) \<and> ring_id (live_order A ! n) = i" for n
    using assms by (simp add: arena_inv_def)
  have "sorted_wrt (<) (map ring_id (live_order A))" using assms by (simp add: arena_inv_def)
  then have inj: "inj_on ring_id (set (live_order A))" using strict_sorted_iff distinct_map by blast
  show ?thesis
  proof (cases "map_of (live_index A) i")
    case None
    then show ?thesis using ix by (auto simp: lookup_lease_def in_set_conv_nth)
  next
    case (Some n)
    then have n: "n < length (live_order A)" "ring_id (live_order A ! n) = i" using ix by auto
    then show ?thesis using Some inj by (auto simp: lookup_lease_def dest: inj_onD [where y = "live_order A ! n"])
  qed
qed

text \<open>C36. The arena is partitioned. Whatever requests are made of a booted arena, the live rings are pairwise disjoint,
  lie inside the reservation, overlap no free range and start at multiples of both the arena's and the requested
  alignment; looking up a ring identifier finds exactly the live ring that has it; and as long as ring identifiers
  last, every byte of the reservation is in a live ring or in a free range, so none is ever lost.\<close>

theorem arena_is_partitioned:
  assumes "boot granted c = Inr A0" and A: "A = arena_run rs A0"
  shows "(\<forall>i j. i < j \<longrightarrow> j < length (live_order A) \<longrightarrow> lay_set (layout (live_order A ! i)) \<inter> lay_set (layout (live_order A ! j)) = {}) \<and>
    (\<forall>l \<in> set (live_order A). end_offset (layout l) \<le> reservation_ceiling c \<and> lay_set (layout l) \<inter> cover (free_ranges A) = {} \<and>
       unat (base_alignment c) dvd unat (start_offset (layout l)) \<and> unat (requested_alignment l) dvd unat (start_offset (layout l))) \<and>
    (\<forall>i l. lookup_lease A i = Some l \<longleftrightarrow> l \<in> set (live_order A) \<and> ring_id l = i) \<and>
    (next_ring_id A \<noteq> - 1 \<longrightarrow> cover (free_ranges A) \<union> live_set (live_order A) = {0..<reservation_ceiling c})"
proof -
  have "arena_good A0" "config A0 = c" using good_boot [OF assms(1)] by simp_all
  then have good: "arena_good A" and cfg: "config A = c" unfolding A by (simp_all add: good_run run_config)
  then have inv: "arena_inv A" by (simp add: arena_good_def)
  have lay: "end_offset (layout l) \<le> reservation_ceiling c \<and> lay_set (layout l) \<inter> cover (free_ranges A) = {} \<and>
      unat (base_alignment c) dvd unat (start_offset (layout l)) \<and> unat (requested_alignment l) dvd unat (start_offset (layout l))"
    if l: "l \<in> set (live_order A)" for l
  proof -
    from inv l obtain spec s where sp: "request_layout_at c spec s = Some (layout l)" "requested_alignment l = rs_alignment spec"
      by (auto simp: arena_inv_def cfg)
    have "lay_set (layout l) \<inter> cover (free_ranges A) = {}" using inv l by (auto simp: arena_inv_def live_set_def)
    then show ?thesis using layout_spec [OF sp(1)] by (simp add: sp(2))
  qed
  have "sorted_wrt (\<lambda>l m. lay_set (layout l) \<inter> lay_set (layout m) = {}) (live_order A)" using inv by (simp add: arena_inv_def)
  then show ?thesis using lay lookup_lease_iff [OF inv] good by (auto simp: sorted_wrt_iff_nth_less arena_good_def total_def cfg)
qed

definition small_arena :: arena_config where
  "small_arena = \<lparr>ac_node_id = 1, reservation_ceiling = 4096, base_alignment = 64\<rparr>"

definition small_boot :: arena_manager where
  "small_boot = projr (boot True small_arena)"

definition lease_of :: "u64 \<Rightarrow> u64 \<Rightarrow> arena_request" where
  "lease_of i n = LeaseRing \<lparr>lr_request_id = i, lr_ring_spec = \<lparr>header_bytes = 64, rs_data_bytes = n, rs_alignment = 8\<rparr>\<rparr>"

lemma small_arithmetic:
  "lcm64 64 8 = Some 64" "align_up 0 64 = Some 0" "align_up 64 64 = Some 64" "align_up 1064 64 = Some 1088" "align_up 1152 64 = Some 1152"
proof -
  have "gcd64 64 8 = 8" by (simp add: gcd64.simps [of 64 8] gcd64.simps [of 8 0])
  then show "lcm64 64 8 = Some 64" by (simp add: lcm64_def checked_mul_def)
qed (simp_all add: align_up_def checked_add_def)

lemmas arena_eval = arena_run_def small_boot_def lease_of_def small_arena_def boot_def arena_lease_ring_def try_allocate_def request_layout_at_def
  small_arithmetic checked_add_def release_ring_def rebuild_live_index_def insert_free_range_def retry_pending_leases_def Let_def

lemma small_boot: "boot True small_arena = Inr small_boot"
  by (simp add: small_boot_def boot_def small_arena_def)

theorem arena_is_partitioned_witness:
  "let A = arena_run [lease_of 7 1000, lease_of 8 2000, ReleaseRing 1 True] small_boot in
   map (start_offset \<circ> layout) (live_order A) = [1088] \<and> unat (base_alignment small_arena) dvd unat (1088 :: u64)"
proof -
  let ?A = "arena_run [lease_of 7 1000, lease_of 8 2000, ReleaseRing 1 True] small_boot"
  have live: "map (start_offset \<circ> layout) (live_order ?A) = [1088]" by (simp add: arena_eval)
  then obtain l where l: "l \<in> set (live_order ?A)" "start_offset (layout l) = 1088" by (cases "live_order ?A") auto
  have "unat (base_alignment small_arena) dvd unat (start_offset (layout l))"
    using arena_is_partitioned [OF small_boot refl, of "[lease_of 7 1000, lease_of 8 2000, ReleaseRing 1 True]"] l(1) by blast
  then show ?thesis using live by (simp only: l(2) Let_def simp_thms)
qed



end
