(* ===== verification/Object_Record.thy ===== *)
theory Object_Record
  imports Prelude
begin

unbundle bit_operations_syntax

text \<open>
  The framing of objects on an edge (\<open>crates/data-plane/src/object_record.rs\<close>): the 40-byte little-endian header,
  its decoder with every failure, the incremental reader and the record builder. \<open>usize\<close> has 64 bits; the sum of
  header length and extent wraps as in a release build.
\<close>

section \<open>Little-endian integers\<close>

fun to_le_bytes :: "nat \<Rightarrow> 'a::len word \<Rightarrow> u8 list" where
  "to_le_bytes 0 w = []"
| "to_le_bytes (Suc n) w = ucast w # to_le_bytes n (drop_bit 8 w)"

fun from_le_bytes :: "u8 list \<Rightarrow> 'a::len word" where
  "from_le_bytes [] = 0"
| "from_le_bytes (b # bs) = ucast b OR push_bit 8 (from_le_bytes bs)"

definition slice :: "nat \<Rightarrow> nat \<Rightarrow> 'a list \<Rightarrow> 'a list" where
  "slice a b xs = take (b - a) (drop a xs)"

section \<open>Headers\<close>

datatype object_layout = Token

record object_spec =
  max_extent :: u64
  os_alignment :: u64
  os_layout :: object_layout

definition HEADER_LEN :: nat where "HEADER_LEN = 40"

definition OBJECT_MAGIC_BYTES :: "u8 list" where "OBJECT_MAGIC_BYTES = [77, 79, 48, 49]"

definition OBJECT_MAGIC :: u32 where "OBJECT_MAGIC = from_le_bytes OBJECT_MAGIC_BYTES"

definition OBJECT_VERSION :: u16 where "OBJECT_VERSION = 1"

definition FLAG_END_OF_SEQUENCE :: u32 where "FLAG_END_OF_SEQUENCE = 1"

definition FLAG_BEGIN_SEQUENCE :: u32 where "FLAG_BEGIN_SEQUENCE = push_bit 1 1"

definition KNOWN_FLAGS_MASK :: u32 where "KNOWN_FLAGS_MASK = FLAG_END_OF_SEQUENCE OR FLAG_BEGIN_SEQUENCE"

record object_flags =
  end_of_sequence :: bool
  begin_sequence :: bool

definition flag_bits :: "object_flags \<Rightarrow> u32" where
  "flag_bits f = (if end_of_sequence f then FLAG_END_OF_SEQUENCE else 0) OR (if begin_sequence f then FLAG_BEGIN_SEQUENCE else 0)"

definition flags_from_bits :: "u32 \<Rightarrow> object_flags option" where
  "flags_from_bits bits =
     (if bits AND NOT KNOWN_FLAGS_MASK \<noteq> 0 then None
      else Some \<lparr>end_of_sequence = bits AND FLAG_END_OF_SEQUENCE \<noteq> 0, begin_sequence = bits AND FLAG_BEGIN_SEQUENCE \<noteq> 0\<rparr>)"

record object_header =
  oh_object_id :: u64
  oh_sequence :: u64
  oh_extent :: u64
  oh_flags :: object_flags

datatype object_failure_reason =
    UnsupportedMagic | UnsupportedVersion | MalformedHeaderLength | MalformedHeader
  | ExtentExceedsMax | ExtentAlignmentViolation | SequenceViolation | EofBeforeFullPayload | DeviceCopyFailed

definition header_encode :: "object_header \<Rightarrow> u8 list" where
  "header_encode h =
     to_le_bytes 4 OBJECT_MAGIC @ to_le_bytes 2 OBJECT_VERSION @ to_le_bytes 2 (of_nat HEADER_LEN :: u16) @
     to_le_bytes 8 (oh_object_id h) @ to_le_bytes 8 (oh_sequence h) @ to_le_bytes 8 (oh_extent h) @
     to_le_bytes 4 (flag_bits (oh_flags h)) @ to_le_bytes 4 (0 :: u32)"

definition header_decode :: "u8 list \<Rightarrow> object_failure_reason + object_header" where
  "header_decode bytes =
     (if length bytes < HEADER_LEN then Inl EofBeforeFullPayload
      else if from_le_bytes (slice 0 4 bytes) \<noteq> OBJECT_MAGIC then Inl UnsupportedMagic
      else if from_le_bytes (slice 4 6 bytes) \<noteq> OBJECT_VERSION then Inl UnsupportedVersion
      else if unat (from_le_bytes (slice 6 8 bytes) :: u16) \<noteq> HEADER_LEN then Inl MalformedHeaderLength
      else
        let flags = from_le_bytes (slice 32 36 bytes) in
        if from_le_bytes (slice 36 40 bytes) \<noteq> (0 :: u32) then Inl MalformedHeader
        else case flags_from_bits flags of
          None \<Rightarrow> Inl MalformedHeader
        | Some f \<Rightarrow> Inr \<lparr>oh_object_id = from_le_bytes (slice 8 16 bytes), oh_sequence = from_le_bytes (slice 16 24 bytes),
            oh_extent = from_le_bytes (slice 24 32 bytes), oh_flags = f\<rparr>)"

section \<open>Records\<close>

record object_record_builder =
  ob_object_id :: u64
  ob_sequence :: u64
  ob_extent :: u64
  ob_payload :: "u8 list"
  ob_magic :: u32
  ob_version :: u16
  ob_header_len :: u16
  ob_flags :: object_flags

definition builder_new :: object_record_builder where
  "builder_new = \<lparr>ob_object_id = 9000, ob_sequence = 0, ob_extent = 0, ob_payload = [], ob_magic = OBJECT_MAGIC,
     ob_version = OBJECT_VERSION, ob_header_len = of_nat HEADER_LEN, ob_flags = \<lparr>end_of_sequence = False, begin_sequence = False\<rparr>\<rparr>"

definition overwrite :: "nat \<Rightarrow> 'a list \<Rightarrow> 'a list \<Rightarrow> 'a list" where
  "overwrite i ys xs = take i xs @ ys @ drop (i + length ys) xs"

definition builder_encode :: "object_record_builder \<Rightarrow> u8 list" where
  "builder_encode b =
     (let extent = (if ob_extent b = 0 \<and> ob_payload b \<noteq> [] then of_nat (length (ob_payload b)) else ob_extent b);
          out = header_encode \<lparr>oh_object_id = ob_object_id b, oh_sequence = ob_sequence b, oh_extent = extent, oh_flags = ob_flags b\<rparr>;
          out = (if ob_magic b \<noteq> OBJECT_MAGIC then overwrite 0 (to_le_bytes 4 (ob_magic b)) out else out);
          out = (if ob_version b \<noteq> OBJECT_VERSION then overwrite 4 (to_le_bytes 2 (ob_version b)) out else out);
          out = (if unat (ob_header_len b) \<noteq> HEADER_LEN then overwrite 6 (to_le_bytes 2 (ob_header_len b)) out else out) in
      out @ ob_payload b)"

record object_record =
  or_object_id :: u64
  or_sequence :: u64
  or_extent :: u64
  or_flags :: object_flags
  total_len :: u64

definition record_payload :: "object_record \<Rightarrow> u8 list \<Rightarrow> u8 list option" where
  "record_payload r bytes =
     (if HEADER_LEN \<le> unat (total_len r) \<and> unat (total_len r) \<le> length bytes then Some (slice HEADER_LEN (unat (total_len r)) bytes) else None)"

datatype object_record_read = Incomplete | Complete object_record

definition read_object_record :: "u8 list \<Rightarrow> object_spec \<Rightarrow> bool \<Rightarrow> object_failure_reason + object_record_read" where
  "read_object_record bytes spec eof =
     (if length bytes < HEADER_LEN then (if eof \<and> bytes \<noteq> [] then Inl EofBeforeFullPayload else Inr Incomplete)
      else case header_decode bytes of
        Inl e \<Rightarrow> Inl e
      | Inr h \<Rightarrow>
          if oh_extent h > max_extent spec then Inl ExtentExceedsMax
          else if os_alignment spec \<noteq> 0 \<and> oh_extent h mod os_alignment spec \<noteq> 0 then Inl ExtentAlignmentViolation
          else
            let total = of_nat HEADER_LEN + oh_extent h in
            if length bytes < unat total then (if eof then Inl EofBeforeFullPayload else Inr Incomplete)
            else Inr (Complete \<lparr>or_object_id = oh_object_id h, or_sequence = oh_sequence h, or_extent = oh_extent h,
              or_flags = oh_flags h, total_len = total\<rparr>))"

definition object_id_alloc :: "u64 \<Rightarrow> u64 \<times> u64" where
  "object_id_alloc next = (next, saturating_add next 1)"

section \<open>Integers survive their bytes\<close>

lemma length_to_le [simp]: "length (to_le_bytes n w) = n"
  by (induction n w rule: to_le_bytes.induct) simp_all

lemma from_to_le: "from_le_bytes (to_le_bytes n w) = take_bit (8 * n) w" for w :: "'a::len word"
proof (induction n w rule: to_le_bytes.induct)
  case (2 n w)
  show ?case
    by (rule bit_word_eqI) (auto simp: 2 bit_simps dest: bit_imp_le_length)
qed simp

lemma from_to_le_word [simp]:
  "from_le_bytes (to_le_bytes 2 x) = x" "from_le_bytes (to_le_bytes 4 y) = y" "from_le_bytes (to_le_bytes 8 z) = z"
  for x :: u16 and y :: u32 and z :: u64
  using take_bit_word_eq_self [of 16 x] take_bit_word_eq_self [of 32 y] take_bit_word_eq_self [of 64 z] by (simp_all add: from_to_le)

lemma from_le_high: "bit (from_le_bytes bs :: 'a::len word) n \<Longrightarrow> n < 8 * length bs"
proof (induction bs arbitrary: n)
  case (Cons b bs)
  then have "bit b n \<or> 8 \<le> n \<and> bit (from_le_bytes bs :: 'a word) (n - 8)" by (auto simp: bit_simps)
  then show ?case using Cons.IH [of "n - 8"] bit_imp_le_length [of b n] by auto
qed simp

lemma to_from_le:
  "8 * length bs \<le> LENGTH('a) \<Longrightarrow> to_le_bytes (length bs) (from_le_bytes bs :: 'a::len word) = bs"
proof (induction bs)
  case (Cons b bs)
  have le: "8 \<le> LENGTH('a)" using Cons.prems by simp
  have "ucast (ucast b OR push_bit 8 (from_le_bytes bs :: 'a word)) = b" by (rule bit_word_eqI) (use le in \<open>auto simp: bit_simps\<close>)
  moreover have "drop_bit 8 (ucast b OR push_bit 8 (from_le_bytes bs :: 'a word)) = from_le_bytes bs"
    by (rule bit_word_eqI) (use Cons.prems in \<open>auto simp: bit_simps dest: bit_imp_le_length from_le_high\<close>)
  ultimately show ?case using Cons by simp
qed simp

section \<open>Headers survive their bytes\<close>

lemma flags_round_trip: "flags_from_bits (flag_bits f) = Some f"
  by (cases f) (auto simp: flags_from_bits_def flag_bits_def KNOWN_FLAGS_MASK_def FLAG_END_OF_SEQUENCE_def FLAG_BEGIN_SEQUENCE_def)

lemma flags_canonical:
  assumes "flags_from_bits b = Some f"
  shows "flag_bits f = b"
proof -
  have known: "b AND NOT 3 = 0" and f: "f = \<lparr>end_of_sequence = b AND 1 \<noteq> 0, begin_sequence = b AND 2 \<noteq> 0\<rparr>"
    using assms by (auto simp: flags_from_bits_def KNOWN_FLAGS_MASK_def FLAG_END_OF_SEQUENCE_def FLAG_BEGIN_SEQUENCE_def split: if_splits)
  have "b = (b AND 3) OR (b AND NOT 3)" by (rule bit_word_eqI) (auto simp: bit_simps)
  then have "b = b AND 3" using known by simp
  then have "unat b \<le> 3" using word_and_le1 [of b 3] by (simp add: word_le_nat_alt)
  then have "unat b \<in> {0, 1, 2, 3}" by auto
  then have "b \<in> {0, 1, 2, 3}" by (auto simp: word_unat_eq_iff)
  then show ?thesis unfolding f by (auto simp: flag_bits_def FLAG_END_OF_SEQUENCE_def FLAG_BEGIN_SEQUENCE_def)
qed

lemma length_header [simp]: "length (header_encode h) = HEADER_LEN"
  by (simp add: header_encode_def HEADER_LEN_def)

lemma header_round_trip: "header_decode (header_encode h @ rest) = Inr h"
  by (cases h) (simp add: header_decode_def header_encode_def slice_def HEADER_LEN_def flags_round_trip)

lemma slice_append: "a \<le> b \<Longrightarrow> b \<le> c \<Longrightarrow> slice a b xs @ slice b c xs = slice a c xs"
  using take_add [of "b - a" "c - b" "drop a xs"] by (simp add: slice_def)

lemma slices: "take 40 bytes = slice 0 4 bytes @ slice 4 6 bytes @ slice 6 8 bytes @ slice 8 16 bytes @
    slice 16 24 bytes @ slice 24 32 bytes @ slice 32 36 bytes @ slice 36 40 bytes"
  by (simp add: slice_append) (simp add: slice_def)

lemma length_slice: "b \<le> length xs \<Longrightarrow> length (slice a b xs) = b - a"
  by (simp add: slice_def)

text \<open>The decoder accepts no header but the ones the encoder writes.\<close>

lemma header_canonical:
  assumes "header_decode bytes = Inr h"
  shows "header_encode h = take HEADER_LEN bytes"
proof -
  have len: "40 \<le> length bytes" and eqs: "from_le_bytes (slice 0 4 bytes) = OBJECT_MAGIC" "from_le_bytes (slice 4 6 bytes) = OBJECT_VERSION"
    "unat (from_le_bytes (slice 6 8 bytes) :: u16) = 40" "from_le_bytes (slice 36 40 bytes) = (0 :: u32)"
    and fl: "flags_from_bits (from_le_bytes (slice 32 36 bytes)) = Some (oh_flags h)"
    and fields: "oh_object_id h = from_le_bytes (slice 8 16 bytes)" "oh_sequence h = from_le_bytes (slice 16 24 bytes)"
      "oh_extent h = from_le_bytes (slice 24 32 bytes)"
    using assms by (auto simp: header_decode_def HEADER_LEN_def Let_def split: if_splits option.splits)
  have "of_nat HEADER_LEN = (from_le_bytes (slice 6 8 bytes) :: u16)" using eqs(3) by (simp add: word_unat_eq_iff HEADER_LEN_def)
  moreover have "to_le_bytes 4 (from_le_bytes (slice 0 4 bytes) :: u32) = slice 0 4 bytes" "to_le_bytes 2 (from_le_bytes (slice 4 6 bytes) :: u16) = slice 4 6 bytes"
    "to_le_bytes 2 (from_le_bytes (slice 6 8 bytes) :: u16) = slice 6 8 bytes" "to_le_bytes 8 (from_le_bytes (slice 8 16 bytes) :: u64) = slice 8 16 bytes"
    "to_le_bytes 8 (from_le_bytes (slice 16 24 bytes) :: u64) = slice 16 24 bytes" "to_le_bytes 8 (from_le_bytes (slice 24 32 bytes) :: u64) = slice 24 32 bytes"
    "to_le_bytes 4 (from_le_bytes (slice 32 36 bytes) :: u32) = slice 32 36 bytes" "to_le_bytes 4 (from_le_bytes (slice 36 40 bytes) :: u32) = slice 36 40 bytes"
    using to_from_le [of "slice 0 4 bytes", where 'a = 32] to_from_le [of "slice 4 6 bytes", where 'a = 16] to_from_le [of "slice 6 8 bytes", where 'a = 16]
      to_from_le [of "slice 8 16 bytes", where 'a = 64] to_from_le [of "slice 16 24 bytes", where 'a = 64] to_from_le [of "slice 24 32 bytes", where 'a = 64]
      to_from_le [of "slice 32 36 bytes", where 'a = 32] to_from_le [of "slice 36 40 bytes", where 'a = 32] len
    by (simp_all add: length_slice)
  ultimately show ?thesis
    unfolding header_encode_def HEADER_LEN_def [symmetric] flags_canonical [OF fl] fields eqs(1,2,4) [symmetric]
    by (simp add: HEADER_LEN_def slices)
qed


definition sample_header :: object_header where
  "sample_header = \<lparr>oh_object_id = 5, oh_sequence = 2, oh_extent = 3, oh_flags = \<lparr>end_of_sequence = True, begin_sequence = False\<rparr>\<rparr>"


end
