(* ===== verification/Data_Path.thy ===== *)
theory Data_Path
  imports Prelude "HOL-Library.Sublist"
begin

text \<open>
  Logical data paths and the access of a session to them (\<open>crates/data-plane/src/path.rs\<close>). The serialisation of
  a path is its string, parsed again on the way in.
\<close>

section \<open>Paths\<close>

datatype data_path = DataPath string

datatype data_path_error = NotAbsolute | EmptySegment | DotSegment | Nul | RootNotData | InvalidExecutionId

fun as_str :: "data_path \<Rightarrow> string" where
  "as_str (DataPath s) = s"

text \<open>\<open>str::split\<close> and \<open>str::strip_prefix\<close>.\<close>

fun split_on :: "'a \<Rightarrow> 'a list \<Rightarrow> 'a list list" where
  "split_on c [] = [[]]"
| "split_on c (x # xs) = (if x = c then [] # split_on c xs else (x # hd (split_on c xs)) # tl (split_on c xs))"

fun strip_prefix :: "'a list \<Rightarrow> 'a list \<Rightarrow> 'a list option" where
  "strip_prefix [] s = Some s"
| "strip_prefix (p # ps) [] = None"
| "strip_prefix (p # ps) (x # xs) = (if p = x then strip_prefix ps xs else None)"

fun check_segments :: "string list \<Rightarrow> data_path_error option" where
  "check_segments [] = None"
| "check_segments (s # ss) =
     (if s = '''' then Some EmptySegment
      else if s = ''.'' \<or> s = ''..'' then Some DotSegment
      else check_segments ss)"

definition parse :: "string \<Rightarrow> data_path_error + data_path" where
  "parse path =
     (if path = [] \<or> hd path \<noteq> CHR ''/'' then Inl NotAbsolute
      else if path = ''/'' then Inl RootNotData
      else if CHR 0x00 \<in> set path then Inl Nul
      else case check_segments (split_on (CHR ''/'') (tl path)) of Some e \<Rightarrow> Inl e | None \<Rightarrow> Inr (DataPath path))"

definition path_starts_with :: "data_path \<Rightarrow> data_path \<Rightarrow> bool" where
  "path_starts_with self pre \<longleftrightarrow> as_str self = as_str pre \<or>
     (case strip_prefix (as_str pre) (as_str self) of None \<Rightarrow> False | Some sfx \<Rightarrow> sfx \<noteq> [] \<and> hd sfx = CHR ''/'')"

section \<open>Sessions\<close>

record session_access =
  execution_id :: string
  read_prefixes :: "data_path list"
  write_prefixes :: "data_path list"

definition validate :: "session_access \<Rightarrow> data_path_error + unit" where
  "validate S =
     (let e = execution_id S in
      if e = [] \<or> CHR ''/'' \<in> set e \<or> e = ''.'' \<or> e = ''..'' \<or> CHR 0x00 \<in> set e then Inl InvalidExecutionId else Inr ())"

definition resolve_path :: "session_access \<Rightarrow> data_path \<Rightarrow> data_path_error + data_path" where
  "resolve_path S logical =
     (case validate S of
        Inl e \<Rightarrow> Inl e
      | Inr _ \<Rightarrow>
          parse (if as_str logical = ''/runs/self'' then ''/runs/'' @ execution_id S
                 else case strip_prefix ''/runs/self/'' (as_str logical) of
                   Some sfx \<Rightarrow> ''/runs/'' @ execution_id S @ ''/'' @ sfx
                 | None \<Rightarrow> as_str logical))"

definition can_read :: "session_access \<Rightarrow> data_path \<Rightarrow> bool" where
  "can_read S path = list_ex (path_starts_with path) (read_prefixes S)"

definition can_write :: "session_access \<Rightarrow> data_path \<Rightarrow> bool" where
  "can_write S path = list_ex (path_starts_with path) (write_prefixes S)"

section \<open>Paths as lists of segments\<close>

definition segments :: "data_path \<Rightarrow> string list" where
  "segments p = split_on (CHR ''/'') (tl (as_str p))"

fun join :: "'a \<Rightarrow> 'a list list \<Rightarrow> 'a list" where
  "join c [] = []"
| "join c [s] = s"
| "join c (s # ss) = s @ c # join c ss"

lemma split_nonempty [simp]: "split_on c xs \<noteq> []"
  by (cases xs) auto

lemma split_Cons: "\<exists>s ss. split_on c xs = s # ss"
  by (cases "split_on c xs") auto

lemma join_Cons: "ss \<noteq> [] \<Longrightarrow> join c (s # ss) = s @ c # join c ss"
  by (cases ss) auto

lemma join_split [simp]: "join c (split_on c xs) = xs"
proof (induction xs)
  case (Cons x xs)
  obtain s ss where "split_on c xs = s # ss" using split_Cons by metis
  with Cons show ?case by (cases ss) auto
qed simp

lemma split_append: "split_on c (ys @ c # zs) = split_on c ys @ split_on c zs"
  by (induction ys) auto

lemma split_plain: "c \<notin> set xs \<Longrightarrow> split_on c xs = [xs]"
  by (induction xs) auto

lemma join_append: "ss \<noteq> [] \<Longrightarrow> ts \<noteq> [] \<Longrightarrow> join c (ss @ ts) = join c ss @ c # join c ts"
proof (induction ss)
  case (Cons s ss)
  then show ?case by (cases ss) (auto simp: join_Cons)
qed simp

lemma split_inject [simp]: "split_on c xs = split_on c ys \<longleftrightarrow> xs = ys"
  by (metis join_split)

lemma prefix_split:
  "prefix (split_on c ys) (split_on c xs) \<longleftrightarrow> xs = ys \<or> (\<exists>zs. xs = ys @ c # zs)"
proof
  assume "prefix (split_on c ys) (split_on c xs)"
  then obtain ts where ts: "split_on c xs = split_on c ys @ ts" by (auto simp: prefix_def)
  show "xs = ys \<or> (\<exists>zs. xs = ys @ c # zs)"
  proof (cases "ts = []")
    case False
    have "join c (split_on c xs) = join c (split_on c ys) @ c # join c ts" using ts False by (simp only: join_append split_nonempty not_False_eq_True)
    then show ?thesis by auto
  qed (use ts in simp)
qed (auto simp: split_append)

lemma strip_prefix_Some: "strip_prefix p s = Some r \<longleftrightarrow> s = p @ r"
  by (induction p s rule: strip_prefix.induct) auto

lemma check_segments_None: "check_segments ss = None \<longleftrightarrow> (\<forall>s \<in> set ss. s \<noteq> '''' \<and> s \<noteq> ''.'' \<and> s \<noteq> ''..'')"
  by (induction ss) auto

lemma parse_Inr:
  "parse path = Inr p \<longleftrightarrow> p = DataPath path \<and> (\<exists>x. path = CHR ''/'' # x) \<and> CHR 0x00 \<notin> set path \<and>
    (\<forall>s \<in> set (segments (DataPath path)). s \<noteq> '''' \<and> s \<noteq> ''.'' \<and> s \<noteq> ''..'')"
proof (cases path)
  case (Cons c x)
  show ?thesis by (auto simp: Cons parse_def segments_def check_segments_None [symmetric] split: option.splits if_splits)
qed (simp add: parse_def)

text \<open>What resolving means on segments: \<open>self\<close> below \<open>/runs\<close> stands for the execution of the session.\<close>

fun subst_self :: "string \<Rightarrow> string list \<Rightarrow> string list" where
  "subst_self e (r # s # rest) = (if r = ''runs'' \<and> s = ''self'' then r # e # rest else r # s # rest)"
| "subst_self e ss = ss"

lemma starts_with_segments:
  assumes "parse p = Inr P" "parse q = Inr Q"
  shows "path_starts_with P Q \<longleftrightarrow> prefix (segments Q) (segments P)"
proof -
  obtain x y where xy: "P = DataPath (CHR ''/'' # x)" "Q = DataPath (CHR ''/'' # y)" using assms by (auto simp: parse_Inr)
  have "path_starts_with P Q \<longleftrightarrow> x = y \<or> (\<exists>r. strip_prefix y x = Some r \<and> r \<noteq> [] \<and> hd r = CHR ''/'')"
    by (auto simp: xy path_starts_with_def split: option.split)
  also have "\<dots> \<longleftrightarrow> x = y \<or> (\<exists>z. x = y @ CHR ''/'' # z)" by (auto simp: strip_prefix_Some neq_Nil_conv)
  finally show ?thesis by (simp add: prefix_split segments_def xy)
qed

lemma resolve_segments:
  assumes "parse p = Inr P" "validate S = Inr ()"
  shows "\<exists>R. resolve_path S P = Inr R \<and> segments R = subst_self (execution_id S) (segments P)"
proof -
  let ?e = "execution_id S"
  obtain x where x: "P = DataPath (CHR ''/'' # x)" and ok: "CHR 0x00 \<notin> set x"
    "\<forall>s \<in> set (split_on (CHR ''/'') x). s \<noteq> '''' \<and> s \<noteq> ''.'' \<and> s \<noteq> ''..''" using assms(1) by (auto simp: parse_Inr segments_def)
  have e: "?e \<noteq> ''''" "CHR ''/'' \<notin> set ?e" "?e \<noteq> ''.''" "?e \<noteq> ''..''" "CHR 0x00 \<notin> set ?e"
    using assms(2) by (auto simp: validate_def Let_def split: if_splits)
  have runs: "split_on (CHR ''/'') (''runs/'' @ r) = ''runs'' # split_on (CHR ''/'') r" for r by simp
  consider (self) "x = ''runs/self''" | (below) r where "x = ''runs/self/'' @ r"
    | (other) "x \<noteq> ''runs/self''" "\<And>r. x \<noteq> ''runs/self/'' @ r" by blast
  then show ?thesis
  proof cases
    case self
    have "parse (''/runs/'' @ ?e) = Inr (DataPath (''/runs/'' @ ?e))"
      using e by (simp add: parse_Inr segments_def split_plain)
    then show ?thesis using assms(2) e by (simp add: resolve_path_def x self segments_def split_plain)
  next
    case below
    have seg: "split_on (CHR ''/'') (''runs/'' @ ?e @ ''/'' @ r) = ''runs'' # ?e # split_on (CHR ''/'') r"
      using e(2) by (simp add: split_append split_plain)
    have "parse (''/runs/'' @ ?e @ ''/'' @ r) = Inr (DataPath (''/runs/'' @ ?e @ ''/'' @ r))"
      using e ok seg by (simp add: parse_Inr segments_def below)
    then show ?thesis using assms(2) seg by (simp add: resolve_path_def x below segments_def)
  next
    case other
    have "subst_self ?e (split_on (CHR ''/'') x) = split_on (CHR ''/'') x"
    proof (rule ccontr)
      assume "subst_self ?e (split_on (CHR ''/'') x) \<noteq> split_on (CHR ''/'') x"
      then obtain rest where s: "split_on (CHR ''/'') x = ''runs'' # ''self'' # rest"
        by (cases "split_on (CHR ''/'') x" rule: subst_self.cases [of "(?e, _)", simplified]) (auto split: if_splits)
      have "x = join (CHR ''/'') (''runs'' # ''self'' # rest)" using s join_split by metis
      then show False using other by (cases rest) auto
    qed
    moreover have "strip_prefix ''/runs/self/'' (CHR ''/'' # x) = None"
      using other(2) strip_prefix_Some [of "''/runs/self/''" "CHR ''/'' # x"] by (cases "strip_prefix ''/runs/self/'' (CHR ''/'' # x)") auto
    moreover have "parse (CHR ''/'' # x) = Inr P" using assms(1) x by (simp add: parse_Inr)
    ultimately show ?thesis using assms(2) other(1) by (simp add: resolve_path_def x segments_def)
  qed
qed

text \<open>C40. Paths mean their segments. The string comparison that authorises access accepts a path under a prefix exactly
  when the prefix's segments are the first segments of the path, so \<open>/a/bc\<close> is not under \<open>/a/b\<close>; and for a session
  with a valid execution identifier, resolving a path always succeeds and changes nothing but a segment \<open>self\<close> right
  below \<open>/runs\<close>, which becomes the execution identifier.\<close>

theorem paths_mean_their_segments:
  assumes "parse p = Inr P" "parse q = Inr Q" "validate S = Inr ()"
  shows "(path_starts_with P Q \<longleftrightarrow> prefix (segments Q) (segments P)) \<and>
    (\<exists>R. resolve_path S P = Inr R \<and> segments R = subst_self (execution_id S) (segments P))"
  using starts_with_segments [OF assms(1,2)] resolve_segments [OF assms(1,3)] by blast

theorem paths_mean_their_segments_witness:
  "\<not> path_starts_with (DataPath ''/a/bc'') (DataPath ''/a/b'') \<and>
   segments (projr (resolve_path \<lparr>execution_id = ''x7'', read_prefixes = [], write_prefixes = []\<rparr> (DataPath ''/a/bc''))) = [''a'', ''bc'']"
proof -
  let ?S = "\<lparr>execution_id = ''x7'', read_prefixes = [], write_prefixes = []\<rparr>"
  have p: "parse ''/a/bc'' = Inr (DataPath ''/a/bc'')" "parse ''/a/b'' = Inr (DataPath ''/a/b'')" "validate ?S = Inr ()" by code_simp+
  have s: "\<not> prefix (segments (DataPath ''/a/b'')) (segments (DataPath ''/a/bc''))" "subst_self (execution_id ?S) (segments (DataPath ''/a/bc'')) = [''a'', ''bc'']"
    by (simp_all add: segments_def)
  show ?thesis using paths_mean_their_segments [OF p] s by auto
qed

end
