(* ===== verification/Provision_Node.thy ===== *)
theory Provision_Node
  imports Prelude Complex_Main "HOL-Library.List_Lexorder" "HOL-Library.Char_ord"
begin

text \<open>
  The vocabulary of node provisioning (\<open>crates/provisioning/src/node.rs\<close>): what a run asks for, the facts
  recorded of one rented node, and the commands sent to its provider. Strings are byte strings in the order
  of Rust's \<open>Ord\<close> for \<open>String\<close>. Of a floating-point number the code uses only \<open>is_finite\<close> and equality, and
  equality only of numbers it has found to be finite, so a finite number is its value.
\<close>

section \<open>Desired shape\<close>

datatype f64 = Finite rat | Infinite | NaN

fun is_finite :: "f64 \<Rightarrow> bool" where
  "is_finite (Finite _) = True"
| "is_finite _ = False"

record desired_node_shape =
  image :: string
  disk_gb :: u32
  gpu_name :: "string option"
  min_gpu_ram_mb :: "u64 option"
  min_down_mbps :: "f64 option"
  min_up_mbps :: "f64 option"
  min_reliability :: "f64 option"
  require_verified :: bool
  provider_labels :: "(string \<times> string) list"

record provider_mount =
  host_path :: string
  container_path :: string
  readonly :: bool

record boot_spec =
  ssh_user :: string
  verify_commands :: "string list"
  start_swactor_command :: string
  stdout_sources :: "string list"
  stderr_sources :: "string list"
  boot_env :: "(string \<times> string) list"
  boot_args :: "string list"
  mounts :: "provider_mount list"

record swarm_join_template =
  sjt_orch_swactor_addr :: string
  sjt_join_token_ref :: string

record swarm_join_spec =
  orch_swactor_addr :: string
  join_token_ref :: string
  expected_logical_node_id :: string

record run_node_group_spec =
  grp_run_id :: u64
  grp_id :: string
  grp_role :: string
  grp_count :: u32
  grp_provider :: string
  grp_shape :: desired_node_shape
  grp_boot :: boot_spec
  grp_swarm_join :: swarm_join_template

record logical_node_spec =
  spec_run_id :: u64
  spec_id :: string
  spec_group_id :: string
  spec_role :: string
  spec_provider :: string
  spec_shape :: desired_node_shape
  spec_boot :: boot_spec
  spec_swarm_join :: swarm_join_spec

text \<open>The decimal text of an unsigned integer, as \<open>format!\<close> writes it.\<close>

fun decimal :: "nat \<Rightarrow> string" where
  "decimal n = (if n < 10 then [char_of (48 + n)] else decimal (n div 10) @ [char_of (48 + n mod 10)])"

declare decimal.simps [simp del]

definition node_slot_id :: "string \<Rightarrow> nat \<Rightarrow> string" where
  "node_slot_id g index = g @ ''-'' @ decimal index"

definition group_node :: "run_node_group_spec \<Rightarrow> nat \<Rightarrow> logical_node_spec" where
  "group_node g index =
     \<lparr>spec_run_id = grp_run_id g, spec_id = node_slot_id (grp_id g) index, spec_group_id = grp_id g,
      spec_role = grp_role g, spec_provider = grp_provider g, spec_shape = grp_shape g, spec_boot = grp_boot g,
      spec_swarm_join = \<lparr>orch_swactor_addr = sjt_orch_swactor_addr (grp_swarm_join g),
        join_token_ref = sjt_join_token_ref (grp_swarm_join g),
        expected_logical_node_id = node_slot_id (grp_id g) index\<rparr>\<rparr>"

definition expand_node_group :: "run_node_group_spec \<Rightarrow> logical_node_spec list" where
  "expand_node_group g = map (group_node g) [0..<unat (grp_count g)]"

section \<open>Facts of one node\<close>

datatype node_stage =
    New | LeaseRequested | LeaseCreatedStage | EndpointKnown | BootstrapRunning | SwactorJoinedStage
  | HandedOff | Dormant | Failed | Destroyed

datatype bootstrap_stage =
    BsCreated | SshConnecting | SshReady | StdoutStreaming | BootChecking | SwactorStarting
  | WaitingForSwactorJoin | Converged | Closed | SshConnectFailed | BootCheckFailed | StartFailed
  | SwactorJoinFailed | StreamError | Cancelled

record destroy_handle =
  dh_provider :: string
  dh_lease_id :: string
  dh_contract_id :: string

record lease_facts =
  lf_provider :: string
  lease_id :: string
  provider_contract_id :: string
  offer_id :: "string option"
  lf_destroy_handle :: destroy_handle
  provider_metadata :: "(string \<times> string) list"

record ssh_endpoint =
  ssh_host :: string
  ssh_port :: u16
  ssh_endpoint_user :: string
  auth_ref :: string

record bootstrap_facts =
  bf_session_id :: u64
  last_stage :: bootstrap_stage
  bf_stdout_seq :: "u64 option"
  bf_stderr_seq :: "u64 option"
  last_observed_at :: nat

record swactor_facts =
  sw_id :: string
  joined_at :: nat
  handed_off_at :: "nat option"

record provision_record =
  pr_id :: string
  pr_run_id :: u64
  pr_group_id :: string
  pr_role :: string
  desired_spec :: logical_node_spec
  stage :: node_stage
  ready :: bool
  lease :: "lease_facts option"
  connection :: "ssh_endpoint option"
  bootstrap :: "bootstrap_facts option"
  swactor :: "swactor_facts option"
  failed_reason :: "string option"
  failed_at :: "nat option"
  destroyed_at :: "nat option"

definition from_spec :: "logical_node_spec \<Rightarrow> provision_record" where
  "from_spec spec =
     \<lparr>pr_id = spec_id spec, pr_run_id = spec_run_id spec, pr_group_id = spec_group_id spec, pr_role = spec_role spec,
      desired_spec = spec, stage = New, ready = False, lease = None, connection = None, bootstrap = None, swactor = None,
      failed_reason = None, failed_at = None, destroyed_at = None\<rparr>"

section \<open>Commands and observations\<close>

record create_lease_result =
  clr_lease :: lease_facts
  clr_endpoint :: "ssh_endpoint option"

record bootstrap_observation =
  obs_stage :: bootstrap_stage
  obs_stdout_seq :: "u64 option"
  obs_stderr_seq :: "u64 option"
  obs_marker :: "string option"

record bootstrap_session_spec =
  bss_run_id :: u64
  bss_node_id :: string
  bss_lease_id :: string
  bss_ssh :: ssh_endpoint
  bss_boot :: boot_spec
  bss_swarm_join :: swarm_join_spec
  bss_telemetry :: string

datatype node_manager_command =
    CreateLease logical_node_spec
  | LookupEndpoint lease_facts
  | StartBootstrap bootstrap_session_spec
  | BootstrapConvergenceObserved u64 string
  | CancelBootstrap u64
  | DestroyLease destroy_handle

section \<open>Slot names\<close>

lemma digit_value: "k < 10 \<Longrightarrow> of_char (char_of (48 + k) :: char) = (48 + k :: nat)"
  by simp

lemma digit_not_dash: "k < 10 \<Longrightarrow> char_of (48 + k) \<noteq> CHR ''-''" for k :: nat
  using digit_value [of k] by (auto simp del: of_char_of)

lemma decimal_no_dash: "CHR ''-'' \<notin> set (decimal n)"
proof (induction n rule: decimal.induct)
  case (1 n)
  then show ?case
    using digit_not_dash [of n] digit_not_dash [of "n mod 10"] by (subst decimal.simps) auto
qed

lemma decimal_nonempty [simp]: "decimal n \<noteq> []"
  by (subst decimal.simps) simp

lemma decimal_inject [simp]: "decimal m = decimal n \<longleftrightarrow> m = n"
proof
  show "decimal m = decimal n \<Longrightarrow> m = n"
  proof (induction m arbitrary: n rule: decimal.induct)
    case (1 m)
    have last_digit: "of_char (last (decimal k)) = 48 + k mod 10" for k :: nat
      by (subst decimal.simps) simp
    have rest: "butlast (decimal k) = (if k < 10 then [] else decimal (k div 10))" for k
      by (subst decimal.simps) simp
    have mods: "m mod 10 = n mod 10"
      using last_digit [of m] last_digit [of n] 1(2) by simp
    have tens: "(if m < 10 then [] else decimal (m div 10)) = (if n < 10 then [] else decimal (n div 10))"
      using rest [of m] rest [of n] 1(2) by simp
    show ?case
    proof (cases "m < 10")
      case True
      then have "n < 10" using tens by (metis decimal_nonempty)
      with True mods show ?thesis by simp
    next
      case False
      then have "\<not> n < 10" and "decimal (m div 10) = decimal (n div 10)"
        using tens by (auto split: if_splits)
      then have "m div 10 = n div 10"
        using 1(1) [OF False] by simp
      with mods show ?thesis by (metis div_mult_mod_eq)
    qed
  qed
qed simp

lemma node_slot_id_inject [simp]: "node_slot_id g i = node_slot_id h j \<longleftrightarrow> g = h \<and> i = j"
proof
  assume eq: "node_slot_id g i = node_slot_id h j"
  let ?P = "\<lambda>c. c \<noteq> CHR ''-''"
  have all: "list_all ?P (rev (decimal k))" for k
    using decimal_no_dash by (auto simp: list_all_iff)
  have tw: "takeWhile ?P (rev (node_slot_id x k)) = rev (decimal k)"
    and dw: "dropWhile ?P (rev (node_slot_id x k)) = CHR ''-'' # rev x" for x k
    using all [of k] by (simp_all add: node_slot_id_def takeWhile_append dropWhile_append list_all_iff takeWhile_eq_all_conv)
  show "g = h \<and> i = j"
    using tw [of g i] tw [of h j] dw [of g i] dw [of h j] eq by simp
qed simp

end
