(* ===== verification/Reconciler.thy ===== *)
theory Reconciler
  imports Provision_Node
begin

text \<open>
  The deciding half of \<open>crates/provisioning/src/reconciler.rs\<close>: expansion of a cluster shape into node
  specifications, the decision for one node, the plan for all of them, and the folding of observations into
  a node. A \<open>SystemTime\<close> is a number of nanoseconds since the epoch below \<open>2 ^ 63\<close> seconds and a \<open>Duration\<close>
  one below \<open>2 ^ 64\<close> seconds; their checked operations fail at these bounds as the library's do. Error
  texts built with \<open>format!\<close> are kept where the code stores them and are constructors where it only returns them.
\<close>

section \<open>Times\<close>

definition TIME_END :: nat where
  "TIME_END = 2 ^ 63 * 1000000000"

definition DURATION_END :: nat where
  "DURATION_END = 2 ^ 64 * 1000000000"

definition time_checked_add :: "nat \<Rightarrow> nat \<Rightarrow> nat option" where
  "time_checked_add t d = (if t + d < TIME_END then Some (t + d) else None)"

definition duration_checked_mul :: "nat \<Rightarrow> u32 \<Rightarrow> nat option" where
  "duration_checked_mul d m = (if d * unat m < DURATION_END then Some (d * unat m) else None)"

definition duration_checked_add :: "nat \<Rightarrow> nat \<Rightarrow> nat option" where
  "duration_checked_add a b = (if a + b < DURATION_END then Some (a + b) else None)"

section \<open>State\<close>

record cluster_shape =
  cs_run_id :: u64
  cs_generation :: u64
  cs_groups :: "run_node_group_spec list"

datatype shape_error =
    GroupOfOtherRun string u64 u64
  | DuplicateGroup string
  | NonFinite string string
  | DuplicateLogicalNode string
  | AttemptAllocatorExhausted
  | UnionKeyMissing

datatype operation_id = OperationId (op_attempt: u64) (op_sequence: u64)

instantiation operation_id :: linorder
begin

definition less_eq_operation_id :: "operation_id \<Rightarrow> operation_id \<Rightarrow> bool" where
  "less_eq_operation_id a b \<longleftrightarrow> (op_attempt a, op_sequence a) \<le> (op_attempt b, op_sequence b)"

definition less_operation_id :: "operation_id \<Rightarrow> operation_id \<Rightarrow> bool" where
  "less_operation_id a b \<longleftrightarrow> (op_attempt a, op_sequence a) < (op_attempt b, op_sequence b)"

instance
  by standard (auto simp: less_eq_operation_id_def less_operation_id_def operation_id.expand)

end

datatype node_intent = Active | Deleting

datatype operation_kind =
    KCreateLease | KLookupEndpoint | KStartBootstrap | KBootstrapConvergenceObserved | KCancelBootstrap
  | KDestroyLease

fun for_command :: "node_manager_command \<Rightarrow> operation_kind" where
  "for_command (CreateLease _) = KCreateLease"
| "for_command (LookupEndpoint _) = KLookupEndpoint"
| "for_command (StartBootstrap _) = KStartBootstrap"
| "for_command (BootstrapConvergenceObserved _ _) = KBootstrapConvergenceObserved"
| "for_command (CancelBootstrap _) = KCancelBootstrap"
| "for_command (DestroyLease _) = KDestroyLease"

record pending_operation =
  po_id :: operation_id
  po_kind :: operation_kind
  po_deadline :: nat

record planned_operation =
  plo_node :: string
  plo_operation :: operation_id
  plo_kind :: operation_kind
  plo_deadline :: nat

record retry_state =
  consecutive_failures :: u32
  next_effect_at :: "nat option"
  restart_at :: "nat option"
  last_error :: "string option"
  ambiguous_operation :: "operation_kind option"

record managed_node =
  attempt :: u64
  intent :: node_intent
  node_facts :: provision_record
  active_bootstrap :: "u64 option"
  pending :: "pending_operation option"
  next_operation_sequence :: u64
  retry :: retry_state

definition managed_node_new :: "u64 \<Rightarrow> logical_node_spec \<Rightarrow> managed_node" where
  "managed_node_new a spec =
     \<lparr>attempt = a, intent = Active, node_facts = from_spec spec, active_bootstrap = None, pending = None,
      next_operation_sequence = 1,
      retry = \<lparr>consecutive_failures = 0, next_effect_at = None, restart_at = None, last_error = None,
        ambiguous_operation = None\<rparr>\<rparr>"

record cluster_state =
  observed_generation :: u64
  next_attempt_id :: u64
  nodes :: "(string \<times> managed_node) list"

definition cluster_state_default :: cluster_state where
  "cluster_state_default = \<lparr>observed_generation = 0, next_attempt_id = 1, nodes = []\<rparr>"

record planned_effect =
  eff_node :: string
  eff_operation :: operation_id
  eff_command :: node_manager_command

datatype node_action =
    Insert u64 logical_node_spec
  | BeginDelete string u64
  | MarkDestroyed string u64
  | Restart string u64 u64 logical_node_spec
  | Reap string u64
  | Dispatch planned_effect

datatype node_decision_action =
    DBeginDelete | DMarkDestroyed | DRestart logical_node_spec | DReap | DDispatch node_manager_command

record node_decision =
  nd_action :: "node_decision_action option"
  nd_requeue_at :: "nat option"

record reconcile_plan =
  plan_actions :: "node_action list"
  plan_generation :: u64
  plan_requeue_at :: "nat option"

definition act :: "node_decision_action \<Rightarrow> node_decision" where
  "act a = \<lparr>nd_action = Some a, nd_requeue_at = None\<rparr>"

definition wait :: "nat option \<Rightarrow> node_decision" where
  "wait t = \<lparr>nd_action = None, nd_requeue_at = t\<rparr>"

section \<open>Expansion of a shape\<close>

definition non_finite_field :: "desired_node_shape \<Rightarrow> string option" where
  "non_finite_field s =
     (let bad = (\<lambda>v. \<exists>x\<in>set_option v. \<not> is_finite x) in
      if bad (min_down_mbps s) then Some ''min_down_mbps''
      else if bad (min_up_mbps s) then Some ''min_up_mbps''
      else if bad (min_reliability s) then Some ''min_reliability''
      else None)"

fun insert_specs :: "logical_node_spec list \<Rightarrow> (string \<times> logical_node_spec) list
    \<Rightarrow> shape_error + (string \<times> logical_node_spec) list" where
  "insert_specs [] m = Inr m"
| "insert_specs (s # ss) m =
     (if map_of m (spec_id s) \<noteq> None then Inl (DuplicateLogicalNode (spec_id s))
      else insert_specs ss (bt_insert (spec_id s) s m))"

fun expand_groups :: "u64 \<Rightarrow> run_node_group_spec list \<Rightarrow> string list \<Rightarrow> (string \<times> logical_node_spec) list
    \<Rightarrow> shape_error + (string \<times> logical_node_spec) list" where
  "expand_groups run [] seen m = Inr m"
| "expand_groups run (g # gs) seen m =
     (if grp_run_id g \<noteq> run then Inl (GroupOfOtherRun (grp_id g) (grp_run_id g) run)
      else if grp_id g \<in> set seen then Inl (DuplicateGroup (grp_id g))
      else case non_finite_field (grp_shape g) of
        Some field \<Rightarrow> Inl (NonFinite (grp_id g) field)
      | None \<Rightarrow>
          (case insert_specs (expand_node_group g) m of
             Inl e \<Rightarrow> Inl e
           | Inr m' \<Rightarrow> expand_groups run gs (grp_id g # seen) m'))"

definition expand :: "cluster_shape \<Rightarrow> shape_error + (string \<times> logical_node_spec) list" where
  "expand c = expand_groups (cs_run_id c) (cs_groups c) [] []"

section \<open>The decision for one node\<close>

definition start_bootstrap_command :: "provision_record \<Rightarrow> node_manager_command option" where
  "start_bootstrap_command r =
     Option.bind (lease r) (\<lambda>l. Option.bind (connection r) (\<lambda>ssh.
       Some (StartBootstrap \<lparr>bss_run_id = pr_run_id r, bss_node_id = pr_id r, bss_lease_id = lease_id l, bss_ssh = ssh,
         bss_boot = spec_boot (desired_spec r), bss_swarm_join = spec_swarm_join (desired_spec r),
         bss_telemetry = ''run/'' @ decimal (unat (pr_run_id r)) @ ''/node/'' @ pr_id r @ ''/bootstrap''\<rparr>)))"

definition not_due :: "nat \<Rightarrow> nat option \<Rightarrow> bool" where
  "not_due now t = (case t of Some u \<Rightarrow> now < u | None \<Rightarrow> False)"

definition decide_destroyed :: "managed_node \<Rightarrow> logical_node_spec option \<Rightarrow> nat \<Rightarrow> node_decision" where
  "decide_destroyed n ds now =
     (case ds of
        None \<Rightarrow> act DReap
      | Some spec \<Rightarrow> if not_due now (restart_at (retry n)) then wait (restart_at (retry n)) else act (DRestart spec))"

definition decide_cleanup :: "managed_node \<Rightarrow> node_decision" where
  "decide_cleanup n =
     (if active_bootstrap n = None \<and> lease (node_facts n) = None then act DMarkDestroyed
      else case active_bootstrap n of
        Some session \<Rightarrow> act (DDispatch (CancelBootstrap session))
      | None \<Rightarrow>
          (case lease (node_facts n) of
             Some l \<Rightarrow> act (DDispatch (DestroyLease (lf_destroy_handle l)))
           | None \<Rightarrow> act DMarkDestroyed))"

definition decide_deleting :: "managed_node \<Rightarrow> nat \<Rightarrow> node_decision" where
  "decide_deleting n now =
     (if not_due now (next_effect_at (retry n)) then wait (next_effect_at (retry n))
      else if ambiguous_operation (retry n) = Some KCreateLease then act (DDispatch (CreateLease (desired_spec (node_facts n))))
      else if ambiguous_operation (retry n) = Some KStartBootstrap then
        (case start_bootstrap_command (node_facts n) of
           Some command \<Rightarrow> act (DDispatch command)
         | None \<Rightarrow> decide_cleanup n)
      else decide_cleanup n)"

definition decide_active :: "managed_node \<Rightarrow> nat \<Rightarrow> node_decision" where
  "decide_active n now =
     (let r = node_facts n in
      if not_due now (next_effect_at (retry n)) then wait (next_effect_at (retry n))
      else if ready r \<and> stage r \<in> {HandedOff, Dormant} then wait None
      else case lease r of
        None \<Rightarrow> act (DDispatch (CreateLease (desired_spec r)))
      | Some l \<Rightarrow>
          if connection r = None then act (DDispatch (LookupEndpoint l))
          else if stage r = SwactorJoinedStage then
            (case (active_bootstrap n, swactor r) of
               (Some session, Some sw) \<Rightarrow> act (DDispatch (BootstrapConvergenceObserved session (sw_id sw)))
             | _ \<Rightarrow> wait None)
          else if active_bootstrap n \<noteq> None \<or> stage r = BootstrapRunning then wait None
          else act (DDispatch (the (start_bootstrap_command r))))"

definition reconcile_node :: "managed_node \<Rightarrow> logical_node_spec option \<Rightarrow> nat \<Rightarrow> node_decision" where
  "reconcile_node n ds now =
     (if stage (node_facts n) = Destroyed then decide_destroyed n ds now
      else if intent n = Active \<and> (ds \<noteq> Some (desired_spec (node_facts n)) \<or> stage (node_facts n) = Failed)
        then act DBeginDelete
      else case pending n of
        Some p \<Rightarrow> wait (Some (po_deadline p))
      | None \<Rightarrow> if intent n = Deleting then decide_deleting n now else decide_active n now)"

section \<open>The plan for a cluster\<close>

fun earliest :: "nat option \<Rightarrow> nat option \<Rightarrow> nat option" where
  "earliest (Some a) (Some b) = Some (min a b)"
| "earliest (Some a) None = Some a"
| "earliest None b = b"

definition allocate_attempt :: "u64 \<Rightarrow> shape_error + u64 \<times> u64" where
  "allocate_attempt next =
     (case checked_add next 1 of None \<Rightarrow> Inl AttemptAllocatorExhausted | Some next' \<Rightarrow> Inr (next, next'))"

fun plan_action :: "string \<Rightarrow> managed_node \<Rightarrow> node_decision_action \<Rightarrow> u64 \<Rightarrow> shape_error + node_action \<times> u64" where
  "plan_action k n DBeginDelete next = Inr (BeginDelete k (attempt n), next)"
| "plan_action k n DMarkDestroyed next = Inr (MarkDestroyed k (attempt n), next)"
| "plan_action k n (DRestart spec) next =
     (case allocate_attempt next of Inl e \<Rightarrow> Inl e | Inr (a, next') \<Rightarrow> Inr (Restart k (attempt n) a spec, next'))"
| "plan_action k n DReap next = Inr (Reap k (attempt n), next)"
| "plan_action k n (DDispatch command) next =
     Inr (Dispatch \<lparr>eff_node = k, eff_operation = OperationId (attempt n) (next_operation_sequence n),
       eff_command = command\<rparr>, next)"

fun plan_keys :: "(string \<times> managed_node) list \<Rightarrow> (string \<times> logical_node_spec) list \<Rightarrow> nat \<Rightarrow> string list \<Rightarrow> u64
    \<Rightarrow> nat option \<Rightarrow> shape_error + node_action list \<times> nat option" where
  "plan_keys obs des now [] next requeue = Inr ([], requeue)"
| "plan_keys obs des now (k # ks) next requeue =
     (case (map_of obs k, map_of des k) of
        (None, Some spec) \<Rightarrow>
          (case allocate_attempt next of
             Inl e \<Rightarrow> Inl e
           | Inr (a, next') \<Rightarrow>
               map_sum id (\<lambda>(acts, rq). (Insert a spec # acts, rq)) (plan_keys obs des now ks next' requeue))
      | (Some n, ds) \<Rightarrow>
          (let decision = reconcile_node n ds now; requeue' = earliest requeue (nd_requeue_at decision) in
           case nd_action decision of
             None \<Rightarrow> plan_keys obs des now ks next requeue'
           | Some a \<Rightarrow>
               (case plan_action k n a next of
                  Inl e \<Rightarrow> Inl e
                | Inr (action, next') \<Rightarrow>
                    map_sum id (\<lambda>(acts, rq). (action # acts, rq)) (plan_keys obs des now ks next' requeue')))
      | (None, None) \<Rightarrow> Inl UnionKeyMissing)"

definition union_keys :: "(string \<times> 'a) list \<Rightarrow> (string \<times> 'b) list \<Rightarrow> string list" where
  "union_keys obs des = sort (remdups (map fst obs @ map fst des))"

definition reconcile :: "cluster_state \<Rightarrow> cluster_shape \<Rightarrow> nat \<Rightarrow> shape_error + reconcile_plan" where
  "reconcile s c now =
     (case expand c of
        Inl e \<Rightarrow> Inl e
      | Inr des \<Rightarrow>
          map_sum id (\<lambda>(acts, rq). \<lparr>plan_actions = acts, plan_generation = cs_generation c, plan_requeue_at = rq\<rparr>)
            (plan_keys (nodes s) des now (union_keys (nodes s) des) (next_attempt_id s) None))"

section \<open>Retry delays\<close>

record retry_policy =
  initial_delay :: nat
  max_delay :: nat
  jitter :: nat
  operation_timeout :: nat
  endpoint_probe_interval :: nat

definition delay_for_failure :: "retry_policy \<Rightarrow> u32 \<Rightarrow> nat" where
  "delay_for_failure p failures =
     (let exponent = min (unat (saturating_sub failures 1)) 31; multiplier = push_bit exponent (1 :: u32) in
      min (case duration_checked_mul (initial_delay p) multiplier of Some d \<Rightarrow> d | None \<Rightarrow> max_delay p) (max_delay p))"

definition sampled_retry_delay :: "retry_policy \<Rightarrow> u64 \<Rightarrow> u32 \<Rightarrow> nat" where
  "sampled_retry_delay p a failures =
     (let base = delay_for_failure p failures in
      if jitter p = 0 then base
      else let mixed = word_rotl 17 (a * 0x9e3779b97f4a7c15 + ucast failures);
               sampled = unat mixed mod (jitter p + 1) in
        (case duration_checked_add base sampled of Some d \<Rightarrow> d | None \<Rightarrow> DURATION_END - 1))"

definition retry_policy_default :: retry_policy where
  "retry_policy_default =
     \<lparr>initial_delay = 1000000000, max_delay = 60000000000, jitter = 0, operation_timeout = 120000000000,
      endpoint_probe_interval = 2000000000\<rparr>"

section \<open>Folding observations\<close>

datatype disposition = Definite | Ambiguous

record effect_error =
  reason :: string
  ee_disposition :: disposition

datatype operation_outcome =
    LeaseCreated create_lease_result
  | EndpointLookup "ssh_endpoint option"
  | BootstrapStarted u64
  | BootstrapConvergenceAccepted
  | BootstrapCancelled
  | LeaseDestroyed

fun outcome_kind :: "operation_outcome \<Rightarrow> operation_kind" where
  "outcome_kind (LeaseCreated _) = KCreateLease"
| "outcome_kind (EndpointLookup _) = KLookupEndpoint"
| "outcome_kind (BootstrapStarted _) = KStartBootstrap"
| "outcome_kind BootstrapConvergenceAccepted = KBootstrapConvergenceObserved"
| "outcome_kind BootstrapCancelled = KCancelBootstrap"
| "outcome_kind LeaseDestroyed = KDestroyLease"

record executor_result =
  er_node :: string
  er_operation :: operation_id
  er_result :: "effect_error + operation_outcome"

datatype node_observation =
    OperationSucceeded operation_id operation_outcome
  | OperationFailed operation_id effect_error
  | BootstrapObserved u64 bootstrap_observation
  | BootstrapFailed u64 string
  | SwactorJoined u64 string
  | BootstrapClosed u64

abbreviation upd_facts :: "(provision_record \<Rightarrow> provision_record) \<Rightarrow> managed_node \<Rightarrow> managed_node" where
  "upd_facts f n \<equiv> n\<lparr>node_facts := f (node_facts n)\<rparr>"

abbreviation upd_retry :: "(retry_state \<Rightarrow> retry_state) \<Rightarrow> managed_node \<Rightarrow> managed_node" where
  "upd_retry f n \<equiv> n\<lparr>retry := f (retry n)\<rparr>"

definition mark_attempt_failed :: "retry_policy \<Rightarrow> nat \<Rightarrow> string \<Rightarrow> managed_node \<Rightarrow> managed_node" where
  "mark_attempt_failed p now why n =
     (let failures = saturating_add (consecutive_failures (retry n)) 1 in
      upd_facts (\<lambda>r. r\<lparr>stage := Failed, ready := False, failed_reason := Some why, failed_at := Some now\<rparr>)
        (upd_retry (\<lambda>t. t\<lparr>consecutive_failures := failures, last_error := Some why, next_effect_at := None,
           ambiguous_operation := None,
           restart_at := time_checked_add now (sampled_retry_delay p (attempt n) failures)\<rparr>) n))"

definition finish_bootstrap :: "retry_policy \<Rightarrow> nat \<Rightarrow> managed_node \<Rightarrow> managed_node" where
  "finish_bootstrap p now n =
     (case swactor (node_facts n) of
        None \<Rightarrow> mark_attempt_failed p now ''bootstrap closed before swactor convergence'' n
      | Some sw \<Rightarrow>
          n\<lparr>active_bootstrap := None,
            node_facts := (node_facts n)\<lparr>swactor := Some (sw\<lparr>handed_off_at := Some now\<rparr>), stage := Dormant,
              ready := (intent n = Active)\<rparr>,
            retry := \<lparr>consecutive_failures = 0, next_effect_at = None, restart_at = None, last_error = None,
              ambiguous_operation = None\<rparr>\<rparr>)"

fun is_bootstrap_failure :: "bootstrap_stage \<Rightarrow> bool" where
  "is_bootstrap_failure s \<longleftrightarrow> s \<in> {SshConnectFailed, BootCheckFailed, StartFailed, SwactorJoinFailed, StreamError}"

fun stage_debug :: "bootstrap_stage \<Rightarrow> string" where
  "stage_debug BsCreated = ''Created''"
| "stage_debug SshConnecting = ''SshConnecting''"
| "stage_debug SshReady = ''SshReady''"
| "stage_debug StdoutStreaming = ''StdoutStreaming''"
| "stage_debug BootChecking = ''BootChecking''"
| "stage_debug SwactorStarting = ''SwactorStarting''"
| "stage_debug WaitingForSwactorJoin = ''WaitingForSwactorJoin''"
| "stage_debug Converged = ''Converged''"
| "stage_debug Closed = ''Closed''"
| "stage_debug SshConnectFailed = ''SshConnectFailed''"
| "stage_debug BootCheckFailed = ''BootCheckFailed''"
| "stage_debug StartFailed = ''StartFailed''"
| "stage_debug SwactorJoinFailed = ''SwactorJoinFailed''"
| "stage_debug StreamError = ''StreamError''"
| "stage_debug Cancelled = ''Cancelled''"

definition record_failure :: "retry_policy \<Rightarrow> nat \<Rightarrow> operation_kind \<Rightarrow> effect_error \<Rightarrow> managed_node \<Rightarrow> managed_node" where
  "record_failure p now kind e n =
     (let ambiguous = (if ee_disposition e = Ambiguous \<and> kind \<in> {KCreateLease, KStartBootstrap} then Some kind else None);
          n1 = upd_retry (\<lambda>t. t\<lparr>ambiguous_operation := ambiguous\<rparr>) n in
      if kind = KBootstrapConvergenceObserved \<or> kind = KStartBootstrap \<and> ee_disposition e = Definite
        then mark_attempt_failed p now (reason e) n1
      else let failures = saturating_add (consecutive_failures (retry n1)) 1;
               n2 = upd_retry (\<lambda>t. t\<lparr>consecutive_failures := failures, last_error := Some (reason e)\<rparr>) n1 in
        if intent n2 = Deleting \<and> ambiguous = None \<and> kind \<notin> {KCancelBootstrap, KDestroyLease}
          then upd_retry (\<lambda>t. t\<lparr>next_effect_at := None\<rparr>) n2
        else upd_retry (\<lambda>t. t\<lparr>next_effect_at := time_checked_add now (sampled_retry_delay p (attempt n2) failures)\<rparr>) n2)"

fun operation_succeeded :: "retry_policy \<Rightarrow> nat \<Rightarrow> operation_outcome \<Rightarrow> managed_node \<Rightarrow> managed_node" where
  "operation_succeeded p now (LeaseCreated res) n =
     (case clr_endpoint res of
        Some e \<Rightarrow> upd_facts (\<lambda>r. r\<lparr>lease := Some (clr_lease res), connection := Some e, stage := EndpointKnown\<rparr>) n
      | None \<Rightarrow> upd_facts (\<lambda>r. r\<lparr>lease := Some (clr_lease res), stage := LeaseCreatedStage\<rparr>) n)"
| "operation_succeeded p now (EndpointLookup (Some e)) n =
     upd_facts (\<lambda>r. r\<lparr>connection := Some e, stage := EndpointKnown\<rparr>) n"
| "operation_succeeded p now (EndpointLookup None) n =
     upd_retry (\<lambda>t. t\<lparr>next_effect_at := time_checked_add now (endpoint_probe_interval p)\<rparr>) n"
| "operation_succeeded p now (BootstrapStarted session) n =
     upd_facts (\<lambda>r. r\<lparr>bootstrap := Some \<lparr>bf_session_id = session, last_stage = BsCreated, bf_stdout_seq = None,
         bf_stderr_seq = None, last_observed_at = now\<rparr>, stage := BootstrapRunning\<rparr>) (n\<lparr>active_bootstrap := Some session\<rparr>)"
| "operation_succeeded p now BootstrapConvergenceAccepted n = n"
| "operation_succeeded p now BootstrapCancelled n =
     upd_facts (\<lambda>r. r\<lparr>bootstrap := map_option (\<lambda>f. f\<lparr>last_stage := Cancelled, last_observed_at := now\<rparr>) (bootstrap r)\<rparr>)
       (n\<lparr>active_bootstrap := None\<rparr>)"
| "operation_succeeded p now LeaseDestroyed n = upd_facts (\<lambda>r. r\<lparr>lease := None, connection := None\<rparr>) n"

definition bootstrap_observed :: "retry_policy \<Rightarrow> nat \<Rightarrow> u64 \<Rightarrow> bootstrap_observation \<Rightarrow> managed_node \<Rightarrow> managed_node" where
  "bootstrap_observed p now session obs n =
     (let st = obs_stage obs;
          facts = (case bootstrap (node_facts n) of
            Some f \<Rightarrow> f
          | None \<Rightarrow> \<lparr>bf_session_id = session, last_stage = st, bf_stdout_seq = None, bf_stderr_seq = None,
              last_observed_at = now\<rparr>);
          facts' = facts\<lparr>last_stage := st, last_observed_at := now,
            bf_stdout_seq := (if obs_stdout_seq obs \<noteq> None then obs_stdout_seq obs else bf_stdout_seq facts),
            bf_stderr_seq := (if obs_stderr_seq obs \<noteq> None then obs_stderr_seq obs else bf_stderr_seq facts)\<rparr>;
          n1 = upd_facts (\<lambda>r. r\<lparr>bootstrap := Some facts'\<rparr>) n in
      if is_bootstrap_failure st then mark_attempt_failed p now (''bootstrap stage '' @ stage_debug st) n1
      else if st = Converged \<or> st = Closed then finish_bootstrap p now n1
      else if st = Cancelled then n1\<lparr>active_bootstrap := None\<rparr>
      else n1)"

fun is_bootstrap_event :: "node_observation \<Rightarrow> bool" where
  "is_bootstrap_event (OperationSucceeded _ _) = False"
| "is_bootstrap_event (OperationFailed _ _) = False"
| "is_bootstrap_event _ = True"

fun observe_event :: "retry_policy \<Rightarrow> nat \<Rightarrow> node_observation \<Rightarrow> managed_node \<Rightarrow> managed_node" where
  "observe_event p now (OperationSucceeded op outcome) n =
     (case pending n of
        None \<Rightarrow> n
      | Some q \<Rightarrow>
          if po_id q \<noteq> op \<or> po_kind q \<noteq> outcome_kind outcome then n
          else operation_succeeded p now outcome
            (upd_retry (\<lambda>t. t\<lparr>next_effect_at := None, ambiguous_operation := None\<rparr>) (n\<lparr>pending := None\<rparr>)))"
| "observe_event p now (OperationFailed op e) n =
     (case pending n of
        None \<Rightarrow> n
      | Some q \<Rightarrow> if po_id q \<noteq> op then n else record_failure p now (po_kind q) e (n\<lparr>pending := None\<rparr>))"
| "observe_event p now (BootstrapObserved session obs) n =
     (if active_bootstrap n \<noteq> Some session then n else bootstrap_observed p now session obs n)"
| "observe_event p now (BootstrapFailed session why) n =
     (if active_bootstrap n = Some session then mark_attempt_failed p now why n else n)"
| "observe_event p now (SwactorJoined session sw) n =
     (if active_bootstrap n \<noteq> Some session then n
      else upd_facts (\<lambda>r. r\<lparr>swactor := Some \<lparr>sw_id = sw, joined_at = now, handed_off_at = None\<rparr>,
        stage := SwactorJoinedStage\<rparr>) n)"
| "observe_event p now (BootstrapClosed session) n =
     (if active_bootstrap n = Some session then finish_bootstrap p now n else n)"

definition observe :: "retry_policy \<Rightarrow> nat \<Rightarrow> node_observation \<Rightarrow> managed_node \<Rightarrow> managed_node" where
  "observe p now ob n =
     (if stage (node_facts n) = Failed \<and> is_bootstrap_event ob then n else observe_event p now ob n)"

fun observation_matches :: "managed_node \<Rightarrow> node_observation \<Rightarrow> bool" where
  "observation_matches n (OperationSucceeded op outcome) \<longleftrightarrow>
     (case pending n of None \<Rightarrow> False | Some q \<Rightarrow> po_id q = op \<and> po_kind q = outcome_kind outcome)"
| "observation_matches n (OperationFailed op e) \<longleftrightarrow> (case pending n of None \<Rightarrow> False | Some q \<Rightarrow> po_id q = op)"
| "observation_matches n (BootstrapObserved session _) \<longleftrightarrow>
     stage (node_facts n) \<noteq> Failed \<and> active_bootstrap n = Some session"
| "observation_matches n (BootstrapFailed session _) \<longleftrightarrow>
     stage (node_facts n) \<noteq> Failed \<and> active_bootstrap n = Some session"
| "observation_matches n (SwactorJoined session _) \<longleftrightarrow>
     stage (node_facts n) \<noteq> Failed \<and> active_bootstrap n = Some session"
| "observation_matches n (BootstrapClosed session) \<longleftrightarrow>
     stage (node_facts n) \<noteq> Failed \<and> active_bootstrap n = Some session"

end
