(* ===== verification/Cluster_Driver.thy ===== *)
theory Cluster_Driver
  imports Reconciler
begin

text \<open>
  The acting half of \<open>crates/provisioning/src/reconciler.rs\<close>: \<open>ClusterDriver\<close>, the only writer of the observed
  state. The executor behind \<open>EffectExecutor\<close> is a parameter: its state and a function \<open>submit\<close> that accepts an
  effect or returns the text of an error. \<open>drive_until_blocked\<close> is a loop that need not end, so it is a partial
  function whose value is \<open>None\<close> exactly when the loop runs forever.
\<close>

section \<open>State\<close>

datatype driver_error =
    Shape shape_error
  | RunChanged u64 u64
  | GenerationRegressed u64 u64
  | ShapeChangedWithoutGeneration u64
  | ReentrantPass
  | AttemptAllocatorMismatch
  | OperationSequenceExhausted

record cluster_driver =
  driver_state :: cluster_state
  driver_desired :: cluster_shape
  expanded_desired :: "(string \<times> logical_node_spec) list"
  driver_retry :: retry_policy
  queued :: bool
  processing :: bool
  dirty :: bool
  requeue_at :: "nat option"

type_synonym 'e submit_fun = "planned_effect \<Rightarrow> 'e \<Rightarrow> string option \<times> 'e"

definition driver_new :: "cluster_shape \<Rightarrow> retry_policy \<Rightarrow> driver_error + cluster_driver" where
  "driver_new c p =
     (case expand c of
        Inl e \<Rightarrow> Inl (Shape e)
      | Inr des \<Rightarrow> Inr \<lparr>driver_state = cluster_state_default, driver_desired = c, expanded_desired = des, driver_retry = p,
          queued = True, processing = False, dirty = False, requeue_at = None\<rparr>)"

definition driver_trigger :: "cluster_driver \<Rightarrow> cluster_driver" where
  "driver_trigger d = (if processing d then d\<lparr>dirty := True\<rparr> else d\<lparr>queued := True\<rparr>)"

definition update_desired :: "cluster_shape \<Rightarrow> cluster_driver \<Rightarrow> driver_error option \<times> cluster_driver" where
  "update_desired c d =
     (let old = driver_desired d in
      if cs_run_id c \<noteq> cs_run_id old then (Some (RunChanged (cs_run_id old) (cs_run_id c)), d)
      else if cs_generation c < cs_generation old then (Some (GenerationRegressed (cs_generation old) (cs_generation c)), d)
      else case expand c of
        Inl e \<Rightarrow> (Some (Shape e), d)
      | Inr des \<Rightarrow>
          if cs_generation c = cs_generation old \<and> c \<noteq> old then (Some (ShapeChangedWithoutGeneration (cs_generation c)), d)
          else (None, driver_trigger (d\<lparr>driver_desired := c, expanded_desired := des\<rparr>)))"

definition trigger_if_due :: "nat \<Rightarrow> cluster_driver \<Rightarrow> bool \<times> cluster_driver" where
  "trigger_if_due now d =
     (if \<exists>t\<in>set_option (requeue_at d). t \<le> now then (True, driver_trigger (d\<lparr>requeue_at := None\<rparr>)) else (False, d))"

definition pending_operations_due :: "nat \<Rightarrow> cluster_driver \<Rightarrow> planned_operation list" where
  "pending_operations_due now d =
     List.map_filter (\<lambda>(k, n). Option.bind (pending n) (\<lambda>q.
       if po_deadline q \<le> now
         then Some \<lparr>plo_node = k, plo_operation = po_id q, plo_kind = po_kind q, plo_deadline = po_deadline q\<rparr>
         else None)) (nodes (driver_state d))"

section \<open>Folding observations\<close>

abbreviation put_node :: "string \<Rightarrow> managed_node \<Rightarrow> cluster_driver \<Rightarrow> cluster_driver" where
  "put_node k n d \<equiv> d\<lparr>driver_state := (driver_state d)\<lparr>nodes := bt_insert k n (nodes (driver_state d))\<rparr>\<rparr>"

abbreviation node_at :: "cluster_driver \<Rightarrow> string \<Rightarrow> managed_node option" where
  "node_at d k \<equiv> map_of (nodes (driver_state d)) k"

definition apply_observation :: "string \<Rightarrow> u64 \<Rightarrow> node_observation \<Rightarrow> nat \<Rightarrow> cluster_driver \<Rightarrow> bool \<times> cluster_driver" where
  "apply_observation k a ob now d =
     (case node_at d k of
        None \<Rightarrow> (False, d)
      | Some n \<Rightarrow>
          if attempt n \<noteq> a \<or> \<not> observation_matches n ob then (False, d)
          else (True, driver_trigger (put_node k (observe (driver_retry d) now ob n) d)))"

definition operation_timed_out :: "planned_operation \<Rightarrow> string \<Rightarrow> nat \<Rightarrow> cluster_driver \<Rightarrow> bool \<times> cluster_driver" where
  "operation_timed_out op why now d =
     apply_observation (plo_node op) (op_attempt (plo_operation op))
       (OperationFailed (plo_operation op) \<lparr>reason = why, ee_disposition = Ambiguous\<rparr>) now d"

definition apply_executor_result :: "executor_result \<Rightarrow> nat \<Rightarrow> cluster_driver \<Rightarrow> bool \<times> cluster_driver" where
  "apply_executor_result res now d =
     apply_observation (er_node res) (op_attempt (er_operation res))
       (case er_result res of
          Inr outcome \<Rightarrow> OperationSucceeded (er_operation res) outcome
        | Inl e \<Rightarrow> OperationFailed (er_operation res) e) now d"

definition submission_failed :: "planned_effect \<Rightarrow> string \<Rightarrow> nat \<Rightarrow> cluster_driver \<Rightarrow> bool \<times> cluster_driver" where
  "submission_failed eff why now d =
     apply_observation (eff_node eff) (op_attempt (eff_operation eff))
       (OperationFailed (eff_operation eff) \<lparr>reason = why, ee_disposition = Definite\<rparr>) now d"

section \<open>Applying a plan\<close>

fun allocated_attempt :: "node_action \<Rightarrow> u64 option" where
  "allocated_attempt (Insert a _) = Some a"
| "allocated_attempt (Restart _ _ a _) = Some a"
| "allocated_attempt _ = None"

definition current_node :: "string \<Rightarrow> u64 \<Rightarrow> cluster_driver \<Rightarrow> managed_node option" where
  "current_node k a d = (case node_at d k of Some n \<Rightarrow> if attempt n = a then Some n else None | None \<Rightarrow> None)"

definition mark_dirty :: "cluster_driver \<Rightarrow> cluster_driver" where
  "mark_dirty d = d\<lparr>dirty := True\<rparr>"

definition set_next_attempt :: "u64 \<Rightarrow> cluster_driver \<Rightarrow> cluster_driver" where
  "set_next_attempt a d = d\<lparr>driver_state := (driver_state d)\<lparr>next_attempt_id := a\<rparr>\<rparr>"

definition begin_delete :: "managed_node \<Rightarrow> managed_node" where
  "begin_delete n =
     upd_retry (\<lambda>t. if ambiguous_operation t = None then t\<lparr>next_effect_at := None\<rparr> else t)
       (upd_facts (\<lambda>r. r\<lparr>ready := False\<rparr>) (n\<lparr>intent := Deleting\<rparr>))"

definition mark_destroyed :: "nat \<Rightarrow> managed_node \<Rightarrow> managed_node" where
  "mark_destroyed now n = upd_facts (\<lambda>r. r\<lparr>stage := Destroyed, ready := False, destroyed_at := Some now\<rparr>) n"

definition replacement :: "managed_node \<Rightarrow> u64 \<Rightarrow> logical_node_spec \<Rightarrow> managed_node" where
  "replacement old a spec =
     upd_retry (\<lambda>t. t\<lparr>consecutive_failures := consecutive_failures (retry old)\<rparr>) (managed_node_new a spec)"

definition operation_deadline :: "retry_policy \<Rightarrow> nat \<Rightarrow> nat" where
  "operation_deadline p now = (case time_checked_add now (operation_timeout p) of Some t \<Rightarrow> t | None \<Rightarrow> now)"

definition dispatched :: "retry_policy \<Rightarrow> nat \<Rightarrow> operation_id \<Rightarrow> node_manager_command \<Rightarrow> u64 \<Rightarrow> managed_node \<Rightarrow> managed_node" where
  "dispatched p now op command next n =
     (let n' = n\<lparr>pending := Some \<lparr>po_id = op, po_kind = for_command command, po_deadline = operation_deadline p now\<rparr>,
            next_operation_sequence := next\<rparr> in
      if for_command command = KCreateLease then upd_facts (\<lambda>r. r\<lparr>stage := LeaseRequested\<rparr>) n' else n')"

fun apply_action :: "nat \<Rightarrow> node_action \<Rightarrow> cluster_driver \<Rightarrow> (driver_error + planned_effect option) \<times> cluster_driver" where
  "apply_action now (Insert a spec) d =
     (if a \<noteq> next_attempt_id (driver_state d) \<or> node_at d (spec_id spec) \<noteq> None then (Inr None, mark_dirty d)
      else case checked_add (next_attempt_id (driver_state d)) 1 of
        None \<Rightarrow> (Inl AttemptAllocatorMismatch, d)
      | Some next \<Rightarrow> (Inr None, mark_dirty (put_node (spec_id spec) (managed_node_new a spec) (set_next_attempt next d))))"
| "apply_action now (BeginDelete k a) d =
     (case current_node k a d of
        None \<Rightarrow> (Inr None, mark_dirty d)
      | Some n \<Rightarrow> (Inr None, mark_dirty (put_node k (begin_delete n) d)))"
| "apply_action now (MarkDestroyed k a) d =
     (case current_node k a d of
        None \<Rightarrow> (Inr None, mark_dirty d)
      | Some n \<Rightarrow>
          if pending n \<noteq> None \<or> active_bootstrap n \<noteq> None \<or> lease (node_facts n) \<noteq> None then (Inr None, mark_dirty d)
          else (Inr None, mark_dirty (put_node k (mark_destroyed now n) d)))"
| "apply_action now (Restart k a a' spec) d =
     (if a' \<noteq> next_attempt_id (driver_state d) then (Inr None, mark_dirty d)
      else case node_at d k of
        None \<Rightarrow> (Inr None, mark_dirty d)
      | Some old \<Rightarrow>
          if attempt old \<noteq> a \<or> stage (node_facts old) \<noteq> Destroyed then (Inr None, mark_dirty d)
          else (case checked_add (next_attempt_id (driver_state d)) 1 of
            None \<Rightarrow> (Inl AttemptAllocatorMismatch, d)
          | Some next \<Rightarrow> (Inr None, mark_dirty (put_node k (replacement old a' spec) (set_next_attempt next d)))))"
| "apply_action now (Reap k a) d =
     (case node_at d k of
        Some n \<Rightarrow>
          if attempt n = a \<and> stage (node_facts n) = Destroyed
            then (Inr None, d\<lparr>driver_state := (driver_state d)\<lparr>nodes := bt_remove k (nodes (driver_state d))\<rparr>\<rparr>)
            else (Inr None, mark_dirty d)
      | None \<Rightarrow> (Inr None, mark_dirty d))"
| "apply_action now (Dispatch eff) d =
     (case current_node (eff_node eff) (op_attempt (eff_operation eff)) d of
        None \<Rightarrow> (Inr None, mark_dirty d)
      | Some n \<Rightarrow>
          if pending n \<noteq> None \<or> next_operation_sequence n \<noteq> op_sequence (eff_operation eff) then (Inr None, mark_dirty d)
          else (case checked_add (next_operation_sequence n) 1 of
            None \<Rightarrow> (Inl OperationSequenceExhausted, d)
          | Some next \<Rightarrow>
              (Inr (Some eff),
               (put_node (eff_node eff) (dispatched (driver_retry d) now (eff_operation eff) (eff_command eff) next n) d)
                 \<lparr>requeue_at := earliest (requeue_at d) (Some (operation_deadline (driver_retry d) now))\<rparr>)))"

fun apply_actions :: "nat \<Rightarrow> node_action list \<Rightarrow> bool \<Rightarrow> cluster_driver
    \<Rightarrow> (driver_error + planned_effect list) \<times> cluster_driver" where
  "apply_actions now [] valid d = (Inr [], d)"
| "apply_actions now (a # as) valid d =
     (if \<exists>n\<in>set_option (allocated_attempt a). \<not> valid \<or> n \<noteq> next_attempt_id (driver_state d)
      then apply_actions now as False (mark_dirty d)
      else case apply_action now a d of
        (Inl e, d') \<Rightarrow> (Inl e, d')
      | (Inr eff, d') \<Rightarrow>
          (case apply_actions now as valid d' of
             (Inl e, d'') \<Rightarrow> (Inl e, d'')
           | (Inr effs, d'') \<Rightarrow> (Inr (case eff of Some x \<Rightarrow> x # effs | None \<Rightarrow> effs), d'')))"

definition run_pass :: "nat \<Rightarrow> cluster_driver \<Rightarrow> (driver_error + planned_effect list) \<times> cluster_driver" where
  "run_pass now d =
     (case reconcile (driver_state d) (driver_desired d) now of
        Inl e \<Rightarrow> (Inl (Shape e), d)
      | Inr plan \<Rightarrow>
          (case apply_actions now (plan_actions plan) True (d\<lparr>requeue_at := plan_requeue_at plan\<rparr>) of
             (Inl e, d') \<Rightarrow> (Inl e, d')
           | (Inr effs, d') \<Rightarrow>
               (Inr effs, d'\<lparr>driver_state := (driver_state d')\<lparr>observed_generation := plan_generation plan\<rparr>\<rparr>)))"

section \<open>Driving\<close>

fun submit_effects :: "'e submit_fun \<Rightarrow> nat \<Rightarrow> planned_effect list \<Rightarrow> cluster_driver \<Rightarrow> 'e \<Rightarrow> u64
    \<Rightarrow> u64 \<times> cluster_driver \<times> 'e" where
  "submit_effects submit now [] d e count = (count, d, e)"
| "submit_effects submit now (eff # effs) d e count =
     (case submit eff e of
        (None, e') \<Rightarrow> submit_effects submit now effs d e' (saturating_add count 1)
      | (Some err, e') \<Rightarrow>
          submit_effects submit now effs (snd (submission_failed eff (''executor submission failed: '' @ err) now d)) e' count)"

definition finish_drive :: "cluster_driver \<Rightarrow> cluster_driver" where
  "finish_drive d = (let d1 = d\<lparr>processing := False\<rparr> in if dirty d1 then d1\<lparr>dirty := False, queued := True\<rparr> else d1)"

definition drive_next :: "'e submit_fun \<Rightarrow> nat \<Rightarrow> cluster_driver \<Rightarrow> 'e \<Rightarrow> (driver_error + u64) \<times> cluster_driver \<times> 'e" where
  "drive_next submit now d e =
     (if processing d then (Inl ReentrantPass, d, e)
      else if \<not> queued d then (Inr 0, d, e)
      else case run_pass now (d\<lparr>queued := False, processing := True\<rparr>) of
        (Inl err, d1) \<Rightarrow> (Inl err, finish_drive d1, e)
      | (Inr effs, d1) \<Rightarrow>
          (case submit_effects submit now effs d1 e 0 of (count, d2, e') \<Rightarrow> (Inr count, finish_drive d2, e')))"

partial_function (option) drive_loop :: "'e submit_fun \<Rightarrow> nat \<Rightarrow> cluster_driver \<Rightarrow> 'e \<Rightarrow> u64
    \<Rightarrow> ((driver_error + u64) \<times> cluster_driver \<times> 'e) option" where
  "drive_loop submit now d e submitted =
     (if \<not> queued d then Some (Inr submitted, d, e)
      else case drive_next submit now d e of
        (Inl err, d', e') \<Rightarrow> Some (Inl err, d', e')
      | (Inr count, d', e') \<Rightarrow> drive_loop submit now d' e' (saturating_add submitted count))"

definition drive_until_blocked :: "'e submit_fun \<Rightarrow> nat \<Rightarrow> cluster_driver \<Rightarrow> 'e
    \<Rightarrow> ((driver_error + u64) \<times> cluster_driver \<times> 'e) option" where
  "drive_until_blocked submit now d e = drive_loop submit now d e 0"

definition is_converged :: "cluster_driver \<Rightarrow> bool" where
  "is_converged d \<longleftrightarrow>
     observed_generation (driver_state d) = cs_generation (driver_desired d) \<and>
     length (nodes (driver_state d)) = length (expanded_desired d) \<and>
     list_all (\<lambda>(k, spec). case node_at d k of
         None \<Rightarrow> False
       | Some n \<Rightarrow> intent n = Active \<and> desired_spec (node_facts n) = spec \<and> ready (node_facts n) \<and> pending n = None)
       (expanded_desired d)"

end
