(* ===== verification/Shape_Expansion.thy ===== *)
theory Shape_Expansion
  imports Cluster_Driver
begin

text \<open>
  Expansion of a cluster shape: exactly the shapes whose groups belong to the run, have distinct names and ask
  for finite figures expand, and they expand to one specification per slot. The duplicate-node error of the code
  cannot arise, because a slot name determines its group and its index.
\<close>

definition valid_shape :: "cluster_shape \<Rightarrow> bool" where
  "valid_shape c \<longleftrightarrow>
     (\<forall>g\<in>set (cs_groups c). grp_run_id g = cs_run_id c \<and> non_finite_field (grp_shape g) = None) \<and>
     distinct (map grp_id (cs_groups c))"

definition slot_specs :: "run_node_group_spec list \<Rightarrow> logical_node_spec set" where
  "slot_specs gs = {group_node g i |g i. g \<in> set gs \<and> i < unat (grp_count g)}"

lemma spec_id_group_node [simp]: "spec_id (group_node g i) = node_slot_id (grp_id g) i"
  by (simp add: group_node_def)

lemma slot_specs_simps [simp]:
  "slot_specs [] = {}"
  "slot_specs (g # gs) = group_node g ` {..<unat (grp_count g)} \<union> slot_specs gs"
  by (auto simp: slot_specs_def)

text \<open>Inserting fresh specifications never meets a duplicate.\<close>

lemma insert_specs_fresh:
  assumes "bt_inv m" and "distinct (map spec_id ss)" and "\<forall>s\<in>set ss. map_of m (spec_id s) = None"
  shows "\<exists>m'. insert_specs ss m = Inr m' \<and> bt_inv m' \<and>
    (\<forall>k s. map_of m' k = Some s \<longleftrightarrow> map_of m k = Some s \<or> s \<in> set ss \<and> k = spec_id s)"
  using assms
proof (induction ss arbitrary: m)
  case Nil
  then show ?case by simp
next
  case (Cons s ss)
  let ?m = "bt_insert (spec_id s) s m"
  have "\<exists>m'. insert_specs ss ?m = Inr m' \<and> bt_inv m' \<and>
      (\<forall>k t. map_of m' k = Some t \<longleftrightarrow> map_of ?m k = Some t \<or> t \<in> set ss \<and> k = spec_id t)"
    using Cons.prems by (intro Cons.IH) (auto simp: image_iff)
  then show ?case
    using Cons.prems by (auto split: if_splits) (metis option.distinct(1))+
qed

lemma expand_groups_spec:
  assumes "bt_inv m" and "\<And>k. map_of m k \<noteq> None \<Longrightarrow> \<exists>g\<in>set seen. \<exists>i. k = node_slot_id g i"
  shows "case expand_groups run gs seen m of
      Inl e \<Rightarrow> (\<forall>k. e \<noteq> DuplicateLogicalNode k) \<and>
        \<not> ((\<forall>g\<in>set gs. grp_run_id g = run \<and> non_finite_field (grp_shape g) = None \<and> grp_id g \<notin> set seen) \<and> distinct (map grp_id gs))
    | Inr m' \<Rightarrow> (\<forall>g\<in>set gs. grp_run_id g = run \<and> non_finite_field (grp_shape g) = None \<and> grp_id g \<notin> set seen) \<and>
        distinct (map grp_id gs) \<and> bt_inv m' \<and>
        (\<forall>k s. map_of m' k = Some s \<longleftrightarrow> map_of m k = Some s \<or> s \<in> slot_specs gs \<and> k = spec_id s)"
  using assms
proof (induction run gs seen m rule: expand_groups.induct)
  case (1 run seen m)
  then show ?case by simp
next
  case (2 run g gs seen m)
  show ?case
  proof (cases "grp_run_id g = run \<and> grp_id g \<notin> set seen \<and> non_finite_field (grp_shape g) = None")
    case False
    then show ?thesis by (auto split: option.split)
  next
    case True
    have fresh: "map_of m (node_slot_id (grp_id g) i) = None" for i
      using 2(3) [of "node_slot_id (grp_id g) i"] True by (cases "map_of m (node_slot_id (grp_id g) i)") auto
    have "distinct (map spec_id (expand_node_group g))"
      by (simp add: expand_node_group_def distinct_map inj_on_def)
    then obtain m' where m': "insert_specs (expand_node_group g) m = Inr m'" "bt_inv m'"
      "\<And>k s. map_of m' k = Some s \<longleftrightarrow> map_of m k = Some s \<or> s \<in> set (expand_node_group g) \<and> k = spec_id s"
      using insert_specs_fresh [OF 2(2), of "expand_node_group g"] fresh
      by (auto simp: expand_node_group_def)
    have keys: "\<exists>h\<in>set (grp_id g # seen). \<exists>i. k = node_slot_id h i" if "map_of m' k \<noteq> None" for k
      using that m'(3) 2(3) [of k] by (auto simp: expand_node_group_def)
    have "expand_groups run (g # gs) seen m = expand_groups run gs (grp_id g # seen) m'"
      using True m'(1) by simp
    with 2(1) [of m'] True m' keys show ?thesis
      by (auto split: sum.splits simp: expand_node_group_def atLeast0LessThan image_iff) metis
  qed
qed

lemma expand_valid:
  "case expand c of
      Inl e \<Rightarrow> (\<forall>k. e \<noteq> DuplicateLogicalNode k) \<and> \<not> valid_shape c
    | Inr m \<Rightarrow> valid_shape c \<and> bt_inv m \<and> (\<forall>k s. map_of m k = Some s \<longleftrightarrow> s \<in> slot_specs (cs_groups c) \<and> k = spec_id s)"
  using expand_groups_spec [where m = "[]" and seen = "[]" and run = "cs_run_id c" and gs = "cs_groups c"]
  by (auto simp: expand_def valid_shape_def split: sum.splits)

lemma expand_keyed: "expand c = Inr m \<Longrightarrow> map_of m k = Some s \<Longrightarrow> spec_id s = k"
  using expand_valid [of c] by auto

lemma expand_sorted: "expand c = Inr m \<Longrightarrow> bt_inv m"
  using expand_valid [of c] by auto

section \<open>Exact expansion\<close>

text \<open>A shape to instantiate the theorems with.\<close>

definition sample_group :: "string \<Rightarrow> u32 \<Rightarrow> run_node_group_spec" where
  "sample_group name slots =
     \<lparr>grp_run_id = 7, grp_id = name, grp_role = ''worker'', grp_count = slots, grp_provider = ''docker'',
      grp_shape = \<lparr>image = ''img'', disk_gb = 1, gpu_name = None, min_gpu_ram_mb = None, min_down_mbps = None,
        min_up_mbps = None, min_reliability = None, require_verified = False, provider_labels = []\<rparr>,
      grp_boot = \<lparr>ssh_user = ''root'', verify_commands = [], start_swactor_command = ''run'', stdout_sources = [],
        stderr_sources = [], boot_env = [], boot_args = [], mounts = []\<rparr>,
      grp_swarm_join = \<lparr>sjt_orch_swactor_addr = ''addr'', sjt_join_token_ref = ''token''\<rparr>\<rparr>"

definition sample_shape :: "u64 \<Rightarrow> run_node_group_spec list \<Rightarrow> cluster_shape" where
  "sample_shape gen groups = \<lparr>cs_run_id = 7, cs_generation = gen, cs_groups = groups\<rparr>"

lemma sample_group_fields [simp]:
  "grp_run_id (sample_group g c) = 7" "grp_id (sample_group g c) = g" "grp_count (sample_group g c) = c"
  "non_finite_field (grp_shape (sample_group g c)) = None"
  by (simp_all add: sample_group_def non_finite_field_def)

text \<open>C35. Expansion of a shape is exact. \<open>expand\<close> succeeds for exactly the shapes whose groups carry the run's
  identifier, have distinct names and ask for finite figures; the result is sorted by slot name and holds exactly one
  specification for every slot of every group, under the name of that slot. The error for a duplicate logical node is
  never returned.\<close>

theorem expansion_is_exact:
  "case expand c of
      Inl e \<Rightarrow> (\<forall>k. e \<noteq> DuplicateLogicalNode k) \<and>
        ((\<exists>g\<in>set (cs_groups c). grp_run_id g \<noteq> cs_run_id c \<or> non_finite_field (grp_shape g) \<noteq> None) \<or>
         \<not> distinct (map grp_id (cs_groups c)))
    | Inr m \<Rightarrow> (\<forall>g\<in>set (cs_groups c). grp_run_id g = cs_run_id c \<and> non_finite_field (grp_shape g) = None) \<and>
        distinct (map grp_id (cs_groups c)) \<and> bt_inv m \<and>
        (\<forall>k s. map_of m k = Some s \<longleftrightarrow>
          (\<exists>g\<in>set (cs_groups c). \<exists>i < unat (grp_count g). s = group_node g i \<and> k = node_slot_id (grp_id g) i))"
  using expand_valid [of c] by (auto simp: valid_shape_def slot_specs_def split: sum.splits)

theorem expansion_is_exact_witness:
  "(\<exists>m. expand (sample_shape 1 [sample_group ''g'' 2]) = Inr m \<and>
      map_of m (node_slot_id ''g'' 1) = Some (group_node (sample_group ''g'' 2) 1) \<and> (\<forall>s. map_of m (node_slot_id ''g'' 2) \<noteq> Some s)) \<and>
   (\<exists>e. expand (sample_shape 1 [sample_group ''g'' 1, sample_group ''g'' 2]) = Inl e)"
proof
  show "\<exists>m. expand (sample_shape 1 [sample_group ''g'' 2]) = Inr m \<and>
      map_of m (node_slot_id ''g'' 1) = Some (group_node (sample_group ''g'' 2) 1) \<and> (\<forall>s. map_of m (node_slot_id ''g'' 2) \<noteq> Some s)"
    using expansion_is_exact [of "sample_shape 1 [sample_group ''g'' 2]"]
    by (auto simp: sample_shape_def simp del: not_Some_eq split: sum.splits)
  show "\<exists>e. expand (sample_shape 1 [sample_group ''g'' 1, sample_group ''g'' 2]) = Inl e"
    using expansion_is_exact [of "sample_shape 1 [sample_group ''g'' 1, sample_group ''g'' 2]"]
    by (auto simp: sample_shape_def split: sum.splits)
qed

end
