(* ===== verification/Driver_Pass.thy ===== *)
theory Driver_Pass
  imports Shape_Expansion
begin

text \<open>
  One pass of the driver, slot by slot. The plan is made from the state before the pass and applied action by
  action to a changing state; the lemmas here show that the outcome is the same as if every slot had been
  stepped alone, so that everything else about the driver is a statement about one slot.
\<close>

section \<open>What is decided\<close>

lemma active_only_dispatches: "nd_action (decide_active n now) = Some a \<Longrightarrow> \<exists>c. a = DDispatch c"
  by (auto simp: decide_active_def act_def wait_def Let_def split: option.splits if_splits)

lemma cleanup_decides:
  "nd_action (decide_cleanup n) = Some DMarkDestroyed \<longleftrightarrow> active_bootstrap n = None \<and> lease (node_facts n) = None"
  "nd_action (decide_cleanup n) = Some a \<Longrightarrow> a = DMarkDestroyed \<or> (\<exists>c. a = DDispatch c)"
  by (auto simp: decide_cleanup_def act_def split: option.splits if_splits)

lemma deleting_decides:
  "nd_action (decide_deleting n now) = Some a \<Longrightarrow> a = DMarkDestroyed \<or> (\<exists>c. a = DDispatch c)"
  using cleanup_decides(2) [of n a]
  by (auto simp: decide_deleting_def act_def wait_def split: option.splits if_splits)

lemma deleting_marks_destroyed:
  "nd_action (decide_deleting n now) = Some DMarkDestroyed \<longleftrightarrow>
     \<not> not_due now (next_effect_at (retry n)) \<and> ambiguous_operation (retry n) \<noteq> Some KCreateLease \<and>
     active_bootstrap n = None \<and> lease (node_facts n) = None"
  by (auto simp: decide_deleting_def act_def wait_def cleanup_decides(1) start_bootstrap_command_def bind_eq_Some_conv
    split: option.splits if_splits)

lemmas decides_simps = reconcile_node_def decide_destroyed_def act_def wait_def

lemma decides_reap:
  "nd_action (reconcile_node n ds now) = Some DReap \<longleftrightarrow> stage (node_facts n) = Destroyed \<and> ds = None"
  using active_only_dispatches [of n now DReap] deleting_decides [of n now DReap]
  by (auto simp: decides_simps split: option.splits)

lemma decides_restart:
  "nd_action (reconcile_node n ds now) = Some (DRestart s) \<longleftrightarrow>
     stage (node_facts n) = Destroyed \<and> ds = Some s \<and> \<not> not_due now (restart_at (retry n))"
  using active_only_dispatches [of n now "DRestart s"] deleting_decides [of n now "DRestart s"]
  by (auto simp: decides_simps split: option.splits)

lemma decides_begin_delete:
  "nd_action (reconcile_node n ds now) = Some DBeginDelete \<longleftrightarrow>
     stage (node_facts n) \<noteq> Destroyed \<and> intent n = Active \<and>
     (ds \<noteq> Some (desired_spec (node_facts n)) \<or> stage (node_facts n) = Failed)"
  using active_only_dispatches [of n now DBeginDelete] deleting_decides [of n now DBeginDelete]
  by (auto simp: decides_simps split: option.splits)

lemma decides_mark_destroyed:
  "nd_action (reconcile_node n ds now) = Some DMarkDestroyed \<longleftrightarrow>
     stage (node_facts n) \<noteq> Destroyed \<and> intent n = Deleting \<and> pending n = None \<and>
     nd_action (decide_deleting n now) = Some DMarkDestroyed"
  using active_only_dispatches [of n now DMarkDestroyed]
  by (cases "intent n") (auto simp: decides_simps split: option.splits)

lemma decides_dispatch:
  "nd_action (reconcile_node n ds now) = Some (DDispatch c) \<longleftrightarrow>
     stage (node_facts n) \<noteq> Destroyed \<and> pending n = None \<and>
     (intent n = Deleting \<and> nd_action (decide_deleting n now) = Some (DDispatch c) \<or>
      intent n = Active \<and> ds = Some (desired_spec (node_facts n)) \<and> stage (node_facts n) \<noteq> Failed \<and>
        nd_action (decide_active n now) = Some (DDispatch c))"
  by (cases "intent n") (auto simp: decides_simps split: option.splits)

section \<open>One slot\<close>

definition next_op :: "managed_node \<Rightarrow> operation_id" where
  "next_op n = OperationId (attempt n) (next_operation_sequence n)"

fun slot_step :: "retry_policy \<Rightarrow> nat \<Rightarrow> u64 \<Rightarrow> managed_node option \<Rightarrow> logical_node_spec option \<Rightarrow> managed_node option" where
  "slot_step p now a None ds = map_option (managed_node_new a) ds"
| "slot_step p now a (Some n) ds =
     (case nd_action (reconcile_node n ds now) of
        None \<Rightarrow> Some n
      | Some DBeginDelete \<Rightarrow> Some (begin_delete n)
      | Some DMarkDestroyed \<Rightarrow> Some (mark_destroyed now n)
      | Some (DRestart s) \<Rightarrow> Some (replacement n a s)
      | Some DReap \<Rightarrow> None
      | Some (DDispatch c) \<Rightarrow> Some (dispatched p now (next_op n) c (next_operation_sequence n + 1) n))"

fun slot_allocates :: "nat \<Rightarrow> managed_node option \<Rightarrow> logical_node_spec option \<Rightarrow> bool" where
  "slot_allocates now None ds \<longleftrightarrow> ds \<noteq> None"
| "slot_allocates now (Some n) ds \<longleftrightarrow> (\<exists>s. nd_action (reconcile_node n ds now) = Some (DRestart s))"

fun slot_dirty :: "nat \<Rightarrow> managed_node option \<Rightarrow> logical_node_spec option \<Rightarrow> bool" where
  "slot_dirty now None ds \<longleftrightarrow> ds \<noteq> None"
| "slot_dirty now (Some n) ds \<longleftrightarrow>
     (case nd_action (reconcile_node n ds now) of
        None \<Rightarrow> False | Some DReap \<Rightarrow> False | Some (DDispatch c) \<Rightarrow> False | Some _ \<Rightarrow> True)"

fun slot_effect :: "nat \<Rightarrow> string \<Rightarrow> managed_node option \<Rightarrow> logical_node_spec option \<Rightarrow> planned_effect option" where
  "slot_effect now k None ds = None"
| "slot_effect now k (Some n) ds =
     (case nd_action (reconcile_node n ds now) of
        Some (DDispatch c) \<Rightarrow> Some \<lparr>eff_node = k, eff_operation = next_op n, eff_command = c\<rparr>
      | _ \<Rightarrow> None)"

fun slot_numbered :: "nat \<Rightarrow> managed_node option \<Rightarrow> logical_node_spec option \<Rightarrow> bool" where
  "slot_numbered now None ds \<longleftrightarrow> True"
| "slot_numbered now (Some n) ds \<longleftrightarrow>
     (\<forall>c. nd_action (reconcile_node n ds now) = Some (DDispatch c) \<longrightarrow> next_operation_sequence n < next_operation_sequence n + 1)"

section \<open>All slots\<close>

definition same_frame :: "cluster_driver \<Rightarrow> cluster_driver \<Rightarrow> bool" where
  "same_frame d d' \<longleftrightarrow>
     driver_desired d' = driver_desired d \<and> expanded_desired d' = expanded_desired d \<and> driver_retry d' = driver_retry d \<and>
     queued d' = queued d \<and> processing d' = processing d"

definition slots_stepped :: "nat \<Rightarrow> (string \<times> logical_node_spec) list \<Rightarrow> string set \<Rightarrow> (string \<Rightarrow> u64)
    \<Rightarrow> cluster_driver \<Rightarrow> cluster_driver \<Rightarrow> bool" where
  "slots_stepped now des K alloc d d' \<longleftrightarrow>
     (\<forall>k. node_at d' k =
        (if k \<in> K then slot_step (driver_retry d) now (alloc k) (node_at d k) (map_of des k) else node_at d k)) \<and>
     next_attempt_id (driver_state d) \<le> next_attempt_id (driver_state d') \<and>
     (\<forall>k\<in>K. slot_allocates now (node_at d k) (map_of des k) \<longrightarrow>
        next_attempt_id (driver_state d) \<le> alloc k \<and> alloc k < next_attempt_id (driver_state d')) \<and>
     inj_on alloc {k \<in> K. slot_allocates now (node_at d k) (map_of des k)} \<and>
     (\<forall>k\<in>K. slot_numbered now (node_at d k) (map_of des k)) \<and>
     (dirty d' \<longleftrightarrow> dirty d \<or> (\<exists>k\<in>K. slot_dirty now (node_at d k) (map_of des k))) \<and>
     (bt_inv (nodes (driver_state d)) \<longrightarrow> bt_inv (nodes (driver_state d'))) \<and> same_frame d d'"

definition slot_effects :: "nat \<Rightarrow> (string \<times> logical_node_spec) list \<Rightarrow> string list \<Rightarrow> cluster_driver \<Rightarrow> planned_effect list" where
  "slot_effects now des ks d = List.map_filter (\<lambda>k. slot_effect now k (node_at d k) (map_of des k)) ks"

lemma slots_stepped_none [simp]: "slots_stepped now des {} alloc d d"
  by (simp add: slots_stepped_def same_frame_def)

text \<open>Stepping one slot and then others is stepping them all.\<close>

lemma slots_stepped_insert:
  assumes one: "slots_stepped now des {k} (\<lambda>_. a) d d1" and rest: "slots_stepped now des K alloc d1 d2" and k: "k \<notin> K"
  shows "slots_stepped now des (insert k K) (alloc(k := a)) d d2"
proof -
  have same: "node_at d1 k' = node_at d k'" if "k' \<noteq> k" for k'
    using one that by (simp add: slots_stepped_def)
  have on_K: "node_at d1 k' = node_at d k'" if "k' \<in> K" for k'
    using k that by (intro same) auto
  have retry_eq: "driver_retry d1 = driver_retry d"
    using one by (simp add: slots_stepped_def same_frame_def)
  let ?al = "\<lambda>k. slot_allocates now (node_at d k) (map_of des k)"
  have al: "{k' \<in> K. slot_allocates now (node_at d1 k') (map_of des k')} = {k' \<in> K. ?al k'}"
    using on_K by auto
  have inj: "inj_on alloc {k' \<in> K. ?al k'}"
    using rest al by (simp add: slots_stepped_def)
  have low: "next_attempt_id (driver_state d1) \<le> alloc k'" "alloc k' < next_attempt_id (driver_state d2)"
    if "k' \<in> K" "?al k'" for k'
    using rest that on_K by (auto simp: slots_stepped_def)
  have hi: "next_attempt_id (driver_state d) \<le> a \<and> a < next_attempt_id (driver_state d1)" if "?al k"
    using one that by (auto simp: slots_stepped_def)
  have "a \<noteq> alloc k'" if "k' \<in> K" "?al k'" "?al k" for k'
    using low(1) [OF that(1,2)] hi [OF that(3)] by (metis not_le)
  then have injs: "inj_on (alloc(k := a)) {k' \<in> insert k K. ?al k'}"
    using inj k by (auto simp: inj_on_def)
  have le: "next_attempt_id (driver_state d) \<le> next_attempt_id (driver_state d1)"
    "next_attempt_id (driver_state d1) \<le> next_attempt_id (driver_state d2)"
    using one rest by (simp_all add: slots_stepped_def)
  have range: "next_attempt_id (driver_state d) \<le> (alloc(k := a)) k' \<and> (alloc(k := a)) k' < next_attempt_id (driver_state d2)"
    if "k' \<in> insert k K" "?al k'" for k'
  proof (cases "k' = k")
    case True
    then show ?thesis using hi that(2) le(2) by (metis fun_upd_same order_less_le_trans)
  next
    case False
    then show ?thesis using low [of k'] that le(1) by (metis fun_upd_other insertE order_trans)
  qed
  have nodes: "node_at d2 k' = (if k' \<in> insert k K
      then slot_step (driver_retry d) now ((alloc(k := a)) k') (node_at d k') (map_of des k') else node_at d k')" for k'
    using one rest k same [of k'] retry_eq by (auto simp: slots_stepped_def)
  have dirt: "dirty d2 \<longleftrightarrow> dirty d \<or> (\<exists>k'\<in>insert k K. slot_dirty now (node_at d k') (map_of des k'))"
    using one rest on_K by (auto simp: slots_stepped_def)
  have inv: "bt_inv (nodes (driver_state d)) \<longrightarrow> bt_inv (nodes (driver_state d2))" and frame: "same_frame d d2"
    using one rest by (simp_all add: slots_stepped_def same_frame_def)
  have num: "slot_numbered now (node_at d k') (map_of des k')" if "k' \<in> insert k K" for k'
    using one rest on_K [of k'] that unfolding slots_stepped_def by (metis insert_iff)
  show ?thesis
    unfolding slots_stepped_def
    using order_trans [OF le] nodes injs dirt inv frame range num by (intro conjI allI ballI impI) (assumption | fact | blast)+
qed

section \<open>Applying a plan\<close>

definition plan_applied :: "nat \<Rightarrow> (string \<times> logical_node_spec) list \<Rightarrow> string list \<Rightarrow> cluster_driver
    \<Rightarrow> (driver_error + planned_effect list) \<times> cluster_driver \<Rightarrow> bool" where
  "plan_applied now des ks d res \<longleftrightarrow>
     (\<exists>alloc K. K \<subseteq> set ks \<and> slots_stepped now des K alloc d (snd res) \<and>
        (case fst res of
           Inl e \<Rightarrow> e = OperationSequenceExhausted
         | Inr effs \<Rightarrow> K = set ks \<and> effs = slot_effects now des ks d))"

lemma slots_stepped_other:
  "slots_stepped now des {k} alloc d d1 \<Longrightarrow> k' \<noteq> k \<Longrightarrow> node_at d1 k' = node_at d k'"
  by (simp add: slots_stepped_def)

lemma slot_effects_other:
  assumes "slots_stepped now des {k} alloc d d1" and "k \<notin> set ks"
  shows "slot_effects now des ks d1 = slot_effects now des ks d"
proof -
  have "slot_effect now x (node_at d1 x) (map_of des x) = slot_effect now x (node_at d x) (map_of des x)" if "x \<in> set ks" for x
    using slots_stepped_other [OF assms(1), of x] assms(2) that by metis
  then show ?thesis
    unfolding slot_effects_def using assms(2) by (induction ks) (auto simp: map_filter_simps split: option.split)
qed

lemma plan_applied_cons:
  assumes act: "apply_action now a d = (Inr eff, d1)" and guard: "\<forall>x\<in>set_option (allocated_attempt a). x = next_attempt_id (driver_state d)"
    and one: "slots_stepped now des {k} (\<lambda>_. x) d d1" and eff: "eff = slot_effect now k (node_at d k) (map_of des k)"
    and k: "k \<notin> set ks" and rest: "plan_applied now des ks d1 (apply_actions now as True d1)"
  shows "plan_applied now des (k # ks) d (apply_actions now (a # as) True d)"
proof -
  obtain alloc K where K: "K \<subseteq> set ks" "slots_stepped now des K alloc d1 (snd (apply_actions now as True d1))"
    "case fst (apply_actions now as True d1) of Inl e \<Rightarrow> e = OperationSequenceExhausted
      | Inr effs \<Rightarrow> K = set ks \<and> effs = slot_effects now des ks d1"
    using rest by (auto simp: plan_applied_def)
  have "slots_stepped now des (insert k K) (alloc(k := x)) d (snd (apply_actions now as True d1))"
    using slots_stepped_insert [OF one K(2)] K(1) k by blast
  moreover have "snd (apply_actions now (a # as) True d) = snd (apply_actions now as True d1)"
    using act guard by (auto split: prod.splits sum.splits)
  moreover have "case fst (apply_actions now (a # as) True d) of Inl e \<Rightarrow> e = OperationSequenceExhausted
      | Inr effs \<Rightarrow> insert k K = set (k # ks) \<and> effs = slot_effects now des (k # ks) d"
    using K(3) act guard eff slot_effects_other [OF one k]
    by (auto split: prod.splits sum.splits option.splits simp: slot_effects_def map_filter_simps)
  ultimately show ?thesis
    using K(1) unfolding plan_applied_def by (metis insert_mono list.simps(15))
qed

lemma plan_applied_skip:
  assumes one: "slots_stepped now des {k} (\<lambda>_. x) d d" and eff: "slot_effect now k (node_at d k) (map_of des k) = None"
    and k: "k \<notin> set ks" and rest: "plan_applied now des ks d res"
  shows "plan_applied now des (k # ks) d res"
proof -
  obtain alloc K where K: "K \<subseteq> set ks" "slots_stepped now des K alloc d (snd res)"
    "case fst res of Inl e \<Rightarrow> e = OperationSequenceExhausted | Inr effs \<Rightarrow> K = set ks \<and> effs = slot_effects now des ks d"
    using rest by (auto simp: plan_applied_def)
  have "slots_stepped now des (insert k K) (alloc(k := x)) d (snd res)"
    using slots_stepped_insert [OF one K(2)] K(1) k by blast
  moreover have "case fst res of Inl e \<Rightarrow> e = OperationSequenceExhausted
      | Inr effs \<Rightarrow> insert k K = set (k # ks) \<and> effs = slot_effects now des (k # ks) d"
    using K(3) eff by (auto split: sum.splits simp: slot_effects_def map_filter_simps)
  ultimately show ?thesis
    using K(1) unfolding plan_applied_def by (metis insert_mono list.simps(15))
qed

lemma plan_applied_none: "plan_applied now des [] d (apply_actions now [] True d)"
  by (auto simp: plan_applied_def slot_effects_def map_filter_simps intro!: exI [of _ "\<lambda>_. 0"])

lemma plan_applied_exhausted: "plan_applied now des ks d (Inl OperationSequenceExhausted, d)"
  by (auto simp: plan_applied_def intro!: exI [of _ "\<lambda>_. 0"] exI [of _ "{}"])

text \<open>The step of one slot, for a driver in which only that slot and the allocator change.\<close>

lemma slots_stepped_single:
  assumes "node_at d1 = (node_at d)(k := slot_step (driver_retry d) now x (node_at d k) (map_of des k))"
    and "next_attempt_id (driver_state d) \<le> next_attempt_id (driver_state d1)"
    and "slot_allocates now (node_at d k) (map_of des k) \<longrightarrow>
      next_attempt_id (driver_state d) \<le> x \<and> x < next_attempt_id (driver_state d1)"
    and "slot_numbered now (node_at d k) (map_of des k)"
    and "dirty d1 \<longleftrightarrow> dirty d \<or> slot_dirty now (node_at d k) (map_of des k)"
    and "bt_inv (nodes (driver_state d)) \<longrightarrow> bt_inv (nodes (driver_state d1))" and "same_frame d d1"
  shows "slots_stepped now des {k} (\<lambda>_. x) d d1"
  using assms unfolding slots_stepped_def by (simp add: fun_eq_iff inj_on_def)

lemmas driver_upd_simps = mark_dirty_def set_next_attempt_def same_frame_def

lemma checked_add_increases: "checked_add a 1 = Some b \<Longrightarrow> b = a + 1 \<and> a < b" for a :: u64
  by (auto simp: word_ops word_less_nat_alt unat_word_ariths)

lemma insert_steps_slot:
  assumes "node_at d k = None" and "map_of des k = Some spec" and "spec_id spec = k"
    and "checked_add (next_attempt_id (driver_state d)) 1 = Some next"
  shows "\<exists>d1. apply_action now (Insert (next_attempt_id (driver_state d)) spec) d = (Inr None, d1) \<and>
    slots_stepped now des {k} (\<lambda>_. next_attempt_id (driver_state d)) d d1 \<and> next_attempt_id (driver_state d1) = next"
  using assms checked_add_increases [OF assms(4)]
  by (intro exI conjI, simp, intro slots_stepped_single) (auto simp: driver_upd_simps)

definition action_steps_slot :: "nat \<Rightarrow> (string \<times> logical_node_spec) list \<Rightarrow> string \<Rightarrow> node_action \<Rightarrow> u64
    \<Rightarrow> cluster_driver \<Rightarrow> cluster_driver \<Rightarrow> bool" where
  "action_steps_slot now des k action next d d1 \<longleftrightarrow>
     apply_action now action d = (Inr (slot_effect now k (node_at d k) (map_of des k)), d1) \<and>
     (\<exists>x. slots_stepped now des {k} (\<lambda>_. x) d d1) \<and> next_attempt_id (driver_state d1) = next \<and>
     (\<forall>x\<in>set_option (allocated_attempt action). x = next_attempt_id (driver_state d))"

lemma action_steps_slotI:
  assumes "apply_action now action d = (Inr (slot_effect now k (node_at d k) (map_of des k)), d1)"
    and "slots_stepped now des {k} (\<lambda>_. x) d d1" and "next_attempt_id (driver_state d1) = next"
    and "\<forall>x\<in>set_option (allocated_attempt action). x = next_attempt_id (driver_state d)"
  shows "action_steps_slot now des k action next d d1"
  using assms by (auto simp: action_steps_slot_def)

lemma decided_steps_slot:
  assumes n: "node_at d k = Some n" and a: "nd_action (reconcile_node n (map_of des k) now) = Some a"
    and plan: "plan_action k n a (next_attempt_id (driver_state d)) = Inr (action, next)"
  shows "apply_action now action d = (Inl OperationSequenceExhausted, d) \<or> (\<exists>d1. action_steps_slot now des k action next d d1)"
proof (cases a)
  case DBeginDelete
  then have "action_steps_slot now des k action next d (mark_dirty (put_node k (begin_delete n) d))"
    using n a plan
    by (intro action_steps_slotI [OF _ slots_stepped_single [where x = 0]]) (auto simp: driver_upd_simps current_node_def)
  then show ?thesis by blast
next
  case DMarkDestroyed
  then have "pending n = None" "active_bootstrap n = None" "lease (node_facts n) = None"
    using a by (auto simp: decides_mark_destroyed deleting_marks_destroyed)
  with DMarkDestroyed have "action_steps_slot now des k action next d (mark_dirty (put_node k (mark_destroyed now n) d))"
    using n a plan
    by (intro action_steps_slotI [OF _ slots_stepped_single [where x = 0]]) (auto simp: driver_upd_simps current_node_def)
  then show ?thesis by blast
next
  case (DRestart spec)
  let ?a = "next_attempt_id (driver_state d)"
  have destroyed: "stage (node_facts n) = Destroyed"
    using a DRestart by (simp add: decides_restart)
  have "checked_add ?a 1 = Some next" and action: "action = Restart k (attempt n) ?a spec"
    using plan DRestart by (auto simp: allocate_attempt_def split: option.splits)
  then have "action_steps_slot now des k action next d (mark_dirty (put_node k (replacement n ?a spec) (set_next_attempt next d)))"
    using n a checked_add_increases [of ?a "next"] destroyed DRestart
    by (intro action_steps_slotI [OF _ slots_stepped_single [where x = ?a]]) (auto simp: driver_upd_simps)
  then show ?thesis by blast
next
  case DReap
  then have "stage (node_facts n) = Destroyed"
    using a by (simp add: decides_reap)
  with DReap have "action_steps_slot now des k action next d
      (d\<lparr>driver_state := (driver_state d)\<lparr>nodes := bt_remove k (nodes (driver_state d))\<rparr>\<rparr>)"
    using n a plan by (intro action_steps_slotI [OF _ slots_stepped_single [where x = 0]]) (auto simp: driver_upd_simps)
  then show ?thesis by blast
next
  case (DDispatch c)
  have free: "pending n = None"
    using a DDispatch by (simp add: decides_dispatch)
  show ?thesis
  proof (cases "checked_add (next_operation_sequence n) 1")
    case None
    then show ?thesis
      using n plan DDispatch free by (auto simp: current_node_def)
  next
    case (Some s)
    have "action_steps_slot now des k action next d
        ((put_node k (dispatched (driver_retry d) now (next_op n) c s n) d)
           \<lparr>requeue_at := earliest (requeue_at d) (Some (operation_deadline (driver_retry d) now))\<rparr>)"
      using n a plan DDispatch free Some checked_add_increases [OF Some]
      by (intro action_steps_slotI [OF _ slots_stepped_single [where x = 0]])
        (auto simp: driver_upd_simps current_node_def next_op_def)
    then show ?thesis by blast
  qed
qed

lemma map_sum_Inr_iff: "map_sum id f x = Inr y \<longleftrightarrow> (\<exists>z. x = Inr z \<and> y = f z)"
  by (cases x) auto

lemma apply_plan:
  assumes "plan_keys obs des now ks (next_attempt_id (driver_state d)) rq = Inr (acts, rq')" and "distinct ks"
    and "\<forall>k\<in>set ks. node_at d k = map_of obs k" and "\<And>k s. map_of des k = Some s \<Longrightarrow> spec_id s = k"
  shows "plan_applied now des ks d (apply_actions now acts True d)"
  using assms(1-3)
proof (induction ks arbitrary: rq acts rq' d)
  case Nil
  then show ?case using plan_applied_none by simp
next
  case (Cons k ks)
  let ?next = "next_attempt_id (driver_state d)"
  have k: "k \<notin> set ks" "distinct ks" and nk: "map_of obs k = node_at d k"
    using Cons.prems by auto
  have keep: "\<forall>k\<in>set ks. node_at d1 k = map_of obs k" if "slots_stepped now des {k} x d d1" for d1 x
    using slots_stepped_other [OF that] Cons.prems(3) k by (metis list.set_intros(2))
  show ?case
  proof (cases "node_at d k")
    case None
    then obtain spec nxt acts' where spec: "map_of des k = Some spec" "checked_add ?next 1 = Some nxt"
        "acts = Insert ?next spec # acts'" "plan_keys obs des now ks nxt rq = Inr (acts', rq')"
      using Cons.prems(1) nk
      by (auto simp: allocate_attempt_def map_sum_Inr_iff split: option.splits sum.splits)
    obtain d1 where d1: "apply_action now (Insert ?next spec) d = (Inr None, d1)"
        "slots_stepped now des {k} (\<lambda>_. ?next) d d1" "next_attempt_id (driver_state d1) = nxt"
      using insert_steps_slot [OF None spec(1) assms(4) [OF spec(1)] spec(2)] by blast
    show ?thesis
      using plan_applied_cons [OF d1(1) _ d1(2) _ k(1) Cons.IH [OF _ k(2) keep [OF d1(2)]]] None spec d1(3) by simp
  next
    case (Some n)
    let ?decision = "reconcile_node n (map_of des k) now"
    show ?thesis
    proof (cases "nd_action ?decision")
      case None
      then have "slots_stepped now des {k} (\<lambda>_. 0) d d"
        using Some by (intro slots_stepped_single) (auto simp: same_frame_def)
      then show ?thesis
        using plan_applied_skip [OF _ _ k(1) Cons.IH [OF _ k(2)]] Cons.prems None Some nk by (simp add: Let_def)
    next
      case (Some a)
      then obtain action nxt acts' where plan: "plan_action k n a ?next = Inr (action, nxt)" "acts = action # acts'"
          "plan_keys obs des now ks nxt (earliest rq (nd_requeue_at ?decision)) = Inr (acts', rq')"
        using Cons.prems(1) nk \<open>node_at d k = Some n\<close>
        by (auto simp: map_sum_Inr_iff Let_def split: sum.splits)
      from decided_steps_slot [OF \<open>node_at d k = Some n\<close> Some plan(1)] show ?thesis
      proof
        assume "apply_action now action d = (Inl OperationSequenceExhausted, d)"
        moreover have "\<forall>x\<in>set_option (allocated_attempt action). x = ?next"
          using plan(1) by (cases a) (auto simp: allocate_attempt_def split: option.splits)
        ultimately show ?thesis
          using plan_applied_exhausted plan(2) by auto
      next
        assume "\<exists>d1. action_steps_slot now des k action nxt d d1"
        then obtain d1 x where d1: "apply_action now action d = (Inr (slot_effect now k (node_at d k) (map_of des k)), d1)"
            "slots_stepped now des {k} (\<lambda>_. x) d d1" "next_attempt_id (driver_state d1) = nxt"
            "\<forall>x\<in>set_option (allocated_attempt action). x = ?next"
          unfolding action_steps_slot_def by blast
        show ?thesis
          using plan_applied_cons [OF d1(1,4,2) refl k(1) Cons.IH [OF _ k(2) keep [OF d1(2)]]] plan d1(3) by simp
      qed
    qed
  qed
qed

section \<open>A whole pass\<close>

lemma set_union_keys [simp]: "set (union_keys obs des) = fst ` set obs \<union> fst ` set des"
  by (auto simp: union_keys_def)

lemma distinct_union_keys [simp]: "distinct (union_keys obs des)"
  by (simp add: union_keys_def)

lemma slot_outside_union:
  assumes "k \<notin> set (union_keys (nodes (driver_state d)) des)"
  shows "node_at d k = None" and "map_of des k = None"
  using assms by (auto simp: map_of_eq_None_iff)

lemma slots_stepped_everywhere:
  assumes "slots_stepped now des (set (union_keys (nodes (driver_state d)) des)) alloc d d'"
  shows "slots_stepped now des UNIV alloc d d'"
proof -
  let ?K = "set (union_keys (nodes (driver_state d)) des)"
  have out: "node_at d k = None \<and> map_of des k = None" if "k \<notin> ?K" for k
    using slot_outside_union [OF that] by simp
  have "k \<in> ?K" if "slot_allocates now (node_at d k) (map_of des k)" for k
    using that out [of k] by (cases "k \<in> ?K") auto
  then have "{k \<in> UNIV. slot_allocates now (node_at d k) (map_of des k)} = {k \<in> ?K. slot_allocates now (node_at d k) (map_of des k)}"
    by auto
  moreover have "(\<exists>k\<in>UNIV. slot_dirty now (node_at d k) (map_of des k)) \<longleftrightarrow> (\<exists>k\<in>?K. slot_dirty now (node_at d k) (map_of des k))"
    using out by (metis UNIV_I slot_dirty.simps(1))
  moreover have "node_at d' k = slot_step (driver_retry d) now (alloc k) (node_at d k) (map_of des k)" for k
    using assms out [of k] unfolding slots_stepped_def by (cases "k \<in> ?K") (auto simp del: set_union_keys)
  moreover have "slot_allocates now (node_at d k) (map_of des k) \<Longrightarrow>
      next_attempt_id (driver_state d) \<le> alloc k \<and> alloc k < next_attempt_id (driver_state d')" for k
    using assms \<open>\<And>k. slot_allocates now (node_at d k) (map_of des k) \<Longrightarrow> k \<in> ?K\<close> unfolding slots_stepped_def by blast
  moreover have "inj_on alloc {k \<in> ?K. slot_allocates now (node_at d k) (map_of des k)}"
      "next_attempt_id (driver_state d) \<le> next_attempt_id (driver_state d')"
      "dirty d' \<longleftrightarrow> dirty d \<or> (\<exists>k\<in>?K. slot_dirty now (node_at d k) (map_of des k))"
      "bt_inv (nodes (driver_state d)) \<longrightarrow> bt_inv (nodes (driver_state d'))" "same_frame d d'"
    using assms unfolding slots_stepped_def by (simp_all del: set_union_keys)
  moreover have "slot_numbered now (node_at d k) (map_of des k)" for k
    using assms out [of k] unfolding slots_stepped_def by (metis slot_numbered.simps(1))
  ultimately show ?thesis
    unfolding slots_stepped_def by (simp del: set_union_keys)
qed

definition effects_of :: "nat \<Rightarrow> (string \<times> logical_node_spec) list \<Rightarrow> cluster_driver \<Rightarrow> planned_effect list" where
  "effects_of now des d = slot_effects now des (union_keys (nodes (driver_state d)) des) d"

lemma slots_stepped_fields:
  assumes "slots_stepped now des K alloc d d'"
    and "node_at d0 = node_at d" "next_attempt_id (driver_state d0) = next_attempt_id (driver_state d)"
      "dirty d0 = dirty d" "nodes (driver_state d0) = nodes (driver_state d)" "same_frame d0 d"
    and "node_at d1 = node_at d'" "next_attempt_id (driver_state d1) = next_attempt_id (driver_state d')"
      "dirty d1 = dirty d'" "nodes (driver_state d1) = nodes (driver_state d')" "same_frame d' d1"
  shows "slots_stepped now des K alloc d0 d1"
  using assms unfolding slots_stepped_def same_frame_def by (simp add: fun_eq_iff)

lemma run_pass_steps:
  assumes des: "expand (driver_desired d) = Inr des"
  shows "case run_pass now d of
      (Inl e, d') \<Rightarrow> (\<exists>alloc K. slots_stepped now des K alloc d d')
    | (Inr effs, d') \<Rightarrow> (\<exists>alloc. slots_stepped now des UNIV alloc d d') \<and> effs = effects_of now des d \<and>
        observed_generation (driver_state d') = cs_generation (driver_desired d)"
proof (cases "reconcile (driver_state d) (driver_desired d) now")
  case (Inl e)
  then show ?thesis
    by (auto simp: run_pass_def intro!: exI [of _ "{}"])
next
  case (Inr plan)
  let ?ks = "union_keys (nodes (driver_state d)) des"
  define d1 where "d1 = d\<lparr>requeue_at := plan_requeue_at plan\<rparr>"
  obtain rq where plan: "plan_keys (nodes (driver_state d)) des now ?ks (next_attempt_id (driver_state d1)) None = Inr (plan_actions plan, rq)"
      "plan_generation plan = cs_generation (driver_desired d)"
    using Inr des by (auto simp: reconcile_def map_sum_Inr_iff d1_def)
  have applied: "plan_applied now des ?ks d1 (apply_actions now (plan_actions plan) True d1)"
    using plan(1) expand_keyed [OF des] by (intro apply_plan) (auto simp: d1_def)
  obtain res d2 where res: "apply_actions now (plan_actions plan) True d1 = (res, d2)"
    by fastforce
  obtain alloc K where K: "slots_stepped now des K alloc d1 d2"
      "case res of Inl e \<Rightarrow> e = OperationSequenceExhausted | Inr effs \<Rightarrow> K = set ?ks \<and> effs = slot_effects now des ?ks d1"
    using applied unfolding plan_applied_def res by auto
  have steps: "slots_stepped now des K alloc d d3" if "d3 = d2 \<or> d3 = d2\<lparr>driver_state := (driver_state d2)\<lparr>observed_generation := g\<rparr>\<rparr>" for d3 g
    using that by (intro slots_stepped_fields [OF K(1)]) (auto simp: d1_def same_frame_def)
  have effs: "slot_effects now des ?ks d1 = effects_of now des d"
    by (simp add: effects_of_def slot_effects_def d1_def)
  show ?thesis
  proof (cases res)
    case (Inl e)
    then show ?thesis
      using \<open>reconcile _ _ _ = Inr plan\<close> res steps [of d2] by (auto simp: run_pass_def d1_def)
  next
    case (Inr es)
    define d3 where "d3 = d2\<lparr>driver_state := (driver_state d2)\<lparr>observed_generation := plan_generation plan\<rparr>\<rparr>"
    have "run_pass now d = (Inr es, d3)"
      using \<open>reconcile _ _ _ = Inr plan\<close> res Inr by (simp add: run_pass_def d1_def d3_def)
    moreover have "slots_stepped now des UNIV alloc d d3"
      using steps [of d3 "plan_generation plan"] K(2) Inr slots_stepped_everywhere by (simp add: d3_def del: set_union_keys)
    moreover have "es = effects_of now des d" "observed_generation (driver_state d3) = cs_generation (driver_desired d)"
      using K(2) Inr effs plan(2) by (simp_all add: d3_def)
    ultimately show ?thesis by auto
  qed
qed

section \<open>Submission\<close>

definition rejected :: "retry_policy \<Rightarrow> nat \<Rightarrow> string \<Rightarrow> managed_node \<Rightarrow> managed_node" where
  "rejected p now why n =
     record_failure p now (po_kind (the (pending n))) \<lparr>reason = why, ee_disposition = Definite\<rparr> (n\<lparr>pending := None\<rparr>)"

definition awaits :: "cluster_driver \<Rightarrow> planned_effect \<Rightarrow> bool" where
  "awaits d eff \<longleftrightarrow>
     (\<exists>n q. node_at d (eff_node eff) = Some n \<and> attempt n = op_attempt (eff_operation eff) \<and> pending n = Some q \<and>
        po_id q = eff_operation eff)"

definition slots_rejected :: "nat \<Rightarrow> (string \<Rightarrow> string option) \<Rightarrow> cluster_driver \<Rightarrow> cluster_driver \<Rightarrow> bool" where
  "slots_rejected now rej d d' \<longleftrightarrow>
     (\<forall>k. node_at d' k = (case rej k of None \<Rightarrow> node_at d k | Some why \<Rightarrow> map_option (rejected (driver_retry d) now why) (node_at d k))) \<and>
     (dirty d' \<longleftrightarrow> dirty d \<or> (\<exists>k. rej k \<noteq> None)) \<and> same_frame d d' \<and>
     next_attempt_id (driver_state d') = next_attempt_id (driver_state d) \<and>
     observed_generation (driver_state d') = observed_generation (driver_state d) \<and>
     (bt_inv (nodes (driver_state d)) \<longrightarrow> bt_inv (nodes (driver_state d')))"

lemma slots_rejected_none: "slots_rejected now (\<lambda>_. None) d d"
  by (simp add: slots_rejected_def same_frame_def)

lemma submission_failed_rejects:
  assumes "awaits d eff" and "processing d"
  shows "slots_rejected now ((\<lambda>_. None)(eff_node eff := Some why)) d (snd (submission_failed eff why now d))"
proof -
  obtain n q where n: "node_at d (eff_node eff) = Some n" "attempt n = op_attempt (eff_operation eff)" "pending n = Some q"
      "po_id q = eff_operation eff"
    using assms(1) by (auto simp: awaits_def)
  then have "snd (submission_failed eff why now d) =
      (put_node (eff_node eff) (rejected (driver_retry d) now why n) d)\<lparr>dirty := True\<rparr>"
    using assms(2)
    by (simp add: submission_failed_def apply_observation_def observe_def driver_trigger_def rejected_def)
  with n show ?thesis
    by (simp add: slots_rejected_def same_frame_def)
qed

lemma slots_rejected_trans:
  assumes "slots_rejected now ((\<lambda>_. None)(k := Some why)) d d1" and "slots_rejected now rej d1 d2" and "rej k = None"
  shows "slots_rejected now (rej(k := Some why)) d d2"
proof -
  have "dirty d2" using assms(1,2) by (auto simp: slots_rejected_def)
  with assms show ?thesis
    unfolding slots_rejected_def same_frame_def by (auto split: option.splits if_splits)
qed

definition may_refuse :: "'e submit_fun \<Rightarrow> planned_effect \<Rightarrow> bool" where
  "may_refuse submit eff \<longleftrightarrow> (\<exists>e. fst (submit eff e) \<noteq> None)"

lemma submit_effects_slots:
  assumes "distinct (map eff_node effs)" and "\<forall>eff\<in>set effs. awaits d eff" and "processing d"
    and "submit_effects submit now effs d e c = (c', d', e')"
  shows "\<exists>rej. slots_rejected now rej d d' \<and> (\<forall>k. rej k \<noteq> None \<longrightarrow> k \<in> eff_node ` {eff \<in> set effs. may_refuse submit eff})"
  using assms
proof (induction effs arbitrary: d e c)
  case Nil
  then show ?case
    using slots_rejected_none by fastforce
next
  case (Cons eff effs)
  obtain r e1 where r: "submit eff e = (r, e1)" by fastforce
  show ?case
  proof (cases r)
    case None
    then show ?thesis
      using Cons.IH [of d] Cons.prems r by fastforce
  next
    case (Some err)
    let ?why = "''executor submission failed: '' @ err"
    let ?d1 = "snd (submission_failed eff ?why now d)"
    have one: "slots_rejected now ((\<lambda>_. None)(eff_node eff := Some ?why)) d ?d1"
      using submission_failed_rejects Cons.prems(2,3) by simp
    have "\<forall>x\<in>set effs. awaits ?d1 x"
    proof
      fix x assume "x \<in> set effs"
      then have "eff_node x \<noteq> eff_node eff" using Cons.prems(1) by (auto simp: image_iff)
      then have "node_at ?d1 (eff_node x) = node_at d (eff_node x)"
        using one by (simp add: slots_rejected_def)
      then show "awaits ?d1 x"
        using Cons.prems(2) \<open>x \<in> set effs\<close> by (simp add: awaits_def)
    qed
    moreover have "processing ?d1"
      using one Cons.prems(3) by (simp add: slots_rejected_def same_frame_def)
    ultimately obtain rej where rej: "slots_rejected now rej ?d1 d'"
        "\<forall>k. rej k \<noteq> None \<longrightarrow> k \<in> eff_node ` {eff \<in> set effs. may_refuse submit eff}"
      using Cons.IH [of ?d1 e1 c] Cons.prems(1,4) r Some by auto
    have "rej (eff_node eff) = None"
      using rej(2) Cons.prems(1) by (cases "rej (eff_node eff)") auto
    then have "slots_rejected now (rej(eff_node eff := Some ?why)) d d'"
      by (rule slots_rejected_trans [OF one rej(1)])
    moreover have "may_refuse submit eff"
      using r Some by (auto simp: may_refuse_def intro!: exI [of _ e])
    then have "\<forall>k. (rej(eff_node eff := Some ?why)) k \<noteq> None \<longrightarrow> k \<in> eff_node ` {x \<in> set (eff # effs). may_refuse submit x}"
      using rej(2) by (auto simp: image_iff)
    ultimately show ?thesis by blast
  qed
qed

text \<open>An executor that only records what it is given.\<close>

definition logging :: "(planned_effect \<Rightarrow> string option) \<Rightarrow> planned_effect list submit_fun" where
  "logging reply eff seen = (reply eff, seen @ [eff])"

lemma submit_effects_logging:
  "snd (snd (submit_effects (logging reply) now effs d seen c)) = seen @ effs"
  by (induction effs arbitrary: d seen c) (auto simp: logging_def split: option.split)

section \<open>Driving one pass\<close>

lemma slot_effect_Some:
  "slot_effect now k o1 ds = Some eff \<longleftrightarrow>
     (\<exists>n. o1 = Some n \<and> nd_action (reconcile_node n ds now) = Some (DDispatch (eff_command eff)) \<and>
        eff_node eff = k \<and> eff_operation eff = next_op n)"
  by (cases o1) (auto split: option.splits node_decision_action.splits)

lemma effects_of_iff:
  "eff \<in> set (effects_of now des d) \<longleftrightarrow> slot_effect now (eff_node eff) (node_at d (eff_node eff)) (map_of des (eff_node eff)) = Some eff"
proof -
  have "eff \<in> set (effects_of now des d) \<longleftrightarrow>
      (\<exists>k\<in>set (union_keys (nodes (driver_state d)) des). slot_effect now k (node_at d k) (map_of des k) = Some eff)"
    by (force simp: effects_of_def slot_effects_def map_filter_def image_iff simp del: set_union_keys)
  also have "\<dots> \<longleftrightarrow> (\<exists>k. slot_effect now k (node_at d k) (map_of des k) = Some eff)"
    using slot_outside_union [of _ d des] by (metis option.distinct(1) slot_effect.simps(1))
  also have "\<dots> \<longleftrightarrow> slot_effect now (eff_node eff) (node_at d (eff_node eff)) (map_of des (eff_node eff)) = Some eff"
    by (metis slot_effect_Some)
  finally show ?thesis .
qed

lemma effects_of_distinct: "distinct (map eff_node (effects_of now des d))"
proof -
  have "distinct (map eff_node (slot_effects now des ks d)) \<and> set (map eff_node (slot_effects now des ks d)) \<subseteq> set ks"
    if "distinct ks" for ks
    using that
  proof (induction ks)
    case Nil
    then show ?case by (simp add: slot_effects_def map_filter_simps)
  next
    case (Cons k ks)
    then show ?case
      by (cases "slot_effect now k (node_at d k) (map_of des k)")
        (auto simp: slot_effects_def map_filter_simps slot_effect_Some image_subset_iff)
  qed
  then show ?thesis by (simp add: effects_of_def)
qed

text \<open>
  The outcome of \<open>drive_next\<close>: every slot is stepped, and the slots whose effect the executor refused have the
  refusal folded in. Another pass is queued exactly when some slot asks for one.
\<close>

definition slot_driven :: "retry_policy \<Rightarrow> nat \<Rightarrow> u64 \<Rightarrow> string option \<Rightarrow> managed_node option \<Rightarrow> logical_node_spec option
    \<Rightarrow> managed_node option" where
  "slot_driven p now a rej slot ds =
     (case rej of
        None \<Rightarrow> slot_step p now a slot ds
      | Some why \<Rightarrow> map_option (rejected p now why) (slot_step p now a slot ds))"

record pass_outcome =
  alloc_of :: "string \<Rightarrow> u64"
  rejected_at :: "string \<Rightarrow> string option"

definition pass_driven :: "(planned_effect \<Rightarrow> bool) \<Rightarrow> nat \<Rightarrow> (string \<times> logical_node_spec) list \<Rightarrow> pass_outcome
    \<Rightarrow> cluster_driver \<Rightarrow> cluster_driver \<Rightarrow> bool" where
  "pass_driven refusable now des w d d' \<longleftrightarrow>
     (\<forall>k. node_at d' k = slot_driven (driver_retry d) now (alloc_of w k) (rejected_at w k) (node_at d k) (map_of des k)) \<and>
     (\<forall>k. rejected_at w k \<noteq> None \<longrightarrow> (\<exists>eff. slot_effect now k (node_at d k) (map_of des k) = Some eff \<and> refusable eff)) \<and>
     next_attempt_id (driver_state d) \<le> next_attempt_id (driver_state d') \<and>
     (\<forall>k. slot_allocates now (node_at d k) (map_of des k) \<longrightarrow>
        next_attempt_id (driver_state d) \<le> alloc_of w k \<and> alloc_of w k < next_attempt_id (driver_state d')) \<and>
     inj_on (alloc_of w) {k. slot_allocates now (node_at d k) (map_of des k)} \<and>
     (\<forall>k. slot_numbered now (node_at d k) (map_of des k)) \<and>
     (queued d' \<longleftrightarrow> (\<exists>k. slot_dirty now (node_at d k) (map_of des k) \<or> rejected_at w k \<noteq> None)) \<and>
     (bt_inv (nodes (driver_state d)) \<longrightarrow> bt_inv (nodes (driver_state d'))) \<and>
     observed_generation (driver_state d') = cs_generation (driver_desired d) \<and>
     \<not> processing d' \<and> \<not> dirty d' \<and> driver_desired d' = driver_desired d \<and> expanded_desired d' = expanded_desired d \<and>
     driver_retry d' = driver_retry d"

lemma stepped_awaits:
  assumes "slots_stepped now des UNIV alloc d d1" and "eff \<in> set (effects_of now des d)"
  shows "awaits d1 eff"
proof -
  obtain n c where n: "node_at d (eff_node eff) = Some n" "eff_operation eff = next_op n"
      "nd_action (reconcile_node n (map_of des (eff_node eff)) now) = Some (DDispatch c)"
    using assms(2) by (auto simp: effects_of_iff slot_effect_Some)
  then have "node_at d1 (eff_node eff) = Some (dispatched (driver_retry d) now (next_op n) c (next_operation_sequence n + 1) n)"
    using assms(1) by (simp add: slots_stepped_def)
  then show ?thesis
    using n(2) by (auto simp: awaits_def dispatched_def next_op_def Let_def)
qed

lemma drive_next_passes:
  assumes des: "expand (driver_desired d) = Inr des" and idle: "\<not> processing d" "\<not> dirty d" "queued d"
    and drive: "drive_next submit now d e = (Inr c, d', e')"
  shows "\<exists>w. pass_driven (may_refuse submit) now des w d d'"
proof -
  define d0 where "d0 = d\<lparr>queued := False, processing := True\<rparr>"
  obtain effs d1 d2 where pass: "run_pass now d0 = (Inr effs, d1)" "submit_effects submit now effs d1 e 0 = (c, d2, e')"
      "d' = finish_drive d2"
    using drive idle by (auto simp: drive_next_def d0_def split: prod.splits sum.splits)
  obtain alloc where step: "slots_stepped now des UNIV alloc d0 d1" and effs: "effs = effects_of now des d0"
      and gen: "observed_generation (driver_state d1) = cs_generation (driver_desired d0)"
    using run_pass_steps [of d0 des now] des pass(1) by (auto simp: d0_def)
  have frame: "same_frame d0 d1"
    using step by (simp add: slots_stepped_def)
  obtain rej where rej: "slots_rejected now rej d1 d2" "\<forall>k. rej k \<noteq> None \<longrightarrow> k \<in> eff_node ` {eff \<in> set effs. may_refuse submit eff}"
    using submit_effects_slots [OF _ _ _ pass(2)] effects_of_distinct stepped_awaits [OF step] effs frame
    by (auto simp: d0_def same_frame_def)
  have at: "node_at d0 = node_at d" by (simp add: d0_def)
  have rejs: "\<exists>eff. slot_effect now k (node_at d k) (map_of des k) = Some eff \<and> may_refuse submit eff" if "rej k \<noteq> None" for k
    using rej(2) that by (auto simp: effs effects_of_iff at)
  have nodes: "node_at d2 k = slot_driven (driver_retry d) now (alloc k) (rej k) (node_at d k) (map_of des k)" for k
    using step rej(1) frame
    by (auto simp: slots_stepped_def slots_rejected_def slot_driven_def at same_frame_def d0_def split: option.split)
  have dirt: "dirty d2 \<longleftrightarrow> (\<exists>k. slot_dirty now (node_at d k) (map_of des k) \<or> rej k \<noteq> None)"
    using step rej(1) idle by (auto simp: slots_stepped_def slots_rejected_def at d0_def)
  have q: "\<not> queued d2"
    using frame rej(1) by (simp add: slots_rejected_def same_frame_def d0_def)
  have fin: "node_at d' = node_at d2" "driver_state d' = driver_state d2" "queued d' \<longleftrightarrow> dirty d2" "\<not> processing d'" "\<not> dirty d'"
      "driver_desired d' = driver_desired d2" "expanded_desired d' = expanded_desired d2" "driver_retry d' = driver_retry d2"
    using q by (simp_all add: pass(3) finish_drive_def Let_def)
  have "pass_driven (may_refuse submit) now des \<lparr>alloc_of = alloc, rejected_at = rej\<rparr> d d'"
    using step rej(1) nodes rejs dirt gen frame fin(4,5)
    unfolding pass_driven_def slots_stepped_def slots_rejected_def same_frame_def fin
    by (simp add: d0_def)
  then show ?thesis by blast
qed

end
