(* ===== verification/Driver_Runs.thy ===== *)
theory Driver_Runs
  imports Driver_Pass
begin

text \<open>
  Runs of the driver: any interleaving of new shapes, triggers, observations and passes, against an executor that
  accepts or refuses each effect as it likes. A managed node is typed: which of its optional facts are present
  follows from its intent, stage and pending operation. Attempt and operation identities are never issued twice.
\<close>

section \<open>Typing of a managed node\<close>

definition pending_typed :: "managed_node \<Rightarrow> pending_operation \<Rightarrow> bool" where
  "pending_typed n q \<longleftrightarrow>
     op_attempt (po_id q) = attempt n \<and> op_sequence (po_id q) < next_operation_sequence n \<and>
     (case po_kind q of
        KCreateLease \<Rightarrow> lease (node_facts n) = None \<and> active_bootstrap n = None
      | KLookupEndpoint \<Rightarrow> lease (node_facts n) \<noteq> None \<and> connection (node_facts n) = None
      | KStartBootstrap \<Rightarrow> connection (node_facts n) \<noteq> None \<and> active_bootstrap n = None \<and> \<not> ready (node_facts n)
      | KBootstrapConvergenceObserved \<Rightarrow> connection (node_facts n) \<noteq> None
      | KCancelBootstrap \<Rightarrow> intent n = Deleting \<and> connection (node_facts n) \<noteq> None
      | KDestroyLease \<Rightarrow> intent n = Deleting \<and> lease (node_facts n) \<noteq> None \<and> active_bootstrap n = None)"

definition ambiguous_typed :: "managed_node \<Rightarrow> operation_kind \<Rightarrow> bool" where
  "ambiguous_typed n kind \<longleftrightarrow>
     (case kind of
        KCreateLease \<Rightarrow> lease (node_facts n) = None
      | KStartBootstrap \<Rightarrow> connection (node_facts n) \<noteq> None \<and> active_bootstrap n = None
      | _ \<Rightarrow> False)"

definition node_typed :: "managed_node \<Rightarrow> bool" where
  "node_typed n \<longleftrightarrow>
     (connection (node_facts n) \<noteq> None \<longrightarrow> lease (node_facts n) \<noteq> None) \<and>
     (active_bootstrap n \<noteq> None \<longrightarrow> connection (node_facts n) \<noteq> None) \<and>
     (ready (node_facts n) \<longrightarrow> stage (node_facts n) = Dormant \<and> intent n = Active \<and> connection (node_facts n) \<noteq> None \<and>
        active_bootstrap n = None) \<and>
     (stage (node_facts n) = Destroyed \<longrightarrow> intent n = Deleting \<and> pending n = None \<and> active_bootstrap n = None \<and>
        lease (node_facts n) = None \<and> ambiguous_operation (retry n) = None) \<and>
     pred_option (pending_typed n) (pending n) \<and> pred_option (ambiguous_typed n) (ambiguous_operation (retry n))"

lemma typed_new: "node_typed (managed_node_new a spec)"
  by (simp add: node_typed_def managed_node_new_def from_spec_def)

lemma typed_replacement: "node_typed (replacement old a spec)"
  by (simp add: node_typed_def replacement_def managed_node_new_def from_spec_def)

lemma typed_begin_delete: "node_typed n \<Longrightarrow> node_typed (begin_delete n)"
  by (auto simp: node_typed_def begin_delete_def pending_typed_def ambiguous_typed_def pred_option_def
    split: operation_kind.splits)

lemma typed_mark_destroyed:
  assumes "node_typed n" and "nd_action (reconcile_node n ds now) = Some DMarkDestroyed"
  shows "node_typed (mark_destroyed now n)"
proof -
  have "ambiguous_operation (retry n) \<noteq> Some kind" for kind
    using assms by (cases kind) (auto simp: decides_mark_destroyed deleting_marks_destroyed node_typed_def ambiguous_typed_def)
  then have "ambiguous_operation (retry n) = None" by auto
  with assms show ?thesis
    by (auto simp: decides_mark_destroyed deleting_marks_destroyed node_typed_def mark_destroyed_def)
qed

text \<open>The commands a typed node is sent.\<close>

lemma deleting_dispatches:
  assumes "node_typed n" and "intent n = Deleting" and "pending n = None" and "nd_action (decide_deleting n now) = Some (DDispatch c)"
    and "op_attempt op = attempt n" and "op_sequence op < s"
  shows "pending_typed (n\<lparr>next_operation_sequence := s\<rparr>) \<lparr>po_id = op, po_kind = for_command c, po_deadline = t\<rparr>"
  using assms
  by (auto simp: decide_deleting_def decide_cleanup_def act_def wait_def start_bootstrap_command_def node_typed_def
      ambiguous_typed_def pending_typed_def bind_eq_Some_conv split: if_splits option.splits)

lemma active_dispatches:
  assumes "node_typed n" and "pending n = None" and "nd_action (decide_active n now) = Some (DDispatch c)"
    and "op_attempt op = attempt n" and "op_sequence op < s"
  shows "pending_typed (n\<lparr>next_operation_sequence := s\<rparr>) \<lparr>po_id = op, po_kind = for_command c, po_deadline = t\<rparr>"
  using assms
  by (auto simp: decide_active_def act_def wait_def start_bootstrap_command_def node_typed_def
      pending_typed_def Let_def split: if_splits option.splits)

lemma typed_dispatched:
  assumes typed: "node_typed n" and dec: "nd_action (reconcile_node n ds now) = Some (DDispatch c)"
    and num: "next_operation_sequence n < next_operation_sequence n + 1"
  shows "node_typed (dispatched p now (next_op n) c (next_operation_sequence n + 1) n)"
proof -
  let ?q = "\<lparr>po_id = next_op n, po_kind = for_command c, po_deadline = operation_deadline p now\<rparr>"
  let ?n = "n\<lparr>next_operation_sequence := next_operation_sequence n + 1\<rparr>"
  have ok: "pending_typed ?n ?q"
    using dec typed num deleting_dispatches [of n now c "next_op n"] active_dispatches [of n now c "next_op n"]
    by (auto simp: decides_dispatch next_op_def)
  have "\<not> ready (node_facts n)" if "for_command c = KCreateLease"
    using ok that typed by (auto simp: pending_typed_def node_typed_def)
  with ok typed dec show ?thesis
    by (auto simp: dispatched_def node_typed_def pending_typed_def ambiguous_typed_def decides_dispatch Let_def pred_option_def
      split: operation_kind.splits)
qed

section \<open>Observations keep the typing\<close>

lemma typed_pending_cleared: "node_typed n \<Longrightarrow> node_typed (n\<lparr>pending := None\<rparr>)"
  by (auto simp: node_typed_def ambiguous_typed_def pred_option_def split: operation_kind.splits)

lemma typed_failed: "node_typed n \<Longrightarrow> stage (node_facts n) \<noteq> Destroyed \<Longrightarrow> node_typed (mark_attempt_failed p now why n)"
  by (auto simp: node_typed_def mark_attempt_failed_def pending_typed_def pred_option_def Let_def split: operation_kind.splits)

lemma typed_finish:
  "node_typed n \<Longrightarrow> active_bootstrap n \<noteq> None \<Longrightarrow> node_typed (finish_bootstrap p now n)"
  using typed_failed [of n p now]
  by (cases "swactor (node_facts n)")
    (auto simp: finish_bootstrap_def node_typed_def pending_typed_def pred_option_def split: operation_kind.splits)

lemma typed_record_failure:
  assumes "node_typed n" and "pending n = None" and "stage (node_facts n) \<noteq> Destroyed"
    and "kind = KCreateLease \<Longrightarrow> lease (node_facts n) = None"
    and "kind = KStartBootstrap \<Longrightarrow> connection (node_facts n) \<noteq> None \<and> active_bootstrap n = None"
  shows "node_typed (record_failure p now kind e n)"
proof -
  have "node_typed (upd_retry (\<lambda>t. t\<lparr>ambiguous_operation := None\<rparr>) n)"
    using assms(1) by (auto simp: node_typed_def pending_typed_def pred_option_def split: operation_kind.splits)
  then show ?thesis
    using assms typed_failed [of "upd_retry (\<lambda>t. t\<lparr>ambiguous_operation := None\<rparr>) n" p now "reason e"]
    by (cases kind; cases "ee_disposition e")
      (auto simp: record_failure_def node_typed_def ambiguous_typed_def Let_def)
qed

lemma typed_pending_failed:
  assumes "node_typed n" and "pending n = Some q"
  shows "node_typed (record_failure p now (po_kind q) e (n\<lparr>pending := None\<rparr>))"
  using assms
  by (intro typed_record_failure typed_pending_cleared) (auto simp: node_typed_def pending_typed_def)

lemma typed_rejected: "node_typed n \<Longrightarrow> pending n \<noteq> None \<Longrightarrow> node_typed (rejected p now why n)"
  using typed_pending_failed by (auto simp: rejected_def)

lemma typed_succeeded:
  assumes "node_typed n" and "pending n = Some q" and "po_kind q = outcome_kind outcome"
  shows "node_typed (operation_succeeded p now outcome
    (upd_retry (\<lambda>t. t\<lparr>next_effect_at := None, ambiguous_operation := None\<rparr>) (n\<lparr>pending := None\<rparr>)))"
  using assms
  by (cases "(p, now, outcome, n)" rule: operation_succeeded.cases)
    (auto simp: node_typed_def pending_typed_def split: option.split)

lemma typed_bootstrap_observed:
  assumes "node_typed n" and "active_bootstrap n \<noteq> None"
  shows "node_typed (bootstrap_observed p now session obs n)"
proof -
  have facts: "node_typed (upd_facts (\<lambda>r. r\<lparr>bootstrap := b\<rparr>) n)" for b
    using assms(1) by (auto simp: node_typed_def pending_typed_def ambiguous_typed_def pred_option_def split: operation_kind.splits)
  have closed: "node_typed ((upd_facts (\<lambda>r. r\<lparr>bootstrap := b\<rparr>) n)\<lparr>active_bootstrap := None\<rparr>)" for b
    using assms(1) by (auto simp: node_typed_def pending_typed_def ambiguous_typed_def pred_option_def split: operation_kind.splits)
  have "stage (node_facts n) \<noteq> Destroyed"
    using assms by (auto simp: node_typed_def)
  then show ?thesis
    using typed_failed [OF facts] typed_finish [OF facts] facts closed assms(2)
    unfolding bootstrap_observed_def Let_def by simp
qed

lemma typed_observe:
  assumes "node_typed n" and "observation_matches n ob"
  shows "node_typed (observe p now ob n)"
proof (cases ob)
  case (OperationSucceeded op outcome)
  then show ?thesis
    using assms typed_succeeded [OF assms(1)] by (auto simp: observe_def split: option.splits)
next
  case (OperationFailed op e)
  then show ?thesis
    using assms typed_pending_failed [OF assms(1)] by (auto simp: observe_def split: option.splits)
next
  case (BootstrapObserved session obs)
  then show ?thesis
    using assms typed_bootstrap_observed [OF assms(1)] by (auto simp: observe_def)
next
  case (BootstrapFailed session why)
  then have "stage (node_facts n) \<noteq> Destroyed"
    using assms by (auto simp: node_typed_def)
  with BootstrapFailed show ?thesis
    using assms typed_failed [OF assms(1)] by (auto simp: observe_def)
next
  case (SwactorJoined session sw)
  then show ?thesis
    using assms
    by (auto simp: observe_def node_typed_def pending_typed_def ambiguous_typed_def pred_option_def split: operation_kind.splits)
next
  case (BootstrapClosed session)
  then show ?thesis
    using assms typed_finish [OF assms(1)] by (auto simp: observe_def)
qed

section \<open>Passes keep the typing\<close>

lemma typed_slot_step:
  assumes "pred_option node_typed slot" and "slot_numbered now slot ds"
  shows "pred_option node_typed (slot_step p now a slot ds)"
proof (cases slot)
  case None
  then show ?thesis by (auto simp: typed_new pred_option_def option.map_sel)
next
  case (Some n)
  then show ?thesis
    using assms typed_begin_delete [of n] typed_mark_destroyed [of n ds now] typed_replacement typed_dispatched [of n ds now]
    by (auto split: option.split node_decision_action.split)
qed

lemma dispatched_pending [simp]:
  "pending (dispatched p now op c s n) = Some \<lparr>po_id = op, po_kind = for_command c, po_deadline = operation_deadline p now\<rparr>"
  "attempt (dispatched p now op c s n) = attempt n"
  "next_operation_sequence (dispatched p now op c s n) = s"
  by (simp_all add: dispatched_def Let_def)

lemma typed_slot_driven:
  assumes "pred_option node_typed slot" and "slot_numbered now slot ds"
    and "rej \<noteq> None \<longrightarrow> slot_effect now k slot ds \<noteq> None"
  shows "pred_option node_typed (slot_driven p now a rej slot ds)"
proof (cases rej)
  case None
  then show ?thesis using typed_slot_step [OF assms(1,2)] by (simp add: slot_driven_def)
next
  case (Some why)
  then obtain n c where "slot = Some n" "nd_action (reconcile_node n ds now) = Some (DDispatch c)"
    using assms(3) by (cases slot) (auto split: option.splits node_decision_action.splits)
  then show ?thesis
    using typed_slot_step [OF assms(1,2), of p a] Some by (auto simp: slot_driven_def intro!: typed_rejected)
qed

section \<open>Identities\<close>

lemma retry_kept [simp]:
  "attempt (mark_attempt_failed p now why n) = attempt n"
  "next_operation_sequence (mark_attempt_failed p now why n) = next_operation_sequence n"
  by (simp_all add: mark_attempt_failed_def Let_def)

lemma failure_kept [simp]:
  "attempt (record_failure p now kind e n) = attempt n"
  "next_operation_sequence (record_failure p now kind e n) = next_operation_sequence n"
  by (simp_all add: record_failure_def Let_def)

lemma finish_kept [simp]:
  "attempt (finish_bootstrap p now n) = attempt n"
  "next_operation_sequence (finish_bootstrap p now n) = next_operation_sequence n"
  by (simp_all add: finish_bootstrap_def split: option.split)

lemma rejected_kept [simp]:
  "attempt (rejected p now why n) = attempt n"
  "next_operation_sequence (rejected p now why n) = next_operation_sequence n"
  by (simp_all add: rejected_def)

lemma succeeded_kept [simp]:
  "attempt (operation_succeeded p now outcome n) = attempt n"
  "next_operation_sequence (operation_succeeded p now outcome n) = next_operation_sequence n"
  by (cases "(p, now, outcome, n)" rule: operation_succeeded.cases; simp split: option.split)+

lemma observe_kept [simp]:
  "attempt (observe p now ob n) = attempt n"
  "next_operation_sequence (observe p now ob n) = next_operation_sequence n"
  by (cases ob; simp add: observe_def bootstrap_observed_def Let_def split: option.split)+

lemma slot_step_identity:
  assumes "slot_step p now a slot ds = Some n'"
  shows "slot_allocates now slot ds \<and> attempt n' = a \<or>
    (\<exists>n. slot = Some n \<and> attempt n' = attempt n \<and>
       next_operation_sequence n' = (if slot_effect now k slot ds = None then next_operation_sequence n else next_operation_sequence n + 1))"
  using assms
  by (cases slot)
    (auto simp: managed_node_new_def begin_delete_def mark_destroyed_def replacement_def
      split: option.splits node_decision_action.splits)

lemma slot_driven_identity:
  assumes "slot_driven p now a rej slot ds = Some n'"
  shows "slot_allocates now slot ds \<and> attempt n' = a \<or>
    (\<exists>n. slot = Some n \<and> attempt n' = attempt n \<and>
       next_operation_sequence n' = (if slot_effect now k slot ds = None then next_operation_sequence n else next_operation_sequence n + 1))"
proof -
  obtain m where "slot_step p now a slot ds = Some m" "attempt m = attempt n'" "next_operation_sequence m = next_operation_sequence n'"
    using assms by (auto simp: slot_driven_def split: option.splits)
  with slot_step_identity [of p now a slot ds m k] show ?thesis by metis
qed

section \<open>Runs\<close>

inductive driver_run :: "cluster_driver \<Rightarrow> planned_effect list \<Rightarrow> bool" where
  start: "driver_new c p = Inr d \<Longrightarrow> driver_run d []"
| trigger: "driver_run d seen \<Longrightarrow> driver_run (driver_trigger d) seen"
| update: "driver_run d seen \<Longrightarrow> driver_run (snd (update_desired c d)) seen"
| due: "driver_run d seen \<Longrightarrow> driver_run (snd (trigger_if_due now d)) seen"
| observed: "driver_run d seen \<Longrightarrow> driver_run (snd (apply_observation k a ob now d)) seen"
| pass: "driver_run d seen \<Longrightarrow> drive_next (logging reply) now d seen = (res, d', seen') \<Longrightarrow> driver_run d' seen'"

definition driver_inv :: "cluster_driver \<Rightarrow> bool" where
  "driver_inv d \<longleftrightarrow>
     \<not> processing d \<and> \<not> dirty d \<and> bt_inv (nodes (driver_state d)) \<and>
     expand (driver_desired d) = Inr (expanded_desired d) \<and>
     (\<forall>k n. node_at d k = Some n \<longrightarrow> node_typed n \<and> attempt n < next_attempt_id (driver_state d)) \<and>
     (\<forall>k k' n n'. node_at d k = Some n \<longrightarrow> node_at d k' = Some n' \<longrightarrow> attempt n = attempt n' \<longrightarrow> k = k')"

definition issued_before :: "cluster_driver \<Rightarrow> planned_effect \<Rightarrow> bool" where
  "issued_before d eff \<longleftrightarrow>
     op_attempt (eff_operation eff) < next_attempt_id (driver_state d) \<and>
     (\<forall>k n. node_at d k = Some n \<longrightarrow> attempt n = op_attempt (eff_operation eff) \<longrightarrow>
        op_sequence (eff_operation eff) < next_operation_sequence n)"

definition slots_moved :: "(planned_effect \<Rightarrow> bool) \<Rightarrow> nat \<Rightarrow> pass_outcome \<Rightarrow> string set \<Rightarrow> cluster_driver \<Rightarrow> cluster_driver \<Rightarrow> bool" where
  "slots_moved R now w K d d' \<longleftrightarrow>
     (let des = expanded_desired d in
      (\<forall>k. node_at d' k = (if k \<in> K
         then slot_driven (driver_retry d) now (alloc_of w k) (rejected_at w k) (node_at d k) (map_of des k) else node_at d k)) \<and>
      (\<forall>k. rejected_at w k \<noteq> None \<longrightarrow> (\<exists>eff. slot_effect now k (node_at d k) (map_of des k) = Some eff \<and> R eff)) \<and>
      next_attempt_id (driver_state d) \<le> next_attempt_id (driver_state d') \<and>
      (\<forall>k\<in>K. slot_allocates now (node_at d k) (map_of des k) \<longrightarrow>
         next_attempt_id (driver_state d) \<le> alloc_of w k \<and> alloc_of w k < next_attempt_id (driver_state d')) \<and>
      inj_on (alloc_of w) {k \<in> K. slot_allocates now (node_at d k) (map_of des k)} \<and>
      (\<forall>k\<in>K. slot_numbered now (node_at d k) (map_of des k)) \<and>
      (bt_inv (nodes (driver_state d)) \<longrightarrow> bt_inv (nodes (driver_state d'))) \<and>
      driver_desired d' = driver_desired d \<and> expanded_desired d' = expanded_desired d \<and> \<not> processing d' \<and> \<not> dirty d')"

lemma slots_moved_none: "\<not> processing d \<Longrightarrow> \<not> dirty d \<Longrightarrow> slots_moved R now \<lparr>alloc_of = x, rejected_at = \<lambda>_. None\<rparr> {} d d"
  by (simp add: slots_moved_def Let_def)

lemma drive_next_moves:
  assumes inv: "driver_inv d" and drive: "drive_next submit now d e = (res, d', e')"
  shows "\<exists>w K. slots_moved (may_refuse submit) now w K d d' \<and>
    (if queued d \<and> (\<exists>c. res = Inr c) then K = UNIV else e' = e)"
proof -
  have idle: "\<not> processing d" "\<not> dirty d" and des: "expand (driver_desired d) = Inr (expanded_desired d)"
    using inv by (auto simp: driver_inv_def)
  consider "\<not> queued d" | c where "queued d" "res = Inr c" | err where "queued d" "res = Inl err"
    by (cases res) auto
  then show ?thesis
  proof cases
    case 1
    then show ?thesis
      using drive idle slots_moved_none by (fastforce simp: drive_next_def)
  next
    case 2
    then obtain w where "pass_driven (may_refuse submit) now (expanded_desired d) w d d'"
      using drive_next_passes [OF des idle, of submit now e c d' e'] drive by auto
    then have "slots_moved (may_refuse submit) now w UNIV d d'"
      unfolding pass_driven_def slots_moved_def Let_def by simp
    with 2 show ?thesis by auto
  next
    case 3
    define d0 where "d0 = d\<lparr>queued := False, processing := True\<rparr>"
    obtain d1 where pass: "run_pass now d0 = (Inl err, d1)" "d' = finish_drive d1" "e' = e"
      using drive idle 3 by (auto simp: drive_next_def d0_def split: prod.splits sum.splits)
    obtain alloc K where step: "slots_stepped now (expanded_desired d) K alloc d0 d1"
      using run_pass_steps [of d0 "expanded_desired d" now] des pass(1) by (auto simp: d0_def)
    have "slots_moved (may_refuse submit) now \<lparr>alloc_of = alloc, rejected_at = \<lambda>_. None\<rparr> K d d'"
      using step idle unfolding slots_stepped_def slots_moved_def same_frame_def pass(2)
      by (simp add: d0_def finish_drive_def slot_driven_def Let_def)
    with 3 pass show ?thesis by auto
  qed
qed

lemma slots_moved_inv:
  assumes inv: "driver_inv d" and moved: "slots_moved R now w K d d'"
  shows "driver_inv d'"
proof -
  let ?des = "expanded_desired d"
  have at: "node_at d' k = (if k \<in> K
      then slot_driven (driver_retry d) now (alloc_of w k) (rejected_at w k) (node_at d k) (map_of ?des k) else node_at d k)" for k
    using moved by (simp add: slots_moved_def Let_def)
  have old: "node_typed n" "attempt n < next_attempt_id (driver_state d)" if "node_at d k = Some n" for k n
    using inv that by (auto simp: driver_inv_def)
  have le: "next_attempt_id (driver_state d) \<le> next_attempt_id (driver_state d')"
    using moved by (simp add: slots_moved_def Let_def)
  have origin: "k \<in> K \<and> slot_allocates now (node_at d k) (map_of ?des k) \<and> attempt n = alloc_of w k \<or>
      (\<exists>m. node_at d k = Some m \<and> attempt n = attempt m)" if "node_at d' k = Some n" for k n
    using slot_driven_identity [of "driver_retry d" now "alloc_of w k" "rejected_at w k" "node_at d k" "map_of ?des k" n k] that
    by (auto simp: at split: if_splits)
  have range: "next_attempt_id (driver_state d) \<le> alloc_of w k" "alloc_of w k < next_attempt_id (driver_state d')"
    if "k \<in> K" "slot_allocates now (node_at d k) (map_of ?des k)" for k
    using moved that by (auto simp: slots_moved_def Let_def)
  have typed: "node_typed n" if "node_at d' k = Some n" for k n
  proof (cases "k \<in> K")
    case True
    have typed: "pred_option node_typed (node_at d k)"
      using old by (auto simp: pred_option_def)
    have num: "slot_numbered now (node_at d k) (map_of ?des k)"
      and rej: "rejected_at w k \<noteq> None \<longrightarrow> slot_effect now k (node_at d k) (map_of ?des k) \<noteq> None"
      using moved True unfolding slots_moved_def Let_def by blast+
    show ?thesis
      using typed_slot_driven [OF typed num rej, of "driver_retry d" "alloc_of w k"] that True at [of k] by simp
  next
    case False
    then show ?thesis using old that at by auto
  qed
  have below: "attempt n < next_attempt_id (driver_state d')" if "node_at d' k = Some n" for k n
    using origin [OF that] range [of k] old [of k] le by fastforce
  have inj: "inj_on (alloc_of w) {k \<in> K. slot_allocates now (node_at d k) (map_of ?des k)}"
    using moved by (simp add: slots_moved_def Let_def)
  have fresh: "attempt m \<noteq> alloc_of w j"
    if "node_at d i = Some m" "j \<in> K" "slot_allocates now (node_at d j) (map_of ?des j)" for i j m
    using old(2) [OF that(1)] range(1) [OF that(2,3)] by auto
  have unique: "k = k'" if "node_at d' k = Some n" "node_at d' k' = Some n'" "attempt n = attempt n'" for k k' n n'
    using origin [OF that(1)] origin [OF that(2)]
  proof (elim disjE exE conjE)
    assume "k \<in> K" "k' \<in> K" "slot_allocates now (node_at d k) (map_of ?des k)" "slot_allocates now (node_at d k') (map_of ?des k')"
      "attempt n = alloc_of w k" "attempt n' = alloc_of w k'"
    with that(3) inj_onD [OF inj, of k k'] show ?thesis by simp
  next
    fix m m' assume "node_at d k = Some m" "node_at d k' = Some m'" "attempt n = attempt m" "attempt n' = attempt m'"
    with that(3) inv show ?thesis unfolding driver_inv_def by metis
  qed (use that(3) fresh in metis)+
  have frame: "\<not> processing d'" "\<not> dirty d'" "driver_desired d' = driver_desired d" "expanded_desired d' = expanded_desired d"
      "bt_inv (nodes (driver_state d'))"
    using moved inv by (simp_all add: slots_moved_def driver_inv_def Let_def)
  then show ?thesis
    using typed below unique inv unfolding driver_inv_def frame(3,4) by blast
qed

lemma observation_inv:
  assumes "driver_inv d"
  shows "driver_inv (snd (apply_observation k a ob now d))"
proof (cases "\<exists>n. node_at d k = Some n \<and> attempt n = a \<and> observation_matches n ob")
  case True
  then obtain n where n: "node_at d k = Some n" "attempt n = a" "observation_matches n ob" by blast
  have "snd (apply_observation k a ob now d) = (put_node k (observe (driver_retry d) now ob n) d)\<lparr>queued := True\<rparr>"
    using n assms by (simp add: apply_observation_def driver_trigger_def driver_inv_def)
  moreover have "node_typed (observe (driver_retry d) now ob n)"
    using typed_observe n assms by (auto simp: driver_inv_def)
  ultimately show ?thesis
    using assms n(1) unfolding driver_inv_def by (auto split: if_splits)
next
  case False
  then have "snd (apply_observation k a ob now d) = d"
    by (auto simp: apply_observation_def split: option.split)
  with assms show ?thesis by simp
qed

lemma driver_run_inv: "driver_run d seen \<Longrightarrow> driver_inv d"
proof (induction rule: driver_run.induct)
  case (start c p d)
  then show ?case
    by (auto simp: driver_new_def driver_inv_def cluster_state_default_def split: sum.splits)
next
  case (trigger d seen)
  then show ?case by (auto simp: driver_trigger_def driver_inv_def)
next
  case (update d seen c)
  then show ?case
    by (auto simp: update_desired_def driver_trigger_def driver_inv_def Let_def split: sum.splits)
next
  case (due d seen now)
  then show ?case by (auto simp: trigger_if_due_def driver_trigger_def driver_inv_def)
next
  case (observed d seen k a ob now)
  then show ?case by (rule_tac observation_inv)
next
  case (pass d seen reply now res d' seen')
  then show ?case using drive_next_moves slots_moved_inv by metis
qed

section \<open>Issued operations\<close>

declare slot_effect.simps(2) [simp del] slot_numbered.simps(2) [simp del] slot_allocates.simps(2) [simp del]

lemma drive_next_logs:
  assumes inv: "driver_inv d" and "queued d" and drive: "drive_next (logging reply) now d seen = (Inr c, d', seen')"
  shows "seen' = seen @ effects_of now (expanded_desired d) d"
proof -
  define d0 where "d0 = d\<lparr>queued := False, processing := True\<rparr>"
  obtain effs d1 d2 where "run_pass now d0 = (Inr effs, d1)" "submit_effects (logging reply) now effs d1 seen 0 = (c, d2, seen')"
    using assms by (auto simp: drive_next_def d0_def driver_inv_def split: prod.splits sum.splits)
  then show ?thesis
    using run_pass_steps [of d0 "expanded_desired d" now] inv submit_effects_logging [of reply now effs d1 seen 0]
    by (auto simp: d0_def driver_inv_def effects_of_def slot_effects_def)
qed

lemma numbered_effect:
  "slot_numbered now (Some m) ds \<Longrightarrow> slot_effect now k (Some m) ds \<noteq> None \<Longrightarrow> next_operation_sequence m < next_operation_sequence m + 1"
  by (auto simp: slot_effect.simps slot_numbered.simps split: option.splits node_decision_action.splits)

lemma moved_origin:
  assumes "slots_moved R now w K d d'" and "node_at d' k = Some n"
  shows "k \<in> K \<and> slot_allocates now (node_at d k) (map_of (expanded_desired d) k) \<and> attempt n = alloc_of w k \<or>
    (\<exists>m. node_at d k = Some m \<and> attempt n = attempt m \<and> next_operation_sequence m \<le> next_operation_sequence n \<and>
       (k \<in> K \<and> slot_effect now k (Some m) (map_of (expanded_desired d) k) \<noteq> None \<longrightarrow> next_operation_sequence m < next_operation_sequence n))"
proof (cases "k \<in> K")
  case True
  let ?ds = "map_of (expanded_desired d) k"
  have driven: "slot_driven (driver_retry d) now (alloc_of w k) (rejected_at w k) (node_at d k) ?ds = Some n"
    and num: "slot_numbered now (node_at d k) ?ds"
    using assms True by (simp_all add: slots_moved_def Let_def)
  from slot_driven_identity [OF driven, of k] show ?thesis
  proof (elim disjE exE conjE)
    assume "slot_allocates now (node_at d k) ?ds" "attempt n = alloc_of w k"
    then show ?thesis using True by blast
  next
    fix m assume m: "node_at d k = Some m" "attempt n = attempt m"
      "next_operation_sequence n = (if slot_effect now k (node_at d k) ?ds = None then next_operation_sequence m else next_operation_sequence m + 1)"
    have "slot_numbered now (Some m) ?ds" using num m(1) by (simp only:)
    then have up: "slot_effect now k (Some m) ?ds \<noteq> None \<Longrightarrow> next_operation_sequence m < next_operation_sequence m + 1"
      by (rule numbered_effect)
    have "next_operation_sequence m \<le> next_operation_sequence n \<and>
        (slot_effect now k (Some m) ?ds \<noteq> None \<longrightarrow> next_operation_sequence m < next_operation_sequence n)"
    proof (cases "slot_effect now k (Some m) ?ds = None")
      case True
      then have "next_operation_sequence n = next_operation_sequence m" using m(1,3) by simp
      with True show ?thesis by simp
    next
      case False
      then have "next_operation_sequence n = next_operation_sequence m + 1" using m(1,3) by simp
      with up [OF False] show ?thesis by (metis less_imp_le)
    qed
    with m(1,2) show ?thesis by blast
  qed
next
  case False
  then show ?thesis using assms by (auto simp: slots_moved_def Let_def)
qed

lemma moved_keeps_issued:
  assumes inv: "driver_inv d" and moved: "slots_moved R now w K d d'" and eff: "issued_before d eff"
  shows "issued_before d' eff"
proof -
  have le: "next_attempt_id (driver_state d) \<le> next_attempt_id (driver_state d')"
    using moved by (simp add: slots_moved_def Let_def)
  have "op_sequence (eff_operation eff) < next_operation_sequence n"
    if n: "node_at d' k = Some n" "attempt n = op_attempt (eff_operation eff)" for k n
    using moved_origin [OF moved n(1)]
  proof (elim disjE exE conjE)
    assume "k \<in> K" "slot_allocates now (node_at d k) (map_of (expanded_desired d) k)" "attempt n = alloc_of w k"
    then have "next_attempt_id (driver_state d) \<le> attempt n"
      using moved by (simp add: slots_moved_def Let_def)
    with eff n(2) show ?thesis by (auto simp: issued_before_def)
  next
    fix m assume "node_at d k = Some m" "attempt n = attempt m" "next_operation_sequence m \<le> next_operation_sequence n"
    with eff n(2) show ?thesis by (fastforce simp: issued_before_def)
  qed
  with eff le show ?thesis by (auto simp: issued_before_def)
qed

lemma new_effects_issued:
  assumes inv: "driver_inv d" and moved: "slots_moved R now w UNIV d d'" and eff: "eff \<in> set (effects_of now (expanded_desired d) d)"
  shows "issued_before d' eff" and "\<not> issued_before d eff"
proof -
  let ?k = "eff_node eff"
  obtain m where m: "node_at d ?k = Some m" "eff_operation eff = next_op m"
    using eff by (auto simp: effects_of_iff slot_effect_Some)
  have has: "slot_effect now ?k (Some m) (map_of (expanded_desired d) ?k) \<noteq> None"
    using eff m(1) by (simp add: effects_of_iff)
  show "\<not> issued_before d eff"
    using m by (auto simp: issued_before_def next_op_def)
  have below: "attempt m < next_attempt_id (driver_state d)" and le: "next_attempt_id (driver_state d) \<le> next_attempt_id (driver_state d')"
    using inv m(1) moved by (auto simp: driver_inv_def slots_moved_def Let_def)
  have "next_operation_sequence m < next_operation_sequence n" if n: "node_at d' k = Some n" "attempt n = attempt m" for k n
    using moved_origin [OF moved n(1)]
  proof (elim disjE exE conjE)
    assume "slot_allocates now (node_at d k) (map_of (expanded_desired d) k)" "attempt n = alloc_of w k"
    then have "next_attempt_id (driver_state d) \<le> attempt n"
      using moved by (simp add: slots_moved_def Let_def)
    with below n(2) show ?thesis by auto
  next
    fix m' assume m': "node_at d k = Some m'" "attempt n = attempt m'"
      "k \<in> UNIV \<and> slot_effect now k (Some m') (map_of (expanded_desired d) k) \<noteq> None \<longrightarrow> next_operation_sequence m' < next_operation_sequence n"
    then have "k = ?k"
      using inv m(1) n(2) unfolding driver_inv_def by metis
    with m' m(1) has show ?thesis by simp
  qed
  with m(2) below le show "issued_before d' eff"
    by (auto simp: issued_before_def next_op_def)
qed

lemma new_effects_distinct:
  assumes inv: "driver_inv d"
  shows "distinct (map eff_operation (effects_of now des d))"
proof -
  have "eff_node x = eff_node y"
    if xy: "x \<in> set (effects_of now des d)" "y \<in> set (effects_of now des d)" "eff_operation x = eff_operation y" for x y
  proof -
    obtain m m' where m: "node_at d (eff_node x) = Some m" "eff_operation x = next_op m" "node_at d (eff_node y) = Some m'"
        "eff_operation y = next_op m'"
      using xy(1,2) by (auto simp: effects_of_iff slot_effect_Some)
    then have "attempt m = attempt m'"
      using xy(3) by (simp add: next_op_def)
    with inv m(1,3) show ?thesis unfolding driver_inv_def by blast
  qed
  then show ?thesis
    using effects_of_distinct [of now des d] unfolding distinct_map inj_on_def by blast
qed

lemma observation_keeps_issued:
  assumes "issued_before d eff"
  shows "issued_before (snd (apply_observation k a ob now d)) eff"
  using assms by (auto simp: apply_observation_def issued_before_def driver_trigger_def split: option.splits)

lemma driver_run_issued:
  "driver_run d seen \<Longrightarrow> distinct (map eff_operation seen) \<and> (\<forall>eff\<in>set seen. issued_before d eff)"
proof (induction rule: driver_run.induct)
  case (start c p d)
  then show ?case by simp
next
  case (trigger d seen)
  then show ?case by (auto simp: driver_trigger_def issued_before_def)
next
  case (update d seen c)
  then show ?case by (auto simp: update_desired_def driver_trigger_def issued_before_def Let_def split: sum.splits)
next
  case (due d seen now)
  then show ?case by (auto simp: trigger_if_due_def driver_trigger_def issued_before_def)
next
  case (observed d seen k a ob now)
  then show ?case using observation_keeps_issued by blast
next
  case (pass d seen reply now res d' seen')
  have inv: "driver_inv d" using driver_run_inv pass.hyps(1) .
  obtain w K where moved: "slots_moved (may_refuse (logging reply)) now w K d d'" "if queued d \<and> (\<exists>c. res = Inr c) then K = UNIV else seen' = seen"
    using drive_next_moves [OF inv pass.hyps(2)] by blast
  have kept: "\<forall>eff\<in>set seen. issued_before d' eff"
    using moved_keeps_issued [OF inv moved(1)] pass.IH by blast
  show ?case
  proof (cases "queued d \<and> (\<exists>c. res = Inr c)")
    case True
    then have seen': "seen' = seen @ effects_of now (expanded_desired d) d" and "K = UNIV"
      using drive_next_logs [OF inv] pass.hyps(2) moved(2) by auto
    then have new: "issued_before d' eff" "\<not> issued_before d eff" if "eff \<in> set (effects_of now (expanded_desired d) d)" for eff
      using new_effects_issued [OF inv _ that] moved(1) by blast+
    have "eff_operation x \<noteq> eff_operation y" if "x \<in> set seen" "y \<in> set (effects_of now (expanded_desired d) d)" for x y
      using new(2) [OF that(2)] pass.IH that(1) by (auto simp: issued_before_def)
    then show ?thesis
      using kept new(1) pass.IH new_effects_distinct [OF inv] by (auto simp: seen')
  next
    case False
    then show ?thesis using moved(2) kept pass.IH by auto
  qed
qed

section \<open>A small cluster\<close>

text \<open>
  A driver for the shape with one group of one node, and the states of that node as a lease is requested, the request
  times out or succeeds, and the bootstrap runs to its end. The theorems are instantiated at these states.
\<close>

definition sample_policy :: retry_policy where
  "sample_policy = \<lparr>initial_delay = 1, max_delay = 1, jitter = 0, operation_timeout = 10, endpoint_probe_interval = 1\<rparr>"

definition sample_spec :: logical_node_spec where
  "sample_spec = group_node (sample_group ''g'' 1) 0"

definition sample_driver :: "run_node_group_spec list \<Rightarrow> (string \<times> logical_node_spec) list \<Rightarrow> u64 \<Rightarrow> u64 \<Rightarrow> u64 \<Rightarrow> (string \<times> managed_node) list \<Rightarrow> bool
    \<Rightarrow> nat option \<Rightarrow> cluster_driver" where
  "sample_driver groups des gen seen_gen nxt ns q rq =
     \<lparr>driver_state = \<lparr>observed_generation = seen_gen, next_attempt_id = nxt, nodes = ns\<rparr>, driver_desired = sample_shape gen groups,
      expanded_desired = des, driver_retry = sample_policy, queued = q, processing = False, dirty = False, requeue_at = rq\<rparr>"

lemma decimal_zero: "decimal 0 = ''0''"
  by code_simp

lemma sample_spec_id [simp]: "spec_id sample_spec = ''g-0''"
  by (simp add: sample_spec_def node_slot_id_def decimal_zero)

lemma sample_expand [simp]:
  "expand (sample_shape gen [sample_group ''g'' 1]) = Inr [(''g-0'', sample_spec)]"
  "expand (sample_shape gen []) = Inr []"
proof -
  have "expand_node_group (sample_group ''g'' 1) = [sample_spec]"
    by (simp add: expand_node_group_def sample_spec_def)
  then show "expand (sample_shape gen [sample_group ''g'' 1]) = Inr [(''g-0'', sample_spec)]"
    by (simp add: expand_def sample_shape_def)
qed (simp add: expand_def sample_shape_def)

lemma single_union: "des = [] \<or> des = [(k, s)] \<Longrightarrow> union_keys [(k, n)] des = [k]"
  by (auto simp: union_keys_def)

lemmas pass_eval = drive_next_def run_pass_def reconcile_def single_union finish_drive_def mark_dirty_def set_next_attempt_def
  sample_driver_def act_def current_node_def Let_def logging_def

lemma sample_first_pass:
  "drive_next submit now (sample_driver [sample_group ''g'' 1] [(''g-0'', sample_spec)] gen sg 1 [] True rq) e =
     (Inr 0, sample_driver [sample_group ''g'' 1] [(''g-0'', sample_spec)] gen gen 2 [(''g-0'', managed_node_new 1 sample_spec)] True None, e)"
  by (simp add: pass_eval union_keys_def allocate_attempt_def checked_add_def) (simp add: sample_shape_def)

lemma sample_pass:
  fixes n :: managed_node and sg nxt :: u64 and rq :: "nat option"
  assumes des: "expand (sample_shape gen groups) = Inr des" "des = [] \<or> des = [(k, s)]"
  defines "pre \<equiv> sample_driver groups des gen sg nxt [(k, n)] True rq"
  shows "reconcile_node n (map_of des k) now = act DBeginDelete \<Longrightarrow>
      drive_next submit now pre e = (Inr 0, sample_driver groups des gen gen nxt [(k, begin_delete n)] True None, e)"
    and "reconcile_node n (map_of des k) now = act DMarkDestroyed \<Longrightarrow>
      pending n = None \<Longrightarrow> active_bootstrap n = None \<Longrightarrow> lease (node_facts n) = None \<Longrightarrow>
      drive_next submit now pre e = (Inr 0, sample_driver groups des gen gen nxt [(k, mark_destroyed now n)] True None, e)"
    and "reconcile_node n (map_of des k) now = act DReap \<Longrightarrow> stage (node_facts n) = Destroyed \<Longrightarrow>
      drive_next submit now pre e = (Inr 0, sample_driver groups des gen gen nxt [] False None, e)"
    and "reconcile_node n (map_of des k) now = act (DDispatch c) \<Longrightarrow> pending n = None \<Longrightarrow>
      checked_add (next_operation_sequence n) 1 = Some sq \<Longrightarrow> submit \<lparr>eff_node = k, eff_operation = next_op n, eff_command = c\<rparr> e = (None, e') \<Longrightarrow>
      drive_next submit now pre e = (Inr 1, sample_driver groups des gen gen nxt [(k, dispatched sample_policy now (next_op n) c sq n)] False
        (Some (operation_deadline sample_policy now)), e')"
    and "reconcile_node n (map_of des k) now = act (DDispatch c) \<Longrightarrow> pending n = None \<Longrightarrow>
      checked_add (next_operation_sequence n) 1 = Some sq \<Longrightarrow> submit \<lparr>eff_node = k, eff_operation = next_op n, eff_command = c\<rparr> e = (Some err, e') \<Longrightarrow>
      drive_next submit now pre e = (Inr 0, sample_driver groups des gen gen nxt
        [(k, rejected sample_policy now (''executor submission failed: '' @ err) (dispatched sample_policy now (next_op n) c sq n))] True
        (Some (operation_deadline sample_policy now)), e')"
  using des(1) single_union [OF des(2), of n]
  by (auto simp: pre_def pass_eval bt_remove_def next_op_def saturating_add_def submission_failed_def apply_observation_def
      driver_trigger_def rejected_def observe_def sample_shape_def [of gen groups])


lemma sample_policy_fields [simp]:
  "initial_delay sample_policy = 1" "max_delay sample_policy = 1" "jitter sample_policy = 0" "operation_timeout sample_policy = 10"
  "endpoint_probe_interval sample_policy = 1"
  by (simp_all add: sample_policy_def)

lemma sample_times [simp]:
  "operation_deadline sample_policy 5 = 15" "operation_deadline sample_policy 7 = 17"
  "time_checked_add 6 (sampled_retry_delay sample_policy 1 1) = Some 7"
  by (simp_all add: operation_deadline_def time_checked_add_def TIME_END_def sampled_retry_delay_def delay_for_failure_def
      duration_checked_mul_def DURATION_END_def saturating_sub_def)

definition sample_create :: "u64 \<Rightarrow> planned_effect" where
  "sample_create sq = \<lparr>eff_node = ''g-0'', eff_operation = OperationId 1 sq, eff_command = CreateLease sample_spec\<rparr>"

definition sample_requested :: managed_node where
  "sample_requested = dispatched sample_policy 5 (OperationId 1 1) (CreateLease sample_spec) 2 (managed_node_new 1 sample_spec)"

definition sample_ambiguous :: managed_node where
  "sample_ambiguous = record_failure sample_policy 6 KCreateLease \<lparr>reason = ''deadline'', ee_disposition = Ambiguous\<rparr>
     (sample_requested\<lparr>pending := None\<rparr>)"

definition sample_refused :: managed_node where
  "sample_refused = rejected sample_policy 7 ''executor submission failed: queue closed''
     (dispatched sample_policy 7 (OperationId 1 2) (CreateLease sample_spec) 3 (begin_delete sample_ambiguous))"

lemmas sample_nodes = sample_refused_def sample_ambiguous_def sample_requested_def managed_node_new_def from_spec_def dispatched_def
  record_failure_def rejected_def begin_delete_def Let_def saturating_add_def

lemma fresh_node:
  "reconcile_node (managed_node_new 1 sample_spec) (Some sample_spec) 5 = act (DDispatch (CreateLease sample_spec))"
  "pending (managed_node_new 1 sample_spec) = None" "next_op (managed_node_new 1 sample_spec) = OperationId 1 1"
  "checked_add (next_operation_sequence (managed_node_new 1 sample_spec)) 1 = Some 2"
  by (simp_all add: reconcile_node_def decide_active_def not_due_def next_op_def checked_add_def sample_nodes)

lemma requested_node:
  "attempt sample_requested = 1" "pending sample_requested = Some \<lparr>po_id = OperationId 1 1, po_kind = KCreateLease, po_deadline = 15\<rparr>"
  by (simp_all add: sample_nodes)

lemma ambiguous_node:
  "reconcile_node sample_ambiguous None 6 = act DBeginDelete" "attempt sample_ambiguous = 1"
  "ambiguous_operation (retry sample_ambiguous) = Some KCreateLease" "stage (node_facts sample_ambiguous) \<noteq> Destroyed"
  by (simp_all add: sample_nodes reconcile_node_def)

lemma deleting_node:
  "reconcile_node (begin_delete sample_ambiguous) None 7 = act (DDispatch (CreateLease sample_spec))"
  "pending (begin_delete sample_ambiguous) = None" "next_op (begin_delete sample_ambiguous) = OperationId 1 2"
  "checked_add (next_operation_sequence (begin_delete sample_ambiguous)) 1 = Some 3"
  by (simp_all add: reconcile_node_def decide_deleting_def not_due_def next_op_def checked_add_def sample_nodes)

lemma refused_node:
  "reconcile_node sample_refused None 7 = act DMarkDestroyed"
  "pending sample_refused = None" "active_bootstrap sample_refused = None" "lease (node_facts sample_refused) = None"
  by (simp_all add: reconcile_node_def decide_deleting_def decide_cleanup_def not_due_def sample_nodes)

lemma destroyed_node:
  "reconcile_node (mark_destroyed 7 sample_refused) None 7 = act DReap" "stage (node_facts (mark_destroyed 7 sample_refused)) = Destroyed"
  by (simp_all add: reconcile_node_def decide_destroyed_def mark_destroyed_def)

lemma sample_new:
  "driver_new (sample_shape gen [sample_group ''g'' 1]) sample_policy = Inr (sample_driver [sample_group ''g'' 1] [(''g-0'', sample_spec)] gen 0 1 [] True None)"
  by (simp add: driver_new_def sample_driver_def cluster_state_default_def)

lemma sample_requested_pass:
  "drive_next (logging (\<lambda>_. None)) 5 (sample_driver [sample_group ''g'' 1] [(''g-0'', sample_spec)] gen sg nxt [(''g-0'', managed_node_new 1 sample_spec)] True rq) seen =
     (Inr 1, sample_driver [sample_group ''g'' 1] [(''g-0'', sample_spec)] gen gen nxt [(''g-0'', sample_requested)] False (Some 15),
      seen @ [sample_create 1])"
  using sample_pass(4) [OF sample_expand(1), of "''g-0''" sample_spec "managed_node_new 1 sample_spec" 5 "CreateLease sample_spec" 2
      "logging (\<lambda>_. None)" seen "seen @ [sample_create 1]" gen sg nxt rq] fresh_node
  by (simp add: logging_def sample_create_def sample_requested_def)

lemma sample_fails:
  "apply_executor_result \<lparr>er_node = ''g-0'', er_operation = OperationId 1 1, er_result = Inl \<lparr>reason = ''deadline'', ee_disposition = Ambiguous\<rparr>\<rparr> 6
     (sample_driver groups des gen sg nxt [(''g-0'', sample_requested)] False rq) =
   (True, sample_driver groups des gen sg nxt [(''g-0'', sample_ambiguous)] True rq)"
  by (simp add: apply_executor_result_def apply_observation_def requested_node sample_driver_def driver_trigger_def observe_def sample_ambiguous_def)

lemma sample_update:
  "update_desired (sample_shape 2 []) (sample_driver groups des 1 sg nxt ns True rq) = (None, sample_driver [] [] 2 sg nxt ns True rq)"
  by (simp add: update_desired_def sample_driver_def sample_shape_def driver_trigger_def expand_def)

lemma drive_loop_next:
  "queued d \<Longrightarrow> drive_next submit now d e = (Inr c, d', e') \<Longrightarrow>
   drive_loop submit now d e m = drive_loop submit now d' e' (saturating_add m c)"
  by (subst drive_loop.simps) simp

lemma drive_loop_done: "\<not> queued d \<Longrightarrow> drive_loop submit now d e m = Some (Inr m, d, e)"
  by (subst drive_loop.simps) simp

lemma sample_driver_fields [simp]:
  "queued (sample_driver groups des gen sg nxt ns q rq) = q" "nodes (driver_state (sample_driver groups des gen sg nxt ns q rq)) = ns"
  "expanded_desired (sample_driver groups des gen sg nxt ns q rq) = des" "driver_retry (sample_driver groups des gen sg nxt ns q rq) = sample_policy"
  by (simp_all add: sample_driver_def)

lemma sample_drain:
  fixes sg nxt :: u64 and rq :: "nat option"
  defines "refuse \<equiv> (\<lambda>_ e. (Some ''queue closed'', e)) :: unit submit_fun"
  shows "drive_until_blocked refuse 7 (sample_driver [] [] 2 sg nxt [(''g-0'', begin_delete sample_ambiguous)] True rq) () =
     Some (Inr 0, sample_driver [] [] 2 2 nxt [] False None, ())"
proof -
  have "drive_next refuse 7 (sample_driver [] [] 2 sg nxt [(''g-0'', begin_delete sample_ambiguous)] True rq) () =
      (Inr 0, sample_driver [] [] 2 2 nxt [(''g-0'', sample_refused)] True (Some 17), ())"
    using sample_pass(5) [OF sample_expand(2), of "''g-0''" sample_spec "begin_delete sample_ambiguous" 7 "CreateLease sample_spec" 3
      refuse "()" "''queue closed''" "()" 2 sg nxt rq] deleting_node
    by (simp add: refuse_def sample_refused_def)
  moreover have "drive_next refuse 7 (sample_driver [] [] 2 2 nxt [(''g-0'', sample_refused)] True (Some 17)) () =
      (Inr 0, sample_driver [] [] 2 2 nxt [(''g-0'', mark_destroyed 7 sample_refused)] True None, ())"
    using refused_node by (intro sample_pass(2)) simp_all
  moreover have "drive_next refuse 7 (sample_driver [] [] 2 2 nxt [(''g-0'', mark_destroyed 7 sample_refused)] True None) () =
      (Inr 0, sample_driver [] [] 2 2 nxt [] False None, ())"
    using destroyed_node by (intro sample_pass(3)) simp_all
  ultimately show ?thesis
    by (simp add: drive_until_blocked_def drive_loop_next drive_loop_done saturating_add_def)
qed

lemma sample_run:
  "driver_run (sample_driver [sample_group ''g'' 1] [(''g-0'', sample_spec)] 1 1 2 [(''g-0'', sample_requested)] False (Some 15)) [sample_create 1]"
proof -
  have "driver_run (sample_driver [sample_group ''g'' 1] [(''g-0'', sample_spec)] 1 0 1 [] True None) []"
    using sample_new by (rule driver_run.start)
  from driver_run.pass [OF this sample_first_pass] have
    "driver_run (sample_driver [sample_group ''g'' 1] [(''g-0'', sample_spec)] 1 1 2 [(''g-0'', managed_node_new 1 sample_spec)] True None) []" .
  from driver_run.pass [OF this sample_requested_pass] show ?thesis by simp
qed


lemma sample_observed:
  assumes "attempt n = a" and "observation_matches n ob"
  shows "apply_observation k a ob now (sample_driver groups des gen sg nxt [(k, n)] q rq) =
    (True, sample_driver groups des gen sg nxt [(k, observe sample_policy now ob n)] True rq)"
  using assms by (simp add: apply_observation_def sample_driver_def driver_trigger_def)

definition sample_lease :: create_lease_result where
  "sample_lease =
     \<lparr>clr_lease = \<lparr>lf_provider = ''docker'', lease_id = ''l'', provider_contract_id = ''c'', offer_id = None,
        lf_destroy_handle = \<lparr>dh_provider = ''docker'', dh_lease_id = ''l'', dh_contract_id = ''c''\<rparr>, provider_metadata = []\<rparr>,
      clr_endpoint = Some \<lparr>ssh_host = ''host'', ssh_port = 22, ssh_endpoint_user = ''root'', auth_ref = ''key''\<rparr>\<rparr>"

definition sample_leased :: managed_node where
  "sample_leased = observe sample_policy 5 (OperationSucceeded (OperationId 1 1) (LeaseCreated sample_lease)) sample_requested"

definition sample_starting :: managed_node where
  "sample_starting = dispatched sample_policy 5 (OperationId 1 2) (the (start_bootstrap_command (node_facts sample_leased))) 3 sample_leased"

definition sample_running :: managed_node where
  "sample_running = observe sample_policy 5 (OperationSucceeded (OperationId 1 2) (BootstrapStarted 9)) sample_starting"

definition sample_ready :: managed_node where
  "sample_ready = observe sample_policy 9 (BootstrapClosed 9) (observe sample_policy 8 (SwactorJoined 9 ''sw'') sample_running)"

lemmas sample_bootstrap = sample_ready_def sample_running_def sample_starting_def sample_leased_def sample_lease_def observe_def
  finish_bootstrap_def start_bootstrap_command_def sample_nodes

lemma leased_node:
  "reconcile_node sample_leased (Some sample_spec) 5 = act (DDispatch (the (start_bootstrap_command (node_facts sample_leased))))"
  "pending sample_leased = None" "next_op sample_leased = OperationId 1 2"
  "checked_add (next_operation_sequence sample_leased) 1 = Some 3"
  by (simp_all add: reconcile_node_def decide_active_def not_due_def next_op_def checked_add_def sample_bootstrap)

lemma starting_node:
  "attempt sample_starting = 1" "observation_matches sample_starting (OperationSucceeded (OperationId 1 2) (BootstrapStarted 9))"
  by (simp_all add: sample_bootstrap)

lemma running_node:
  "attempt sample_running = 1" "intent sample_running = Active" "pending sample_running = None" "active_bootstrap sample_running = Some 9"
  "stage (node_facts sample_running) = BootstrapRunning" "desired_spec (node_facts sample_running) = sample_spec"
  by (simp_all add: sample_bootstrap)

lemma ready_node:
  "intent sample_ready = Active" "desired_spec (node_facts sample_ready) = sample_spec" "ready (node_facts sample_ready)"
  "pending sample_ready = None"
  by (simp_all add: sample_bootstrap)

lemma sample_bootstrap_run:
  "\<exists>seen. driver_run (sample_driver [sample_group ''g'' 1] [(''g-0'', sample_spec)] 1 1 2 [(''g-0'', sample_running)] True (Some 15)) seen"
proof -
  have "driver_run (sample_driver [sample_group ''g'' 1] [(''g-0'', sample_spec)] 1 1 2 [(''g-0'', sample_leased)] True (Some 15)) [sample_create 1]"
    using driver_run.observed [OF sample_run, of "''g-0''" 1 "OperationSucceeded (OperationId 1 1) (LeaseCreated sample_lease)" 5]
      requested_node by (simp add: sample_observed sample_leased_def)
  moreover have "\<exists>seen. drive_next (logging (\<lambda>_. None)) 5
      (sample_driver [sample_group ''g'' 1] [(''g-0'', sample_spec)] 1 1 2 [(''g-0'', sample_leased)] True (Some 15)) [sample_create 1] =
      (Inr 1, sample_driver [sample_group ''g'' 1] [(''g-0'', sample_spec)] 1 1 2 [(''g-0'', sample_starting)] False (Some 15), seen)"
    using sample_pass(4) [OF sample_expand(1), of "''g-0''" sample_spec sample_leased 5
        "the (start_bootstrap_command (node_facts sample_leased))" 3 "logging (\<lambda>_. None)" "[sample_create 1]" _ 1 1 2 "Some 15"] leased_node
    by (simp add: logging_def sample_starting_def)
  ultimately obtain seen where "driver_run (sample_driver [sample_group ''g'' 1] [(''g-0'', sample_spec)] 1 1 2 [(''g-0'', sample_starting)] False (Some 15)) seen"
    using driver_run.pass by blast
  from driver_run.observed [OF this, of "''g-0''" 1 "OperationSucceeded (OperationId 1 2) (BootstrapStarted 9)" 5]
  show ?thesis using starting_node by (auto simp: sample_observed sample_running_def)
qed

lemma sample_ready_run:
  "\<exists>seen. driver_run (sample_driver [sample_group ''g'' 1] [(''g-0'', sample_spec)] 1 1 2 [(''g-0'', sample_ready)] True (Some 15)) seen"
proof -
  let ?joined = "observe sample_policy 8 (SwactorJoined 9 ''sw'') sample_running"
  obtain seen where "driver_run (sample_driver [sample_group ''g'' 1] [(''g-0'', sample_spec)] 1 1 2 [(''g-0'', sample_running)] True (Some 15)) seen"
    using sample_bootstrap_run by blast
  from driver_run.observed [OF this, of "''g-0''" 1 "SwactorJoined 9 ''sw''" 8]
  have "driver_run (sample_driver [sample_group ''g'' 1] [(''g-0'', sample_spec)] 1 1 2 [(''g-0'', ?joined)] True (Some 15)) seen"
    using running_node by (simp add: sample_observed)
  from driver_run.observed [OF this, of "''g-0''" 1 "BootstrapClosed 9" 9]
  have "driver_run (sample_driver [sample_group ''g'' 1] [(''g-0'', sample_spec)] 1 1 2 [(''g-0'', sample_ready)] True (Some 15)) seen"
    using running_node by (simp add: sample_observed sample_ready_def observe_def)
  then show ?thesis ..
qed

section \<open>What every run keeps\<close>

text \<open>C28. No operation is issued twice. In every run of the driver, through refusals, timeouts, replacements and
  shape changes, the operation identifiers handed to the executor are pairwise distinct, and no two slots share an
  attempt, so a late result can be matched to one dispatch of one slot only.\<close>

theorem operations_are_never_reissued:
  assumes "driver_run d seen"
  shows "distinct (map eff_operation seen) \<and>
    (\<forall>k k' n n'. node_at d k = Some n \<longrightarrow> node_at d k' = Some n' \<longrightarrow> attempt n = attempt n' \<longrightarrow> k = k') \<and>
    (\<forall>k n eff. node_at d k = Some n \<longrightarrow> eff \<in> set seen \<longrightarrow> eff_operation eff \<noteq> next_op n)"
proof (intro conjI)
  show "distinct (map eff_operation seen)"
    using driver_run_issued [OF assms] by blast
  show "\<forall>k k' n n'. node_at d k = Some n \<longrightarrow> node_at d k' = Some n' \<longrightarrow> attempt n = attempt n' \<longrightarrow> k = k'"
    using driver_run_inv [OF assms] unfolding driver_inv_def by blast
  show "\<forall>k n eff. node_at d k = Some n \<longrightarrow> eff \<in> set seen \<longrightarrow> eff_operation eff \<noteq> next_op n"
  proof (intro allI impI notI)
    fix k n eff
    assume n: "node_at d k = Some n" and eff: "eff \<in> set seen" and op: "eff_operation eff = next_op n"
    have "issued_before d eff"
      using driver_run_issued [OF assms] eff by blast
    then show False
      using n op unfolding issued_before_def next_op_def by fastforce
  qed
qed

theorem operations_are_never_reissued_witness:
  "driver_run (sample_driver [sample_group ''g'' 1] [(''g-0'', sample_spec)] 1 1 2 [(''g-0'', sample_requested)] False (Some 15)) [sample_create 1] \<and>
   next_op sample_requested \<noteq> OperationId 1 1"
  using operations_are_never_reissued [OF sample_run] sample_run by (simp add: sample_create_def) metis

text \<open>C29. Managed nodes are well formed. In every run of the driver each node keeps the typing of its stages: an
  endpoint needs a lease and a bootstrap session an endpoint; a ready node is wanted, dormant and has no session; a
  destroyed node holds no lease, session, operation or unresolved create; and the pending operation carries the
  attempt's own number and fits the facts it was issued for, so that a destroy is only under way for a leased node
  that is being deleted and whose session is gone.\<close>

theorem managed_nodes_are_typed:
  assumes "driver_run d seen" and "node_at d k = Some n"
  shows "node_typed n"
  using driver_run_inv [OF assms(1)] assms(2) by (auto simp: driver_inv_def)

theorem managed_nodes_are_typed_witness:
  "driver_run (sample_driver [sample_group ''g'' 1] [(''g-0'', sample_spec)] 1 1 2 [(''g-0'', sample_requested)] False (Some 15)) [sample_create 1] \<and>
   node_typed sample_requested"
  using managed_nodes_are_typed [OF sample_run, of "''g-0''" sample_requested] sample_run by simp

end
