(* ===== verification/Driver_Progress.thy ===== *)
theory Driver_Progress
  imports Driver_Runs
begin

text \<open>
  Progress of the driver at one instant: however the executor answers, \<open>drive_until_blocked\<close> returns, because
  each slot has a rank that falls with every pass until the slot waits for time or for an observation. And a
  converged cluster is a fixed point of a pass.
\<close>

section \<open>Retry delays\<close>

lemma delay_for_failure_bounds:
  assumes "0 < initial_delay p" and "0 < max_delay p"
  shows "0 < delay_for_failure p f" and "delay_for_failure p f \<le> max_delay p"
proof -
  have "0 < unat (push_bit (min e 31) (1 :: u32))" for e
    by (simp add: push_bit_of_1 unat_gt_0)
  then show "0 < delay_for_failure p f"
    using assms by (auto simp: delay_for_failure_def duration_checked_mul_def Let_def)
  show "delay_for_failure p f \<le> max_delay p"
    by (simp add: delay_for_failure_def Let_def)
qed

lemma sampled_retry_delay_bounds:
  assumes "0 < initial_delay p" and "0 < max_delay p" and "max_delay p + jitter p < DURATION_END"
  shows "0 < sampled_retry_delay p a f" and "sampled_retry_delay p a f \<le> max_delay p + jitter p"
proof -
  have sum: "delay_for_failure p f + x mod Suc (jitter p) \<le> max_delay p + jitter p" for x
    using delay_for_failure_bounds(2) [OF assms(1,2), of f] by (metis add_mono less_Suc_eq_le mod_less_divisor zero_less_Suc)
  then have "delay_for_failure p f + x mod Suc (jitter p) < DURATION_END" for x
    using assms(3) by (rule le_less_trans)
  then show "0 < sampled_retry_delay p a f" "sampled_retry_delay p a f \<le> max_delay p + jitter p"
    using delay_for_failure_bounds [OF assms(1,2), of f] sum
    by (auto simp: sampled_retry_delay_def duration_checked_add_def Let_def)
qed

text \<open>The clock is far enough from its end for the longest delay, and delays are not zero.\<close>

definition backoff_works :: "retry_policy \<Rightarrow> nat \<Rightarrow> bool" where
  "backoff_works p now \<longleftrightarrow> 0 < initial_delay p \<and> 0 < max_delay p \<and> now + max_delay p + jitter p < TIME_END"

lemma backoff_not_due:
  assumes "backoff_works p now"
  shows "not_due now (time_checked_add now (sampled_retry_delay p a f))"
proof -
  have "max_delay p + jitter p < DURATION_END"
    using assms by (simp add: backoff_works_def TIME_END_def DURATION_END_def)
  with sampled_retry_delay_bounds [of p a f] assms show ?thesis
    by (simp add: backoff_works_def time_checked_add_def not_due_def)
qed

section \<open>Ranks\<close>

definition destroyed_rank :: "nat \<Rightarrow> logical_node_spec option \<Rightarrow> managed_node \<Rightarrow> nat" where
  "destroyed_rank now ds n = (if ds = None \<or> not_due now (restart_at (retry n)) then 0 else 2)"

definition cleanup_rank :: "nat \<Rightarrow> logical_node_spec option \<Rightarrow> managed_node \<Rightarrow> nat" where
  "cleanup_rank now ds n =
     (if active_bootstrap n = None \<and> lease (node_facts n) = None then 1 + destroyed_rank now ds n else 1)"

definition deleting_rank :: "nat \<Rightarrow> logical_node_spec option \<Rightarrow> managed_node \<Rightarrow> nat" where
  "deleting_rank now ds n =
     (if pending n \<noteq> None \<or> not_due now (next_effect_at (retry n)) then 0
      else cleanup_rank now ds n + (if ambiguous_operation (retry n) \<in> {Some KCreateLease, Some KStartBootstrap} then 1 else 0))"

definition active_rank :: "nat \<Rightarrow> managed_node \<Rightarrow> nat" where
  "active_rank now n =
     (if pending n \<noteq> None then 0
      else case nd_action (decide_active n now) of
        Some (DDispatch c) \<Rightarrow> if for_command c \<in> {KCreateLease, KLookupEndpoint} then 1 else 3
      | _ \<Rightarrow> 0)"

fun slot_rank :: "nat \<Rightarrow> logical_node_spec option \<Rightarrow> managed_node option \<Rightarrow> nat" where
  "slot_rank now ds None = (if ds = None then 0 else 2)"
| "slot_rank now ds (Some n) =
     (if stage (node_facts n) = Destroyed then destroyed_rank now ds n
      else if intent n = Active \<and> (ds \<noteq> Some (desired_spec (node_facts n)) \<or> stage (node_facts n) = Failed)
        then 1 + deleting_rank now ds (begin_delete n)
      else if intent n = Deleting then deleting_rank now ds n else active_rank now n)"

lemma slot_rank_bound: "slot_rank now ds slot \<le> 5"
proof (cases slot)
  case (Some n)
  have cleanup: "cleanup_rank now ds m \<le> 3" for m
    by (simp add: cleanup_rank_def destroyed_rank_def)
  have deleting: "deleting_rank now ds m \<le> 4" for m
    using cleanup [of m] by (simp add: deleting_rank_def)
  have active: "active_rank now n \<le> 3"
    by (simp add: active_rank_def split: option.split node_decision_action.split)
  have destroyed: "destroyed_rank now ds n \<le> 2"
    by (simp add: destroyed_rank_def)
  show ?thesis
    using Some deleting [of n] deleting [of "begin_delete n"] active destroyed by simp
qed simp

text \<open>A slot of rank zero asks for nothing.\<close>

lemma cleanup_rank_pos: "0 < cleanup_rank now ds n"
  by (simp add: cleanup_rank_def)

lemma deleting_rank_zero: "deleting_rank now ds n = 0 \<Longrightarrow> pending n = None \<Longrightarrow> nd_action (decide_deleting n now) = None"
  using cleanup_rank_pos [of now ds n] by (auto simp: deleting_rank_def decide_deleting_def wait_def split: if_splits)

lemma active_rank_zero: "active_rank now n = 0 \<Longrightarrow> pending n = None \<Longrightarrow> nd_action (decide_active n now) = None"
  using active_only_dispatches [of n now]
  by (auto simp: active_rank_def split: option.splits if_splits node_decision_action.splits)

lemma rank_zero_idle:
  assumes "slot_rank now ds (Some n) = 0"
  shows "nd_action (reconcile_node n ds now) \<in> {None, Some DReap}"
proof (cases "nd_action (reconcile_node n ds now)")
  case (Some a)
  show ?thesis
  proof (cases a)
    case DBeginDelete
    then show ?thesis using Some assms by (auto simp: decides_begin_delete)
  next
    case DMarkDestroyed
    then show ?thesis using Some assms deleting_rank_zero [of now ds n] by (auto simp: decides_mark_destroyed)
  next
    case (DRestart s)
    then show ?thesis using Some assms by (auto simp: decides_restart destroyed_rank_def)
  next
    case DReap
    then show ?thesis using Some by simp
  next
    case (DDispatch c)
    then show ?thesis
      using Some assms deleting_rank_zero [of now ds n] active_rank_zero [of now n] by (auto simp: decides_dispatch)
  qed
qed simp

lemma rank_zero_quiet:
  assumes "slot_rank now ds slot = 0"
  shows "\<not> slot_dirty now slot ds" and "slot_effect now k slot ds = None"
proof -
  have "\<not> slot_dirty now slot ds \<and> slot_effect now k slot ds = None"
  proof (cases slot)
    case None
    then show ?thesis using assms by (simp split: if_splits)
  next
    case (Some n)
    then have "nd_action (reconcile_node n ds now) \<in> {None, Some DReap}"
      using rank_zero_idle assms by simp
    with Some show ?thesis by (auto simp: slot_effect.simps)
  qed
  then show "\<not> slot_dirty now slot ds" and "slot_effect now k slot ds = None" by simp_all
qed

section \<open>Ranks fall\<close>

lemma idle_rank:
  assumes "nd_action (reconcile_node n ds now) = None"
  shows "slot_rank now ds (Some n) = 0"
proof -
  have deleting: "deleting_rank now ds n = 0" if "nd_action (decide_deleting n now) = None"
    using that cleanup_decides(1) [of n]
    by (auto simp: deleting_rank_def decide_deleting_def decide_cleanup_def act_def wait_def split: if_splits option.splits)
  have active: "active_rank now n = 0" if "nd_action (decide_active n now) = None"
    using that by (simp add: active_rank_def)
  have busy: "deleting_rank now ds n = 0 \<and> active_rank now n = 0" if "pending n \<noteq> None"
    using that by (simp add: deleting_rank_def active_rank_def)
  show ?thesis
    using assms deleting active busy
    by (cases "intent n")
      (auto simp: reconcile_node_def decide_destroyed_def act_def wait_def destroyed_rank_def split: if_splits option.splits)
qed

lemma fresh_rank:
  assumes "node_facts n = from_spec s" and "intent n = Active" and "next_effect_at (retry n) = None" and "pending n = None"
  shows "slot_rank now (Some s) (Some n) = 1"
  using assms
  by (simp add: active_rank_def decide_active_def act_def not_due_def from_spec_def Let_def)

text \<open>What a refusal does to a node, by the kind of operation refused.\<close>

lemma rejected_ends_attempt:
  fixes n s op why
  assumes "for_command c \<in> {KStartBootstrap, KBootstrapConvergenceObserved}" and "backoff_works p now"
  defines "m \<equiv> rejected p now why (dispatched p now op c s n)"
  shows "stage (node_facts m) = Failed" and "intent m = intent n" and "pending m = None" and "ambiguous_operation (retry m) = None"
    and "next_effect_at (retry m) = None" and "not_due now (restart_at (retry m))" and "active_bootstrap m = active_bootstrap n"
    and "lease (node_facts m) = lease (node_facts n)"
  using assms(1) backoff_not_due [OF assms(2)]
  by (auto simp: m_def rejected_def record_failure_def mark_attempt_failed_def dispatched_def Let_def)

lemma rejected_while_deleting:
  fixes n s op why p now
  assumes "for_command c \<in> {KCreateLease, KLookupEndpoint}" and "intent n = Deleting"
  defines "m \<equiv> rejected p now why (dispatched p now op c s n)"
  shows "intent m = Deleting" and "pending m = None" and "ambiguous_operation (retry m) = None"
    and "next_effect_at (retry m) = None" and "restart_at (retry m) = restart_at (retry n)"
    and "active_bootstrap m = active_bootstrap n" and "lease (node_facts m) = lease (node_facts n)"
    and "stage (node_facts m) \<noteq> Destroyed \<or> stage (node_facts n) = Destroyed"
  using assms(1,2)
  by (auto simp: m_def rejected_def record_failure_def dispatched_def Let_def)

lemma rejected_backs_off:
  fixes n s op why
  assumes "for_command c \<in> {KCreateLease, KLookupEndpoint} \<and> intent n = Active \<or> for_command c \<in> {KCancelBootstrap, KDestroyLease}"
    and "backoff_works p now"
  defines "m \<equiv> rejected p now why (dispatched p now op c s n)"
  shows "intent m = intent n" and "not_due now (next_effect_at (retry m))"
    and "stage (node_facts m) \<in> {LeaseRequested, stage (node_facts n)}" and "desired_spec (node_facts m) = desired_spec (node_facts n)"
  using assms(1) backoff_not_due [OF assms(2)]
  by (auto simp: m_def rejected_def record_failure_def dispatched_def Let_def)

lemma accepted_rank:
  assumes "nd_action (reconcile_node n ds now) = Some (DDispatch c)"
  shows "slot_rank now ds (Some (dispatched p now op c s n)) = 0"
  using assms
  by (auto simp: decides_dispatch dispatched_def deleting_rank_def active_rank_def Let_def)

lemma deleting_dispatch_kinds:
  assumes "nd_action (decide_deleting n now) = Some (DDispatch c)"
  shows "for_command c = KCreateLease \<and> ambiguous_operation (retry n) = Some KCreateLease \<or>
    for_command c = KStartBootstrap \<and> ambiguous_operation (retry n) = Some KStartBootstrap \<or>
    for_command c \<in> {KCancelBootstrap, KDestroyLease}"
proof -
  have clean: "for_command c \<in> {KCancelBootstrap, KDestroyLease}" if "nd_action (decide_cleanup n) = Some (DDispatch c)"
    using that by (auto simp: decide_cleanup_def act_def split: if_splits option.splits)
  show ?thesis
    using assms clean
    by (auto simp: decide_deleting_def act_def wait_def start_bootstrap_command_def bind_eq_Some_conv split: if_splits option.splits)
qed

lemma active_dispatch_kinds:
  assumes "nd_action (decide_active n now) = Some (DDispatch c)" and "for_command c \<notin> {KCreateLease, KLookupEndpoint}"
  shows "for_command c \<in> {KStartBootstrap, KBootstrapConvergenceObserved}" and "lease (node_facts n) \<noteq> None"
  using assms
  by (auto simp: decide_active_def act_def wait_def start_bootstrap_command_def Let_def split: if_splits option.splits)

lemma rejected_rank:
  assumes dec: "nd_action (reconcile_node n ds now) = Some (DDispatch c)" and works: "backoff_works p now"
  shows "slot_rank now ds (Some (rejected p now why (dispatched p now op c s n))) \<le> slot_rank now ds (Some n) - 1"
proof -
  let ?m = "rejected p now why (dispatched p now op c s n)"
  note D = dec [unfolded decides_dispatch]
  show ?thesis
  proof (cases "intent n")
    case Deleting
    then have del: "nd_action (decide_deleting n now) = Some (DDispatch c)" and live: "stage (node_facts n) \<noteq> Destroyed" "pending n = None"
      using D by auto
    have due: "\<not> not_due now (next_effect_at (retry n))"
      using del by (auto simp: decide_deleting_def wait_def)
    have old: "slot_rank now ds (Some n) =
        cleanup_rank now ds n + (if ambiguous_operation (retry n) \<in> {Some KCreateLease, Some KStartBootstrap} then 1 else 0)"
      using Deleting live due by (simp add: deleting_rank_def)
    consider (create) "for_command c = KCreateLease" "ambiguous_operation (retry n) = Some KCreateLease"
      | (start) "for_command c = KStartBootstrap" "ambiguous_operation (retry n) = Some KStartBootstrap"
      | (clean) "for_command c \<in> {KCancelBootstrap, KDestroyLease}"
      using deleting_dispatch_kinds [OF del] by blast
    then show ?thesis
    proof cases
      case create
      then have kind: "for_command c \<in> {KCreateLease, KLookupEndpoint}" by simp
      note R = rejected_while_deleting [OF kind Deleting, where p = p and now = now and why = why and op = op and s = s]
      have "stage (node_facts ?m) \<noteq> Destroyed" using R(8) live by blast
      then have "slot_rank now ds (Some ?m) = cleanup_rank now ds n"
        using R(1-7) by (simp add: deleting_rank_def cleanup_rank_def destroyed_rank_def not_due_def)
      with old create(2) show ?thesis by simp
    next
      case start
      then have kind: "for_command c \<in> {KStartBootstrap, KBootstrapConvergenceObserved}" by simp
      note R = rejected_ends_attempt [OF kind works, where n = n and why = why and op = op and s = s]
      have "slot_rank now ds (Some ?m) = cleanup_rank now ds ?m" "destroyed_rank now ds ?m = 0"
        using R Deleting by (simp_all add: deleting_rank_def destroyed_rank_def not_due_def)
      then have "slot_rank now ds (Some ?m) \<le> cleanup_rank now ds n"
        using R(7,8) by (simp add: cleanup_rank_def)
      with old start(2) show ?thesis by simp
    next
      case clean
      note R = rejected_backs_off [OF disjI2 [OF clean] works, where n = n and why = why and op = op and s = s]
      have "stage (node_facts ?m) \<noteq> Destroyed" using R(3) live by auto
      then have "slot_rank now ds (Some ?m) = 0"
        using R(1,2) Deleting by (simp add: deleting_rank_def)
      then show ?thesis by simp
    qed
  next
    case Active
    then have act: "nd_action (decide_active n now) = Some (DDispatch c)" and ok: "ds = Some (desired_spec (node_facts n))"
        "stage (node_facts n) \<noteq> Failed" "stage (node_facts n) \<noteq> Destroyed" "pending n = None"
      using D by auto
    show ?thesis
    proof (cases "for_command c \<in> {KCreateLease, KLookupEndpoint}")
      case True
      note R = rejected_backs_off [OF disjI1 [OF conjI [OF True Active]] works, where why = why and op = op and s = s]
      have "stage (node_facts ?m) \<noteq> Destroyed" "stage (node_facts ?m) \<noteq> Failed" using R(3) ok by auto
      then have "slot_rank now ds (Some ?m) = active_rank now ?m"
        using R(1,4) Active ok(1) by simp
      also have "\<dots> = 0"
        using R(2) by (simp add: active_rank_def decide_active_def wait_def Let_def)
      finally show ?thesis by simp
    next
      case False
      then have kind: "for_command c \<in> {KStartBootstrap, KBootstrapConvergenceObserved}" and held: "lease (node_facts n) \<noteq> None"
        using active_dispatch_kinds [OF act] by blast+
      note R = rejected_ends_attempt [OF kind works, where n = n and why = why and op = op and s = s]
      have "slot_rank now ds (Some ?m) = 1 + deleting_rank now ds (begin_delete ?m)"
        using R(1,2) Active by simp
      also have "\<dots> \<le> 2"
        using R(3,4) R(8) held by (auto simp: deleting_rank_def cleanup_rank_def begin_delete_def not_due_def)
      finally have "slot_rank now ds (Some ?m) \<le> 2" .
      moreover have "slot_rank now ds (Some n) = 3"
        using act ok Active False by (simp add: active_rank_def)
      ultimately show ?thesis by simp
    qed
  qed
qed

lemma rank_falls:
  assumes works: "backoff_works p now" and rej: "rej \<noteq> None \<longrightarrow> slot_effect now k slot ds \<noteq> None"
  shows "slot_rank now ds (slot_driven p now a rej slot ds) \<le> slot_rank now ds slot - 1"
proof (cases slot)
  case None
  then have "rej = None" using rej by (cases rej) auto
  with None show ?thesis
    by (cases ds) (auto simp: slot_driven_def managed_node_new_def fresh_rank simp del: slot_rank.simps(2))
next
  case (Some n)
  show ?thesis
  proof (cases "nd_action (reconcile_node n ds now)")
    case None
    then have "rej = None" using rej Some by (cases rej) (auto simp: slot_effect.simps)
    with None Some idle_rank [OF None] show ?thesis
      by (simp add: slot_driven_def del: slot_rank.simps(2))
  next
    case (Some act)
    note dec = this
    have quiet: "rej = None" if "\<forall>c. act \<noteq> DDispatch c"
      using rej dec that \<open>slot = Some n\<close> by (cases rej; cases act) (auto simp: slot_effect.simps)
    show ?thesis
    proof (cases act)
      case DBeginDelete
      with dec have "stage (node_facts n) \<noteq> Destroyed" "intent n = Active"
          "ds \<noteq> Some (desired_spec (node_facts n)) \<or> stage (node_facts n) = Failed"
        by (simp_all add: decides_begin_delete)
      with DBeginDelete dec quiet \<open>slot = Some n\<close> show ?thesis
        by (auto simp: slot_driven_def begin_delete_def)
    next
      case DMarkDestroyed
      with dec have "destroyed_rank now ds n \<le> deleting_rank now ds n - 1" "stage (node_facts n) \<noteq> Destroyed" "intent n = Deleting"
        by (auto simp: decides_mark_destroyed deleting_marks_destroyed deleting_rank_def cleanup_rank_def)
      with DMarkDestroyed dec quiet \<open>slot = Some n\<close> show ?thesis
        by (simp add: slot_driven_def mark_destroyed_def destroyed_rank_def)
    next
      case (DRestart s)
      with dec have "slot_rank now ds (Some n) = 2" and ds: "ds = Some s"
        by (auto simp: decides_restart destroyed_rank_def)
      moreover have "slot_rank now (Some s) (Some (replacement n a s)) = 1"
        by (intro fresh_rank) (simp_all add: replacement_def managed_node_new_def)
      ultimately show ?thesis
        using DRestart dec quiet \<open>slot = Some n\<close> by (simp add: slot_driven_def del: slot_rank.simps(2))
    next
      case DReap
      then have "ds = None"
        using dec by (simp add: decides_reap)
      with DReap dec quiet \<open>slot = Some n\<close> show ?thesis
        by (simp add: slot_driven_def)
    next
      case (DDispatch c)
      show ?thesis
      proof (cases rej)
        case None
        then show ?thesis
          using accepted_rank dec DDispatch \<open>slot = Some n\<close> by (simp add: slot_driven_def del: slot_rank.simps(2))
      next
        case (Some why)
        then show ?thesis
          using rejected_rank dec DDispatch works \<open>slot = Some n\<close> by (simp add: slot_driven_def del: slot_rank.simps(2))
      qed
    qed
  qed
qed

section \<open>The loop ends\<close>

definition ranks_below :: "nat \<Rightarrow> nat \<Rightarrow> cluster_driver \<Rightarrow> bool" where
  "ranks_below now b d \<longleftrightarrow> (\<forall>k. slot_rank now (map_of (expanded_desired d) k) (node_at d k) \<le> b)"

lemma pass_lowers_ranks:
  assumes driven: "pass_driven R now (expanded_desired d) w d d'" and works: "backoff_works (driver_retry d) now" and below: "ranks_below now b d"
  shows "ranks_below now (b - 1) d'" and "b = 0 \<Longrightarrow> \<not> queued d'"
proof -
  have at: "node_at d' k = slot_driven (driver_retry d) now (alloc_of w k) (rejected_at w k) (node_at d k) (map_of (expanded_desired d) k)"
    and rej: "rejected_at w k \<noteq> None \<longrightarrow> slot_effect now k (node_at d k) (map_of (expanded_desired d) k) \<noteq> None" for k
    using driven by (auto simp: pass_driven_def)
  have "slot_rank now (map_of (expanded_desired d) k) (node_at d' k) \<le> b - 1" for k
  proof -
    have "slot_rank now (map_of (expanded_desired d) k) (node_at d' k) \<le> slot_rank now (map_of (expanded_desired d) k) (node_at d k) - 1"
      unfolding at by (rule rank_falls [OF works rej])
    also have "\<dots> \<le> b - 1"
      using below by (simp add: ranks_below_def diff_le_mono)
    finally show ?thesis .
  qed
  then show "ranks_below now (b - 1) d'"
    using driven by (simp add: ranks_below_def pass_driven_def)
  show "\<not> queued d'" if "b = 0"
  proof -
    have zero: "slot_rank now (map_of (expanded_desired d) k) (node_at d k) = 0" for k
      using below that by (simp add: ranks_below_def)
    have "\<not> slot_dirty now (node_at d k) (map_of (expanded_desired d) k) \<and> rejected_at w k = None" for k
      using rank_zero_quiet(1) [OF zero [of k]] rank_zero_quiet(2) [OF zero [of k], of k] rej [of k] by blast
    then show ?thesis
      using driven by (simp add: pass_driven_def)
  qed
qed

lemma drive_loop_step:
  assumes inv: "driver_inv d" and works: "backoff_works (driver_retry d) now" and below: "ranks_below now b d"
    and open_loop: "\<nexists>r. drive_loop submit now d e c = Some r"
  shows "\<exists>d' e' c'. driver_inv d' \<and> backoff_works (driver_retry d') now \<and> ranks_below now (b - 1) d' \<and> 0 < b \<and>
    (\<nexists>r. drive_loop submit now d' e' c' = Some r)"
proof -
  have q: "queued d"
    using open_loop by (subst (asm) drive_loop.simps) (auto split: if_splits)
  obtain res d' e' where drive: "drive_next submit now d e = (res, d', e')"
    by (cases "drive_next submit now d e") auto
  obtain x where res: "res = Inr x"
    using open_loop q drive by (subst (asm) drive_loop.simps) (cases res; simp)
  have next_open: "\<nexists>r. drive_loop submit now d' e' (saturating_add c x) = Some r"
    using open_loop q drive res by (subst (asm) drive_loop.simps) simp
  obtain w where driven: "pass_driven (may_refuse submit) now (expanded_desired d) w d d'"
    using drive_next_passes [of d "expanded_desired d" submit now e x d' e'] inv q drive res by (auto simp: driver_inv_def)
  have "queued d'"
    using next_open by (subst (asm) drive_loop.simps) (auto split: if_splits)
  then have "0 < b"
    using pass_lowers_ranks(2) [OF driven works below] by auto
  moreover have "driver_inv d'"
    using drive_next_moves [OF inv drive] slots_moved_inv [OF inv] by blast
  moreover have "driver_retry d' = driver_retry d"
    using driven by (simp add: pass_driven_def)
  ultimately show ?thesis
    using pass_lowers_ranks(1) [OF driven works below] next_open works by metis
qed

lemma drive_loop_returns:
  assumes "driver_inv d" and "backoff_works (driver_retry d) now" and "ranks_below now b d"
  shows "\<exists>r. drive_loop submit now d e c = Some r"
  using assms
proof (induction b arbitrary: d e c)
  case 0
  show ?case
  proof (rule ccontr)
    assume "\<nexists>r. drive_loop submit now d e c = Some r"
    from drive_loop_step [OF 0 this] show False by simp
  qed
next
  case (Suc b)
  show ?case
  proof (rule ccontr)
    assume "\<nexists>r. drive_loop submit now d e c = Some r"
    from drive_loop_step [OF Suc.prems this] obtain d' e' c' where "driver_inv d'" "backoff_works (driver_retry d') now"
        "ranks_below now b d'" "\<nexists>r. drive_loop submit now d' e' c' = Some r"
      by (simp only: diff_Suc_1) blast
    with Suc.IH [of d' e' c'] show False by blast
  qed
qed



section \<open>A converged cluster\<close>

lemma plan_keys_idle:
  assumes "\<forall>k\<in>set ks. \<exists>n. map_of obs k = Some n \<and> nd_action (reconcile_node n (map_of des k) now) = None"
  shows "\<exists>rq'. plan_keys obs des now ks nxt rq = Inr ([], rq')"
  using assms by (induction ks arbitrary: rq) (auto simp: Let_def)

lemma converged_keys:
  assumes inv: "driver_inv d" and conv: "is_converged d"
  shows "fst ` set (nodes (driver_state d)) = fst ` set (expanded_desired d)"
proof -
  have dist: "distinct (map fst (nodes (driver_state d)))" "distinct (map fst (expanded_desired d))"
    using inv expand_sorted bt_inv_distinct by (auto simp: driver_inv_def)
  have "fst ` set (expanded_desired d) \<subseteq> fst ` set (nodes (driver_state d))"
    using conv by (force simp: is_converged_def list_all_iff split: option.splits dest: map_of_SomeD)
  moreover have "card (fst ` set (expanded_desired d)) = card (fst ` set (nodes (driver_state d)))"
    using conv distinct_card [OF dist(1)] distinct_card [OF dist(2)] by (simp add: is_converged_def)
  ultimately show ?thesis
    by (metis card_subset_eq finite_imageI finite_set)
qed

lemma converged_node_idle:
  assumes inv: "driver_inv d" and conv: "is_converged d" and k: "k \<in> fst ` set (expanded_desired d)"
  shows "\<exists>n. node_at d k = Some n \<and> nd_action (reconcile_node n (map_of (expanded_desired d) k) now) = None"
proof -
  obtain spec where spec: "(k, spec) \<in> set (expanded_desired d)"
    using k by auto
  then have at: "map_of (expanded_desired d) k = Some spec"
    using inv unfolding driver_inv_def by (metis bt_inv_distinct expand_sorted map_of_is_SomeI)
  obtain n where n: "node_at d k = Some n" "intent n = Active" "desired_spec (node_facts n) = spec" "ready (node_facts n)" "pending n = None"
    using conv spec by (auto simp: is_converged_def list_all_iff split: option.splits)
  then have "stage (node_facts n) = Dormant"
    using inv by (auto simp: driver_inv_def node_typed_def)
  with n at show ?thesis
    by (auto simp: reconcile_node_def decide_active_def wait_def Let_def)
qed

lemma converged_pass:
  assumes inv: "driver_inv d" and conv: "is_converged d" and q: "queued d"
  shows "\<exists>rq. drive_next submit now d e = (Inr 0, d\<lparr>queued := False, requeue_at := rq\<rparr>, e)"
proof -
  let ?d = "d\<lparr>queued := False, processing := True\<rparr>"
  have des: "expand (driver_desired d) = Inr (expanded_desired d)" and idle: "\<not> processing d" "\<not> dirty d"
    using inv by (auto simp: driver_inv_def)
  obtain rq where "plan_keys (nodes (driver_state d)) (expanded_desired d) now (union_keys (nodes (driver_state d)) (expanded_desired d))
      (next_attempt_id (driver_state d)) None = Inr ([], rq)"
    using plan_keys_idle converged_node_idle [OF inv conv] converged_keys [OF inv conv] by (metis Un_absorb set_union_keys)
  then have "reconcile (driver_state d) (driver_desired d) now =
      Inr \<lparr>plan_actions = [], plan_generation = cs_generation (driver_desired d), plan_requeue_at = rq\<rparr>"
    using des by (simp add: reconcile_def)
  then have "run_pass now ?d = (Inr [], ?d\<lparr>requeue_at := rq\<rparr>)"
    using conv by (simp add: run_pass_def is_converged_def)
  moreover have "finish_drive (?d\<lparr>requeue_at := rq\<rparr>) = d\<lparr>queued := False, requeue_at := rq\<rparr>"
    using idle by (cases d) (simp add: finish_drive_def Let_def)
  ultimately show ?thesis
    using q idle by (auto simp: drive_next_def)
qed

text \<open>C32. A converged cluster is settled. In a driver reached by any sequence of calls for which
  \<open>is_converged\<close> holds, \<open>drive_until_blocked\<close> submits nothing and returns with the observed state as it was, at every instant and
  for every executor, and the cluster is still converged.\<close>

theorem converged_is_settled:
  assumes "driver_run d seen" and "is_converged d"
  shows "\<exists>d'. drive_until_blocked submit now d e = Some (Inr 0, d', e) \<and> driver_state d' = driver_state d \<and> is_converged d'"
proof (cases "queued d")
  case False
  then show ?thesis
    using assms(2) unfolding drive_until_blocked_def by (subst drive_loop.simps) simp
next
  case True
  then obtain rq where "drive_next submit now d e = (Inr 0, d\<lparr>queued := False, requeue_at := rq\<rparr>, e)"
    using converged_pass [OF driver_run_inv [OF assms(1)] assms(2) True, of submit now e] by blast
  then have "drive_until_blocked submit now d e = Some (Inr 0, d\<lparr>queued := False, requeue_at := rq\<rparr>, e)"
    using True unfolding drive_until_blocked_def
    by (subst drive_loop.simps, simp, subst drive_loop.simps) (simp add: saturating_add_def)
  then show ?thesis
    using assms(2) by (auto simp: is_converged_def)
qed

theorem converged_is_settled_witness:
  "ready (node_facts sample_ready) \<and>
   (\<exists>d'. drive_until_blocked (\<lambda>_ e. (None, e)) 10
     (sample_driver [sample_group ''g'' 1] [(''g-0'', sample_spec)] 1 1 2 [(''g-0'', sample_ready)] True (Some 15)) () = Some (Inr 0, d', ()) \<and>
     is_converged d')"
proof -
  let ?d = "sample_driver [sample_group ''g'' 1] [(''g-0'', sample_spec)] 1 1 2 [(''g-0'', sample_ready)] True (Some 15)"
  obtain seen where run: "driver_run ?d seen"
    using sample_ready_run by blast
  have "is_converged ?d"
    using ready_node by (simp add: is_converged_def sample_driver_def sample_shape_def)
  from converged_is_settled [OF run this, of "\<lambda>_ e. (None, e)" 10 "()"] show ?thesis
    using ready_node by blast
qed

section \<open>A cancelled bootstrap\<close>

definition stranded :: "managed_node \<Rightarrow> bool" where
  "stranded n \<longleftrightarrow>
     intent n = Active \<and> pending n = None \<and> active_bootstrap n = None \<and> connection (node_facts n) \<noteq> None \<and>
     lease (node_facts n) \<noteq> None \<and> stage (node_facts n) = BootstrapRunning \<and> \<not> ready (node_facts n)"

lemma stranded_no_action: "stranded n \<Longrightarrow> nd_action (reconcile_node n (Some (desired_spec (node_facts n))) now) = None"
  by (auto simp: stranded_def reconcile_node_def decide_active_def wait_def Let_def)

lemma stranded_no_observation: "stranded n \<Longrightarrow> \<not> observation_matches n ob"
  by (cases ob) (auto simp: stranded_def)

lemma cancelled_strands:
  assumes "node_typed n" and "intent n = Active" and "pending n = None" and "stage (node_facts n) = BootstrapRunning"
    and "active_bootstrap n = Some session" and "obs_stage obs = Cancelled"
  shows "stranded (observe p now (BootstrapObserved session obs) n)"
    and "desired_spec (node_facts (observe p now (BootstrapObserved session obs) n)) = desired_spec (node_facts n)"
  using assms by (auto simp: observe_def bootstrap_observed_def stranded_def node_typed_def Let_def)



end
