(* ===== verification/Lease_Tracking.thy ===== *)
theory Lease_Tracking
  imports Driver_Progress
begin

text \<open>
  The driver together with a provider that holds leases. The provider is given by what its documentation in
  \<open>crates/provisioning/src/executor.rs\<close> promises: a lease is identified by the attempt that asked for it, a
  create that ends in a definite error has left no lease, one that ends ambiguously or is still under way may
  leave one at any later time, and a destroyed lease is gone.
\<close>

definition create_open :: "managed_node \<Rightarrow> bool" where
  "create_open n \<longleftrightarrow> map_option po_kind (pending n) = Some KCreateLease \<or> ambiguous_operation (retry n) = Some KCreateLease"

text \<open>A node answers for the lease of its attempt when it records it or knows that it may exist.\<close>

definition answers_for_lease :: "managed_node \<Rightarrow> bool" where
  "answers_for_lease n \<longleftrightarrow> lease (node_facts n) \<noteq> None \<or> create_open n"

fun leases_after :: "operation_kind \<Rightarrow> effect_error + operation_outcome \<Rightarrow> u64 \<Rightarrow> u64 set \<Rightarrow> u64 set" where
  "leases_after KCreateLease (Inr _) a live = insert a live"
| "leases_after KCreateLease (Inl e) a live = (if ee_disposition e = Definite then live - {a} else live)"
| "leases_after KDestroyLease (Inr _) a live = live - {a}"
| "leases_after _ _ a live = live"

inductive provider_run :: "cluster_driver \<Rightarrow> u64 set \<Rightarrow> bool" where
  start: "driver_new c p = Inr d \<Longrightarrow> provider_run d {}"
| trigger: "provider_run d live \<Longrightarrow> provider_run (driver_trigger d) live"
| update: "provider_run d live \<Longrightarrow> provider_run (snd (update_desired c d)) live"
| due: "provider_run d live \<Longrightarrow> provider_run (snd (trigger_if_due now d)) live"
| appears: "provider_run d live \<Longrightarrow> node_at d k = Some n \<Longrightarrow> create_open n \<Longrightarrow> provider_run d (insert (attempt n) live)"
| bootstrap: "provider_run d live \<Longrightarrow> is_bootstrap_event ob \<Longrightarrow> provider_run (snd (apply_observation k a ob now d)) live"
| completed: "provider_run d live \<Longrightarrow> node_at d k = Some n \<Longrightarrow> pending n = Some q \<Longrightarrow>
    (\<forall>outcome. res = Inr outcome \<longrightarrow> outcome_kind outcome = po_kind q) \<Longrightarrow>
    provider_run (snd (apply_executor_result \<lparr>er_node = k, er_operation = po_id q, er_result = res\<rparr> now d))
      (leases_after (po_kind q) res (attempt n) live)"
| pass: "provider_run d live \<Longrightarrow> drive_next (logging reply) now d seen = (res, d', seen') \<Longrightarrow>
    (\<forall>eff. reply eff \<noteq> None \<longrightarrow> for_command (eff_command eff) = KCreateLease \<longrightarrow> op_attempt (eff_operation eff) \<notin> live) \<Longrightarrow>
    provider_run d' live"

definition leases_tracked :: "cluster_driver \<Rightarrow> u64 set \<Rightarrow> bool" where
  "leases_tracked d live \<longleftrightarrow> (\<forall>a\<in>live. \<exists>k n. node_at d k = Some n \<and> attempt n = a \<and> answers_for_lease n)"

section \<open>Steps keep answering\<close>

lemma destroyed_does_not_answer:
  "node_typed n \<Longrightarrow> stage (node_facts n) = Destroyed \<Longrightarrow> \<not> answers_for_lease n"
  by (simp add: node_typed_def answers_for_lease_def create_open_def)

lemma slot_step_answers:
  assumes "node_typed n" and "answers_for_lease n"
  shows "\<exists>n'. slot_step p now a (Some n) ds = Some n' \<and> attempt n' = attempt n \<and> answers_for_lease n'"
proof (cases "nd_action (reconcile_node n ds now)")
  case None
  then show ?thesis using assms by simp
next
  case (Some act)
  show ?thesis
  proof (cases act)
    case DBeginDelete
    then show ?thesis
      using Some assms(2) by (auto simp: begin_delete_def answers_for_lease_def create_open_def)
  next
    case DMarkDestroyed
    then show ?thesis
      using Some assms(2)
      by (auto simp: decides_mark_destroyed deleting_marks_destroyed answers_for_lease_def create_open_def)
  next
    case (DRestart s)
    then show ?thesis
      using Some destroyed_does_not_answer [OF assms(1)] assms(2) by (simp add: decides_restart)
  next
    case DReap
    then show ?thesis
      using Some destroyed_does_not_answer [OF assms(1)] assms(2) by (simp add: decides_reap)
  next
    case (DDispatch c)
    have "pending n = None"
      using Some DDispatch by (simp add: decides_dispatch)
    with Some DDispatch assms(2) show ?thesis
      by (auto simp: dispatched_def answers_for_lease_def create_open_def Let_def)
  qed
qed

lemma rejected_answers:
  assumes "node_typed n" and "pending n = Some q" and "answers_for_lease n" and "po_kind q \<noteq> KCreateLease"
  shows "answers_for_lease (rejected p now why n)"
proof -
  have "lease (node_facts n) \<noteq> None"
    using assms(1,2,4) by (cases "po_kind q") (auto simp: node_typed_def pending_typed_def)
  then show ?thesis
    by (auto simp: rejected_def record_failure_def mark_attempt_failed_def answers_for_lease_def Let_def)
qed

lemma bootstrap_event_answers:
  assumes "node_typed n" and "observation_matches n ob" and "is_bootstrap_event ob"
  shows "answers_for_lease (observe p now ob n)"
proof -
  have held: "lease (node_facts n) \<noteq> None"
    using assms by (cases ob) (auto simp: node_typed_def)
  then have failed: "lease (node_facts (mark_attempt_failed p now why m)) \<noteq> None" if "node_facts m = node_facts n \<or> lease (node_facts m) = lease (node_facts n)" for m why
    using that by (auto simp: mark_attempt_failed_def Let_def)
  have finished: "lease (node_facts (finish_bootstrap p now m)) \<noteq> None" if "lease (node_facts m) = lease (node_facts n)" for m
    using that held failed [of m] by (auto simp: finish_bootstrap_def split: option.split)
  have "lease (node_facts (observe p now ob n)) \<noteq> None"
    using assms(3) held failed finished by (cases ob) (auto simp: observe_def bootstrap_observed_def Let_def)
  then show ?thesis by (simp add: answers_for_lease_def)
qed

lemma result_answers:
  assumes "node_typed n" and "pending n = Some q" and "answers_for_lease n"
    and "\<forall>outcome. res = Inr outcome \<longrightarrow> outcome_kind outcome = po_kind q"
    and "attempt n \<in> leases_after (po_kind q) res (attempt n) live"
  shows "answers_for_lease (observe p now (case res of Inr out \<Rightarrow> OperationSucceeded (po_id q) out | Inl e \<Rightarrow> OperationFailed (po_id q) e) n)"
proof (cases res)
  case (Inl e)
  show ?thesis
  proof (cases "po_kind q = KCreateLease")
    case True
    then have "ee_disposition e = Ambiguous"
      using assms(5) Inl by (cases "ee_disposition e") auto
    with True Inl assms(2) show ?thesis
      by (simp add: observe_def record_failure_def answers_for_lease_def create_open_def Let_def)
  next
    case False
    then have "lease (node_facts n) \<noteq> None"
      using assms(1,2) by (cases "po_kind q") (auto simp: node_typed_def pending_typed_def)
    with Inl assms(2) show ?thesis
      by (auto simp: observe_def record_failure_def mark_attempt_failed_def answers_for_lease_def Let_def)
  qed
next
  case (Inr out)
  then have kind: "outcome_kind out = po_kind q" using assms(4) by simp
  show ?thesis
  proof (cases "po_kind q = KCreateLease")
    case True
    then show ?thesis
      using kind Inr assms(2) by (cases out) (auto simp: observe_def answers_for_lease_def split: option.split)
  next
    case False
    then have "lease (node_facts n) \<noteq> None"
      using assms(1,2) by (cases "po_kind q") (auto simp: node_typed_def pending_typed_def)
    with False kind Inr assms(2,5) show ?thesis
      by (cases "(p, now, out, n)" rule: operation_succeeded.cases) (auto simp: observe_def answers_for_lease_def)
  qed
qed

section \<open>Every lease has a node\<close>

lemma observation_cases:
  assumes "node_at d k = Some n"
  shows "node_at (snd (apply_observation k a ob now d)) =
    (if attempt n = a \<and> observation_matches n ob then (node_at d)(k \<mapsto> observe (driver_retry d) now ob n) else node_at d)"
  using assms by (auto simp: apply_observation_def driver_trigger_def fun_eq_iff)

lemma tracked_observation:
  assumes tracked: "leases_tracked d live" and n: "node_at d k = Some n" and sub: "live' \<subseteq> insert (attempt n) live"
    and new: "attempt n = a \<Longrightarrow> observation_matches n ob \<Longrightarrow> attempt n \<in> live' \<Longrightarrow> answers_for_lease (observe (driver_retry d) now ob n)"
    and old: "\<not> (attempt n = a \<and> observation_matches n ob) \<Longrightarrow> live' \<subseteq> live"
  shows "leases_tracked (snd (apply_observation k a ob now d)) live'"
proof (cases "attempt n = a \<and> observation_matches n ob")
  case False
  then show ?thesis
    using tracked old observation_cases [OF n, of a ob now] by (auto simp: leases_tracked_def)
next
  case True
  let ?m = "observe (driver_retry d) now ob n"
  have at: "node_at (snd (apply_observation k a ob now d)) = (node_at d)(k \<mapsto> ?m)"
    using observation_cases [OF n, of a ob now] True by (simp add: fun_eq_iff)
  have "\<exists>k' m. ((node_at d)(k \<mapsto> ?m)) k' = Some m \<and> attempt m = x \<and> answers_for_lease m" if x: "x \<in> live'" for x
  proof (cases "x = attempt n")
    case True
    then have "((node_at d)(k \<mapsto> ?m)) k = Some ?m \<and> attempt ?m = x \<and> answers_for_lease ?m"
      using new \<open>attempt n = a \<and> observation_matches n ob\<close> x by simp
    then show ?thesis by blast
  next
    case False
    then have "x \<in> live" using sub x by auto
    then obtain k' m where m: "node_at d k' = Some m" "attempt m = x" "answers_for_lease m"
      using tracked unfolding leases_tracked_def by blast
    then have "k' \<noteq> k" using n False by auto
    with m have "((node_at d)(k \<mapsto> ?m)) k' = Some m \<and> attempt m = x \<and> answers_for_lease m" by simp
    then show ?thesis by blast
  qed
  then show ?thesis
    unfolding leases_tracked_def at by blast
qed

lemma tracked_moved:
  assumes inv: "driver_inv d" and moved: "slots_moved R now w K d d'" and tracked: "leases_tracked d live"
    and ok: "\<And>eff. R eff \<Longrightarrow> for_command (eff_command eff) = KCreateLease \<Longrightarrow> op_attempt (eff_operation eff) \<notin> live"
  shows "leases_tracked d' live"
  unfolding leases_tracked_def
proof
  fix x assume x: "x \<in> live"
  then obtain k n where n: "node_at d k = Some n" "attempt n = x" "answers_for_lease n"
    using tracked by (auto simp: leases_tracked_def)
  have typed: "node_typed n" using inv n(1) by (auto simp: driver_inv_def)
  let ?ds = "map_of (expanded_desired d) k"
  let ?step = "slot_step (driver_retry d) now (alloc_of w k) (Some n) ?ds"
  obtain m where m: "?step = Some m" "attempt m = x" "answers_for_lease m"
    using slot_step_answers [OF typed n(3)] n(2) by blast
  have at: "node_at d' k = (if k \<in> K then slot_driven (driver_retry d) now (alloc_of w k) (rejected_at w k) (Some n) ?ds else Some n)"
    using moved n(1) by (simp add: slots_moved_def Let_def)
  show "\<exists>k n. node_at d' k = Some n \<and> attempt n = x \<and> answers_for_lease n"
  proof (cases "k \<in> K \<and> rejected_at w k \<noteq> None")
    case False
    then have "node_at d' k = Some n \<or> node_at d' k = Some m"
      using at m(1) by (auto simp: slot_driven_def)
    then show ?thesis using n m by blast
  next
    case True
    then obtain why eff where why: "rejected_at w k = Some why" "slot_effect now k (Some n) ?ds = Some eff" "R eff"
      using moved n(1) by (auto simp: slots_moved_def Let_def)
    then have dec: "nd_action (reconcile_node n ?ds now) = Some (DDispatch (eff_command eff))" and op: "eff_operation eff = next_op n"
      by (auto simp: slot_effect_Some)
    have kind: "for_command (eff_command eff) \<noteq> KCreateLease"
      using ok [OF why(3)] x n(2) op by (auto simp: next_op_def)
    have m': "m = dispatched (driver_retry d) now (next_op n) (eff_command eff) (next_operation_sequence n + 1) n"
      using m(1) dec by simp
    have num: "slot_numbered now (Some n) ?ds"
      using moved n(1) True by (auto simp: slots_moved_def Let_def)
    then have "node_typed m"
      unfolding m' using dec by (intro typed_dispatched [OF typed]) (auto simp: slot_numbered.simps)
    then have "answers_for_lease (rejected (driver_retry d) now why m)"
      using m(3) kind by (intro rejected_answers) (auto simp: m')
    moreover have "node_at d' k = Some (rejected (driver_retry d) now why m)"
      using at m(1) True why(1) by (simp add: slot_driven_def)
    moreover have "attempt (rejected (driver_retry d) now why m) = x"
      using m(2) by simp
    ultimately show ?thesis by blast
  qed
qed

lemma provider_run_inv: "provider_run d live \<Longrightarrow> driver_inv d \<and> leases_tracked d live"
proof (induction rule: provider_run.induct)
  case (start c p d)
  then show ?case
    using driver_run_inv [OF driver_run.start] by (simp add: leases_tracked_def)
next
  case (trigger d live)
  then show ?case by (auto simp: driver_trigger_def driver_inv_def leases_tracked_def)
next
  case (update d live c)
  then show ?case
    by (auto simp: update_desired_def driver_trigger_def driver_inv_def leases_tracked_def Let_def split: sum.splits)
next
  case (due d live now)
  then show ?case by (auto simp: trigger_if_due_def driver_trigger_def driver_inv_def leases_tracked_def)
next
  case (appears d live k n)
  then show ?case by (auto simp: leases_tracked_def answers_for_lease_def)
next
  case (bootstrap d live ob k a now)
  have "leases_tracked (snd (apply_observation k a ob now d)) live"
  proof (cases "node_at d k")
    case None
    then show ?thesis using bootstrap.IH by (simp add: apply_observation_def)
  next
    case (Some n)
    have "node_typed n" using bootstrap.IH Some by (auto simp: driver_inv_def)
    with Some bootstrap show ?thesis
      by (intro tracked_observation [OF _ Some]) (auto intro: bootstrap_event_answers)
  qed
  then show ?case using observation_inv bootstrap.IH by blast
next
  case (completed d live k n q res now)
  let ?ob = "case res of Inr out \<Rightarrow> OperationSucceeded (po_id q) out | Inl e \<Rightarrow> OperationFailed (po_id q) e"
  let ?live = "leases_after (po_kind q) res (attempt n) live"
  have typed: "node_typed n"
    using completed.IH completed.hyps(2) unfolding driver_inv_def by blast
  have id: "op_attempt (po_id q) = attempt n"
    using typed completed.hyps(3) by (simp add: node_typed_def pending_typed_def)
  have matches: "observation_matches n ?ob"
    using completed.hyps(3,4) by (auto split: sum.split)
  have sub: "?live \<subseteq> insert (attempt n) live"
    by (cases "(po_kind q, res, attempt n, live)" rule: leases_after.cases) auto
  have "leases_tracked (snd (apply_observation k (attempt n) ?ob now d)) ?live"
  proof (rule tracked_observation [OF _ completed.hyps(2) sub])
    show "leases_tracked d live" using completed.IH by blast
    assume kept: "attempt n \<in> ?live"
    show "answers_for_lease (observe (driver_retry d) now ?ob n)"
    proof (cases "answers_for_lease n")
      case True
      then show ?thesis using result_answers [OF typed completed.hyps(3) _ completed.hyps(4) kept] by blast
    next
      case False
      then show ?thesis
        using typed completed.hyps(3)
        by (cases "po_kind q") (auto simp: answers_for_lease_def create_open_def node_typed_def pending_typed_def)
    qed
  qed (use matches in simp)
  then show ?case
    using observation_inv completed.IH id by (cases res) (simp_all add: apply_executor_result_def)
next
  case (pass d live reply now seen res d' seen')
  obtain w K where moved: "slots_moved (may_refuse (logging reply)) now w K d d'"
    using drive_next_moves [OF _ pass.hyps(2)] pass.IH by blast
  have "leases_tracked d' live"
    using pass.IH pass.hyps(3) by (intro tracked_moved [OF _ moved]) (auto simp: may_refuse_def logging_def)
  then show ?case using slots_moved_inv [OF _ moved] pass.IH by blast
qed

section \<open>A create whose outcome is unknown\<close>

lemma sample_provider_run:
  "provider_run (sample_driver [sample_group ''g'' 1] [(''g-0'', sample_spec)] 1 1 2 [(''g-0'', sample_ambiguous)] True (Some 15)) {1}"
proof -
  have "provider_run (sample_driver [sample_group ''g'' 1] [(''g-0'', sample_spec)] 1 0 1 [] True None) {}"
    using sample_new by (rule provider_run.start)
  from provider_run.pass [OF this sample_first_pass] have
    "provider_run (sample_driver [sample_group ''g'' 1] [(''g-0'', sample_spec)] 1 1 2 [(''g-0'', managed_node_new 1 sample_spec)] True None) {}" by simp
  from provider_run.pass [OF this sample_requested_pass] have
    "provider_run (sample_driver [sample_group ''g'' 1] [(''g-0'', sample_spec)] 1 1 2 [(''g-0'', sample_requested)] False (Some 15)) {}" by simp
  from provider_run.completed [OF this, of "''g-0''" sample_requested _ "Inl \<lparr>reason = ''deadline'', ee_disposition = Ambiguous\<rparr>" 6]
  have "provider_run (sample_driver [sample_group ''g'' 1] [(''g-0'', sample_spec)] 1 1 2 [(''g-0'', sample_ambiguous)] True (Some 15)) {}"
    using requested_node sample_fails by (simp add: sample_driver_def [of _ _ _ _ _ "[(''g-0'', sample_requested)]"])
  from provider_run.appears [OF this, of "''g-0''" sample_ambiguous] show ?thesis
    using ambiguous_node by (simp add: sample_driver_def create_open_def)
qed

lemma sample_deleting_run:
  "provider_run (sample_driver [] [] 2 2 2 [(''g-0'', begin_delete sample_ambiguous)] True None) {1}"
proof -
  have "provider_run (sample_driver [] [] 2 1 2 [(''g-0'', sample_ambiguous)] True (Some 15)) {1}"
    using provider_run.update [OF sample_provider_run, of "sample_shape 2 []"] sample_update by simp
  moreover have "drive_next (logging (\<lambda>_. None)) 6 (sample_driver [] [] 2 1 2 [(''g-0'', sample_ambiguous)] True (Some 15)) [] =
      (Inr 0, sample_driver [] [] 2 2 2 [(''g-0'', begin_delete sample_ambiguous)] True None, [])"
    using ambiguous_node by (intro sample_pass(1)) simp_all
  ultimately show ?thesis
    by (rule provider_run.pass) simp
qed

section \<open>Leases and the nodes that answer for them\<close>



text \<open>C34. The assumption on refusals is needed. A create that timed out may have made a lease; when the shape no longer
  asks for the node, the driver repeats the create to adopt that lease. If the executor refuses this repeated create,
  the refusal is recorded as a definite failure, the node is marked destroyed and removed, and the driver reports the
  empty cluster as converged although the provider still holds the lease.\<close>

theorem refused_adoption_leaks_lease:
  "\<exists>d d'. provider_run d {1} \<and> drive_until_blocked (\<lambda>_ e. (Some ''queue closed'', e)) 7 d () = Some (Inr 0, d', ()) \<and>
     nodes (driver_state d') = [] \<and> is_converged d'"
proof (intro exI conjI)
  show "provider_run (sample_driver [] [] 2 2 2 [(''g-0'', begin_delete sample_ambiguous)] True None) {1}"
    by (rule sample_deleting_run)
  show "drive_until_blocked (\<lambda>_ e. (Some ''queue closed'', e)) 7 (sample_driver [] [] 2 2 2 [(''g-0'', begin_delete sample_ambiguous)] True None) () =
     Some (Inr 0, sample_driver [] [] 2 2 2 [] False None, ())"
    by (rule sample_drain)
qed (simp_all add: sample_driver_def is_converged_def sample_shape_def)

end
