(* ===== verification/Effect_Executor.thy ===== *)
theory Effect_Executor
  imports Driver_Runs "HOL-Library.Multiset"
begin

text \<open>
  The executor behind the driver (\<open>crates/provisioning/src/executor.rs\<close>): a ledger of operations shared between the
  submitting thread and the threads that run the backend. Every section of the code that holds the lock is one
  function of the ledger. The backend's answer and the success of a spawn are arguments. The channel of results is
  never closed while the executor exists, because the executor owns its receiver, so that error of \<open>submit_inner\<close>
  does not occur; a result is sent in the step that records it.
\<close>

section \<open>The ledger\<close>

datatype ledger_state = Running | Queued | Completed

record ledger_entry =
  le_effect :: planned_effect
  le_state :: ledger_state
  le_result :: "executor_result option"

definition entry_running :: "planned_effect \<Rightarrow> ledger_entry" where
  "entry_running eff = \<lparr>le_effect = eff, le_state = Running, le_result = None\<rparr>"

definition entry_queued :: "planned_effect \<Rightarrow> ledger_entry" where
  "entry_queued eff = \<lparr>le_effect = eff, le_state = Queued, le_result = None\<rparr>"

definition entry_completed :: "planned_effect \<Rightarrow> executor_result \<Rightarrow> ledger_entry" where
  "entry_completed eff r = \<lparr>le_effect = eff, le_state = Completed, le_result = Some r\<rparr>"

record attempt_resources =
  lease_live :: bool
  bootstrap_live :: bool

record executor_ledger =
  operations :: "(operation_id \<times> ledger_entry) list"
  in_flight_by_attempt :: "(u64 \<times> operation_id) list"
  running_by_attempt :: "(u64 \<times> operation_id) list"
  queued_by_attempt :: "(u64 \<times> operation_id) list"
  resources :: "(u64 \<times> attempt_resources) list"

definition ledger_default :: executor_ledger where
  "ledger_default =
     \<lparr>operations = [], in_flight_by_attempt = [], running_by_attempt = [], queued_by_attempt = [], resources = []\<rparr>"

definition resources_default :: attempt_resources where
  "resources_default = \<lparr>lease_live = False, bootstrap_live = False\<rparr>"

datatype executor_operation_status = StatusUnknown | StatusInFlight | StatusCompleted

definition operation_status :: "operation_id \<Rightarrow> executor_ledger \<Rightarrow> executor_operation_status" where
  "operation_status op L =
     (case map_of (operations L) op of
        None \<Rightarrow> StatusUnknown
      | Some entry \<Rightarrow> if le_state entry = Completed then StatusCompleted else StatusInFlight)"

definition attempt_resources_of :: "u64 \<Rightarrow> executor_ledger \<Rightarrow> attempt_resources" where
  "attempt_resources_of a L = (case map_of (resources L) a of Some r \<Rightarrow> r | None \<Rightarrow> resources_default)"

text \<open>Taking an operation out of a per-attempt index, if it is the one recorded there.\<close>

definition release :: "operation_id \<Rightarrow> (u64 \<times> operation_id) list \<Rightarrow> (u64 \<times> operation_id) list" where
  "release op m = (if map_of m (op_attempt op) = Some op then bt_remove (op_attempt op) m else m)"

section \<open>Submission and expiry\<close>

datatype submit_reply = Refused string | Replayed executor_result | Accepted | Spawn

definition submit_ledger :: "planned_effect \<Rightarrow> executor_ledger \<Rightarrow> submit_reply \<times> executor_ledger" where
  "submit_ledger eff L =
     (let op = eff_operation eff; a = op_attempt op in
      case map_of (operations L) op of
        Some entry \<Rightarrow>
          if le_effect entry \<noteq> eff
            then (Refused (''operation identity for attempt '' @ decimal (unat a) @ '' sequence '' @ decimal (unat (op_sequence op)) @
              '' was reused with different input''), L)
          else (case le_result entry of Some r \<Rightarrow> (Replayed r, L) | None \<Rightarrow> (Accepted, L))
      | None \<Rightarrow>
          (case map_of (in_flight_by_attempt L) a of
             Some busy \<Rightarrow> (Refused (''attempt '' @ decimal (unat a) @ '' already has operation '' @ decimal (unat (op_sequence busy)) @
               '' in flight''), L)
           | None \<Rightarrow>
               if map_of (running_by_attempt L) a \<noteq> None then
                 if map_of (queued_by_attempt L) a \<noteq> None
                   then (Refused (''attempt '' @ decimal (unat a) @ '' already has an adoption operation queued''), L)
                 else (Accepted, L\<lparr>queued_by_attempt := bt_insert a op (queued_by_attempt L),
                   operations := bt_insert op (entry_queued eff) (operations L),
                   in_flight_by_attempt := bt_insert a op (in_flight_by_attempt L)\<rparr>)
               else (Spawn, L\<lparr>running_by_attempt := bt_insert a op (running_by_attempt L),
                 operations := bt_insert op (entry_running eff) (operations L),
                 in_flight_by_attempt := bt_insert a op (in_flight_by_attempt L)\<rparr>)))"

text \<open>Whether the ledger still waits for the given effect.\<close>

definition awaited :: "planned_effect \<Rightarrow> executor_ledger \<Rightarrow> bool" where
  "awaited eff L =
     (case map_of (operations L) (eff_operation eff) of
        None \<Rightarrow> False
      | Some entry \<Rightarrow> le_state entry = Running \<and> le_effect entry = eff)"

definition submit_unspawned :: "planned_effect \<Rightarrow> executor_ledger \<Rightarrow> executor_ledger" where
  "submit_unspawned eff L =
     (let op = eff_operation eff in
      L\<lparr>operations := (if awaited eff L then bt_remove op (operations L) else operations L),
        in_flight_by_attempt := release op (in_flight_by_attempt L),
        running_by_attempt := release op (running_by_attempt L)\<rparr>)"

text \<open>A whole submission on its own: \<open>spawn\<close> is the error of the spawner, or none.\<close>

definition submit_inner :: "string option \<Rightarrow> planned_effect \<Rightarrow> executor_ledger \<times> executor_result list
    \<Rightarrow> string option \<times> executor_ledger \<times> executor_result list" where
  "submit_inner spawn eff x =
     (case x of (L, results) \<Rightarrow>
      (case submit_ledger eff L of
         (Refused why, L') \<Rightarrow> (Some why, L', results)
       | (Replayed r, L') \<Rightarrow> (None, L', results @ [r])
       | (Accepted, L') \<Rightarrow> (None, L', results)
       | (Spawn, L') \<Rightarrow>
           (case spawn of
              None \<Rightarrow> (None, L', results)
            | Some e \<Rightarrow> (Some (''blocking effect submission failed: '' @ e), submit_unspawned eff L', results))))"

definition drain_results :: "executor_ledger \<times> executor_result list \<Rightarrow> executor_result list \<times> executor_ledger \<times> executor_result list" where
  "drain_results x = (case x of (L, results) \<Rightarrow> (results, L, []))"

definition expire :: "operation_id \<Rightarrow> string \<Rightarrow> executor_ledger \<Rightarrow> executor_result option \<times> executor_ledger" where
  "expire op why L =
     (case map_of (operations L) op of
        None \<Rightarrow> (None, L)
      | Some entry \<Rightarrow>
          if le_state entry = Completed then (None, L)
          else let r = \<lparr>er_node = eff_node (le_effect entry), er_operation = op,
                        er_result = Inl \<lparr>reason = why, ee_disposition = Ambiguous\<rparr>\<rparr> in
            (Some r, L\<lparr>operations := bt_insert op (entry_completed (le_effect entry) r) (operations L),
               in_flight_by_attempt := release op (in_flight_by_attempt L),
               queued_by_attempt := release op (queued_by_attempt L)\<rparr>))"

section \<open>Completion\<close>

datatype backend_reply = Panicked string | Returned "effect_error + operation_outcome"

fun kind_debug :: "operation_kind \<Rightarrow> string" where
  "kind_debug KCreateLease = ''CreateLease''"
| "kind_debug KLookupEndpoint = ''LookupEndpoint''"
| "kind_debug KStartBootstrap = ''StartBootstrap''"
| "kind_debug KBootstrapConvergenceObserved = ''BootstrapConvergenceObserved''"
| "kind_debug KCancelBootstrap = ''CancelBootstrap''"
| "kind_debug KDestroyLease = ''DestroyLease''"

definition definite :: "string \<Rightarrow> effect_error" where
  "definite why = \<lparr>reason = why, ee_disposition = Definite\<rparr>"

fun effect_result :: "planned_effect \<Rightarrow> backend_reply \<Rightarrow> executor_result" where
  "effect_result eff (Panicked why) =
     \<lparr>er_node = eff_node eff, er_operation = eff_operation eff, er_result = Inl (definite (''effect backend panicked: '' @ why))\<rparr>"
| "effect_result eff (Returned (Inl e)) = \<lparr>er_node = eff_node eff, er_operation = eff_operation eff, er_result = Inl e\<rparr>"
| "effect_result eff (Returned (Inr out)) =
     \<lparr>er_node = eff_node eff, er_operation = eff_operation eff,
      er_result = (if outcome_kind out = for_command (eff_command eff) then Inr out
        else Inl (definite (''executor returned '' @ kind_debug (outcome_kind out) @ '' for '' @ kind_debug (for_command (eff_command eff)))))\<rparr>"

fun resources_after :: "operation_outcome \<Rightarrow> attempt_resources \<Rightarrow> attempt_resources" where
  "resources_after (LeaseCreated _) r = r\<lparr>lease_live := True\<rparr>"
| "resources_after (BootstrapStarted _) r = r\<lparr>bootstrap_live := True\<rparr>"
| "resources_after BootstrapCancelled r = r\<lparr>bootstrap_live := False\<rparr>"
| "resources_after LeaseDestroyed r = r\<lparr>bootstrap_live := False, lease_live := False\<rparr>"
| "resources_after (EndpointLookup _) r = r"
| "resources_after BootstrapConvergenceAccepted r = r"

definition update_resources :: "u64 \<Rightarrow> operation_outcome \<Rightarrow> executor_ledger \<Rightarrow> executor_ledger" where
  "update_resources a out L = L\<lparr>resources := bt_insert a (resources_after out (attempt_resources_of a L)) (resources L)\<rparr>"

definition promote_queued :: "u64 \<Rightarrow> executor_ledger \<Rightarrow> planned_effect option \<times> executor_ledger" where
  "promote_queued a L =
     (case map_of (queued_by_attempt L) a of
        None \<Rightarrow> (None, L)
      | Some op \<Rightarrow>
          let L' = L\<lparr>queued_by_attempt := bt_remove a (queued_by_attempt L)\<rparr> in
          (case map_of (operations L) op of
             None \<Rightarrow> (None, L')
           | Some entry \<Rightarrow>
               if le_state entry \<noteq> Queued then (None, L')
               else (Some (le_effect entry), L'\<lparr>operations := bt_insert op (entry_running (le_effect entry)) (operations L)\<rparr>)))"

definition complete :: "planned_effect \<Rightarrow> executor_result \<Rightarrow> executor_ledger \<Rightarrow> executor_ledger" where
  "complete eff r L =
     (let L' = L\<lparr>operations := bt_insert (eff_operation eff) (entry_completed eff r) (operations L),
            in_flight_by_attempt := release (eff_operation eff) (in_flight_by_attempt L)\<rparr> in
      case er_result r of Inr out \<Rightarrow> update_resources (op_attempt (eff_operation eff)) out L' | Inl _ \<Rightarrow> L')"

definition finish_effect :: "planned_effect \<Rightarrow> backend_reply \<Rightarrow> executor_ledger
    \<Rightarrow> executor_result option \<times> planned_effect option \<times> executor_ledger" where
  "finish_effect eff reply L =
     (let op = eff_operation eff; r = effect_result eff reply; publish = awaited eff L;
          L1 = (if publish then complete eff r L else L);
          L2 = L1\<lparr>running_by_attempt := release op (running_by_attempt L1)\<rparr> in
      case promote_queued (op_attempt op) L2 of (nxt, L3) \<Rightarrow> (if publish then Some r else None, nxt, L3))"

definition record_spawn_failure :: "planned_effect \<Rightarrow> string \<Rightarrow> executor_ledger
    \<Rightarrow> executor_result option \<times> planned_effect option \<times> executor_ledger" where
  "record_spawn_failure eff why L =
     (let op = eff_operation eff; publish = awaited eff L;
          r = \<lparr>er_node = eff_node eff, er_operation = op, er_result = Inl (definite why)\<rparr>;
          L1 = L\<lparr>operations := (if publish then bt_insert op (entry_completed eff r) (operations L) else operations L),
            in_flight_by_attempt := release op (in_flight_by_attempt L),
            running_by_attempt := release op (running_by_attempt L)\<rparr> in
      case promote_queued (op_attempt op) L1 of (nxt, L2) \<Rightarrow> (if publish then Some r else None, nxt, L2))"

section \<open>Runs\<close>

text \<open>
  The executor with the threads around it: the effect whose submission has not yet reached the spawner, the work that
  runs, the promoted effects whose spawn is still to come, and, for the statements below, every effect the backend
  was started for and every result that was sent. A submission excludes other submissions and expiries, because it
  borrows the executor mutably; all else interleaves.
\<close>

record executor_world =
  ledger :: executor_ledger
  submitting :: "planned_effect option"
  works :: "planned_effect list"
  promoted :: "planned_effect list"
  started :: "planned_effect list"
  sent :: "executor_result list"

abbreviation of_option :: "'a option \<Rightarrow> 'a list" where
  "of_option x \<equiv> (case x of None \<Rightarrow> [] | Some y \<Rightarrow> [y])"

inductive executor_run :: "executor_world \<Rightarrow> bool" where
  start: "executor_run \<lparr>ledger = ledger_default, submitting = None, works = [], promoted = [], started = [], sent = []\<rparr>"
| submit: "executor_run w \<Longrightarrow> submitting w = None \<Longrightarrow> submit_ledger eff (ledger w) = (reply, L) \<Longrightarrow>
    executor_run (w\<lparr>ledger := L, submitting := (if reply = Spawn then Some eff else None),
      sent := sent w @ (case reply of Replayed r \<Rightarrow> [r] | _ \<Rightarrow> [])\<rparr>)"
| spawned: "executor_run w \<Longrightarrow> submitting w = Some eff \<Longrightarrow>
    executor_run (w\<lparr>submitting := None, works := works w @ [eff], started := started w @ [eff]\<rparr>)"
| unspawned: "executor_run w \<Longrightarrow> submitting w = Some eff \<Longrightarrow>
    executor_run (w\<lparr>ledger := submit_unspawned eff (ledger w), submitting := None\<rparr>)"
| expires: "executor_run w \<Longrightarrow> submitting w = None \<Longrightarrow> expire op why (ledger w) = (r, L) \<Longrightarrow>
    executor_run (w\<lparr>ledger := L, sent := sent w @ of_option r\<rparr>)"
| finished: "executor_run w \<Longrightarrow> eff \<in> set (works w) \<Longrightarrow> finish_effect eff reply (ledger w) = (r, nxt, L) \<Longrightarrow>
    executor_run (w\<lparr>ledger := L, works := remove1 eff (works w), promoted := promoted w @ of_option nxt,
      sent := sent w @ of_option r\<rparr>)"
| promoted_spawned: "executor_run w \<Longrightarrow> eff \<in> set (promoted w) \<Longrightarrow>
    executor_run (w\<lparr>promoted := remove1 eff (promoted w), works := works w @ [eff], started := started w @ [eff]\<rparr>)"
| promoted_unspawned: "executor_run w \<Longrightarrow> eff \<in> set (promoted w) \<Longrightarrow>
    record_spawn_failure eff why (ledger w) = (r, nxt, L) \<Longrightarrow>
    executor_run (w\<lparr>ledger := L, promoted := remove1 eff (promoted w) @ of_option nxt, sent := sent w @ of_option r\<rparr>)"


section \<open>What the ledger knows of the effects\<close>

definition entry_ok :: "planned_effect set \<Rightarrow> operation_id \<Rightarrow> ledger_entry \<Rightarrow> bool" where
  "entry_ok began op entry \<longleftrightarrow>
     eff_operation (le_effect entry) = op \<and>
     (case le_result entry of
        None \<Rightarrow> le_state entry \<noteq> Completed
      | Some r \<Rightarrow> le_state entry = Completed \<and> er_operation r = op \<and> er_node r = eff_node (le_effect entry) \<and>
          (\<forall>out. er_result r = Inr out \<longrightarrow> le_effect entry \<in> began \<and> outcome_kind out = for_command (eff_command (le_effect entry))))"

definition ledger_ok :: "(operation_id \<Rightarrow> ledger_entry option) \<Rightarrow> planned_effect option \<Rightarrow> planned_effect list \<Rightarrow> planned_effect set
    \<Rightarrow> executor_result list \<Rightarrow> bool" where
  "ledger_ok f sub known began snt \<longleftrightarrow>
     distinct (map eff_operation known) \<and>
     (\<forall>eff\<in>set known. \<exists>entry. f (eff_operation eff) = Some entry \<and> le_effect entry = eff \<and> le_state entry \<noteq> Queued) \<and>
     (\<forall>op entry. f op = Some entry \<longrightarrow> entry_ok began op entry) \<and>
     (\<forall>r\<in>set snt. \<exists>entry. f (er_operation r) = Some entry \<and> le_result entry = Some r) \<and>
     (\<forall>eff. sub = Some eff \<longrightarrow> f (eff_operation eff) = Some (entry_running eff))"

definition world_ok :: "executor_world \<Rightarrow> bool" where
  "world_ok w \<longleftrightarrow>
     set (works w) \<subseteq> set (started w) \<and>
     ledger_ok (map_of (operations (ledger w))) (submitting w) (of_option (submitting w) @ promoted w @ started w) (set (started w)) (sent w)"

lemmas entry_defs = entry_running_def entry_queued_def entry_completed_def

lemma ledger_okD:
  assumes "ledger_ok f sub known began snt"
  shows "distinct (map eff_operation known)"
    and "eff \<in> set known \<Longrightarrow> \<exists>entry. f (eff_operation eff) = Some entry \<and> le_effect entry = eff \<and> le_state entry \<noteq> Queued"
    and "f op = Some entry \<Longrightarrow> entry_ok began op entry"
    and "r \<in> set snt \<Longrightarrow> \<exists>entry. f (er_operation r) = Some entry \<and> le_result entry = Some r"
    and "sub = Some eff \<Longrightarrow> f (eff_operation eff) = Some (entry_running eff)"
  using assms by (simp_all add: ledger_ok_def)

lemma ok_unsent:
  assumes "ledger_ok f sub known began snt" and "f op = None \<or> (\<exists>entry. f op = Some entry \<and> le_state entry \<noteq> Completed)" and "r \<in> set snt"
  shows "er_operation r \<noteq> op"
proof
  assume "er_operation r = op"
  moreover obtain entry where "f (er_operation r) = Some entry" "le_result entry = Some r"
    using ledger_okD(4) [OF assms(1,3)] by blast
  ultimately show False
    using assms(2) ledger_okD(3) [OF assms(1), of op entry] by (auto simp: entry_ok_def)
qed

lemma ok_unknown:
  assumes "ledger_ok f sub known began snt" and "f op = None \<or> (\<exists>entry. f op = Some entry \<and> le_state entry = Queued)" and "eff \<in> set known"
  shows "eff_operation eff \<noteq> op"
  using ledger_okD(2) [OF assms(1,3)] assms(2) by auto

lemma ok_complete:
  assumes ok: "ledger_ok f sub known began snt" and entry: "f op = Some entry" "le_state entry \<noteq> Completed"
    and other: "\<And>eff. sub = Some eff \<Longrightarrow> eff_operation eff \<noteq> op"
    and r: "entry_ok began op (entry_completed (le_effect entry) r)"
  shows "ledger_ok (f(op \<mapsto> entry_completed (le_effect entry) r)) sub known began (snt @ [r])"
proof -
  have "er_operation x \<noteq> op" if "x \<in> set snt" for x
    using ok_unsent [OF ok _ that] entry by blast
  moreover have "le_effect entry = eff" if "eff \<in> set known" "eff_operation eff = op" for eff
    using ledger_okD(2) [OF ok that(1)] that(2) entry(1) by simp
  moreover have "er_operation r = op"
    using r by (simp add: entry_ok_def entry_completed_def)
  ultimately show ?thesis
    using ok other r by (simp add: ledger_ok_def) (simp add: entry_completed_def)
qed

text \<open>Adding or replacing an entry that neither the sent results nor the known effects refer to.\<close>

lemma ok_fresh:
  assumes ok: "ledger_ok f sub known began snt" and entry: "entry_ok began op entry"
    and free: "\<And>eff. eff \<in> set known \<Longrightarrow> eff_operation eff \<noteq> op" "\<And>r. r \<in> set snt \<Longrightarrow> er_operation r \<noteq> op"
      "\<And>eff. sub = Some eff \<Longrightarrow> eff_operation eff \<noteq> op"
  shows "ledger_ok (f(op \<mapsto> entry)) sub known began snt"
  unfolding ledger_ok_def
proof (intro conjI ballI allI impI)
  show "distinct (map eff_operation known)" by (rule ledger_okD(1) [OF ok])
  show "\<exists>e. (f(op \<mapsto> entry)) (eff_operation eff) = Some e \<and> le_effect e = eff \<and> le_state e \<noteq> Queued" if "eff \<in> set known" for eff
    using ledger_okD(2) [OF ok that] free(1) [OF that] by simp
  show "entry_ok began op' e" if "(f(op \<mapsto> entry)) op' = Some e" for op' e
    using that entry ledger_okD(3) [OF ok, of op' e] by (auto split: if_splits)
  show "\<exists>e. (f(op \<mapsto> entry)) (er_operation r) = Some e \<and> le_result e = Some r" if "r \<in> set snt" for r
    using ledger_okD(4) [OF ok that] free(2) [OF that] by simp
  show "(f(op \<mapsto> entry)) (eff_operation eff) = Some (entry_running eff)" if "sub = Some eff" for eff
    using ledger_okD(5) [OF ok that] free(3) [OF that] by simp
qed

lemma ok_add_known:
  assumes ok: "ledger_ok f sub known began snt" and entry: "f (eff_operation eff) = Some entry" "le_effect entry = eff" "le_state entry \<noteq> Queued"
    and free: "\<And>x. x \<in> set known \<Longrightarrow> eff_operation x \<noteq> eff_operation eff"
  shows "ledger_ok f sub (eff # known) began snt"
proof -
  have "eff_operation eff \<notin> eff_operation ` set known"
    using free by (metis imageE)
  then show ?thesis
    using ok entry by (simp add: ledger_ok_def)
qed

lemma ok_promote:
  assumes ok: "ledger_ok f sub known began snt" and entry: "f op = Some entry" "le_state entry = Queued"
  shows "ledger_ok (f(op \<mapsto> entry_running (le_effect entry))) sub (le_effect entry # known) began snt"
proof -
  have op: "eff_operation (le_effect entry) = op"
    using ledger_okD(3) [OF ok entry(1)] by (simp add: entry_ok_def)
  have free: "eff_operation eff \<noteq> op" if "eff \<in> set known" for eff
    using ok_unknown [OF ok _ that] entry by blast
  have "ledger_ok (f(op \<mapsto> entry_running (le_effect entry))) sub known began snt"
  proof (rule ok_fresh [OF ok _ free])
    show "entry_ok began op (entry_running (le_effect entry))"
      using op by (simp add: entry_ok_def entry_running_def)
    show "er_operation r \<noteq> op" if "r \<in> set snt" for r
      using ok_unsent [OF ok _ that, of op] entry by auto
    show "eff_operation eff \<noteq> op" if "sub = Some eff" for eff
      using ledger_okD(5) [OF ok that] entry by (auto simp: entry_running_def)
  qed
  then show ?thesis
    using op free by (intro ok_add_known [where entry = "entry_running (le_effect entry)"]) (simp_all add: entry_running_def)
qed

lemma ok_insert:
  assumes ok: "ledger_ok f None known began snt" and new: "f (eff_operation eff) = None"
  shows "ledger_ok (f(eff_operation eff \<mapsto> entry_running eff)) (Some eff) (eff # known) began snt"
    and "ledger_ok (f(eff_operation eff \<mapsto> entry_queued eff)) None known began snt"
proof -
  have free: "eff_operation x \<noteq> eff_operation eff" if "x \<in> set known" for x
    using ok_unknown [OF ok _ that] new by blast
  have unsent: "er_operation r \<noteq> eff_operation eff" if "r \<in> set snt" for r
    using ok_unsent [OF ok _ that] new by blast
  have running: "ledger_ok (f(eff_operation eff \<mapsto> entry_running eff)) None (eff # known) began snt"
    using free unsent by (intro ok_add_known [where entry = "entry_running eff"] ok_fresh [OF ok]) (simp_all add: entry_ok_def entry_running_def)
  then show "ledger_ok (f(eff_operation eff \<mapsto> entry_running eff)) (Some eff) (eff # known) began snt"
    by (simp add: ledger_ok_def)
  show "ledger_ok (f(eff_operation eff \<mapsto> entry_queued eff)) None known began snt"
    using free unsent by (intro ok_fresh [OF ok]) (simp_all add: entry_ok_def entry_queued_def)
qed

lemma ok_forget:
  assumes ok: "ledger_ok f (Some eff) (eff # known) began snt"
  shows "ledger_ok (f(eff_operation eff := None)) None known began snt"
  unfolding ledger_ok_def
proof (intro conjI ballI allI impI)
  show "distinct (map eff_operation known)"
    using ledger_okD(1) [OF ok] by simp
  show "\<exists>e. (f(eff_operation eff := None)) (eff_operation x) = Some e \<and> le_effect e = x \<and> le_state e \<noteq> Queued" if "x \<in> set known" for x
    using ledger_okD(1) [OF ok] ledger_okD(2) [OF ok, of x] that by (auto simp: image_iff)
  show "entry_ok began op e" if "(f(eff_operation eff := None)) op = Some e" for op e
    using that ledger_okD(3) [OF ok, of op e] by (auto split: if_splits)
  show "\<exists>e. (f(eff_operation eff := None)) (er_operation r) = Some e \<and> le_result e = Some r" if "r \<in> set snt" for r
    using ledger_okD(4) [OF ok that] ledger_okD(5) [OF ok, of eff] by (auto simp: entry_running_def)
qed simp

lemma ok_known:
  assumes ok: "ledger_ok f sub known began snt" and sub: "mset known' \<subseteq># mset known" "sub' = None \<or> sub' = sub" "began \<subseteq> began'"
  shows "ledger_ok f sub' known' began' snt"
proof -
  obtain zs where zs: "mset known = mset (known' @ zs)"
    using sub(1) by (metis ex_mset mset_append mset_subset_eq_exists_conv)
  then have "mset (map eff_operation known) = mset (map eff_operation (known' @ zs))"
    by (simp only: mset_map)
  then have "distinct (map eff_operation known')"
    using ledger_okD(1) [OF ok] mset_eq_imp_distinct_iff by fastforce
  moreover have "eff \<in> set known" if "eff \<in> set known'" for eff
    using that mset_eq_setD [OF zs] by simp
  moreover have "entry_ok began' op entry" if "f op = Some entry" for op entry
    using ledger_okD(3) [OF ok that] sub(3) by (auto simp: entry_ok_def split: option.splits)
  ultimately show ?thesis
    using ledger_okD(2,4,5) [OF ok] sub(2) by (auto simp: ledger_ok_def)
qed

section \<open>Steps of a run\<close>

lemma promote_ok:
  assumes "promote_queued a L = (nxt, L')" and ok: "ledger_ok (map_of (operations L)) sub known began snt"
  shows "ledger_ok (map_of (operations L')) sub (of_option nxt @ known) began snt"
proof (cases "map_of (queued_by_attempt L) a")
  case None
  then show ?thesis using assms by (simp add: promote_queued_def)
next
  case (Some op)
  show ?thesis
  proof (cases "\<exists>entry. map_of (operations L) op = Some entry \<and> le_state entry = Queued")
    case True
    then obtain entry where entry: "map_of (operations L) op = Some entry" "le_state entry = Queued" by blast
    then have "nxt = Some (le_effect entry)" "map_of (operations L') = (map_of (operations L))(op \<mapsto> entry_running (le_effect entry))"
      using assms(1) Some by (auto simp: promote_queued_def Let_def)
    then show ?thesis using ok_promote [OF ok entry] by simp
  next
    case False
    then have "nxt = None" "operations L' = operations L"
      using assms(1) Some by (auto simp: promote_queued_def Let_def split: option.splits if_splits)
    then show ?thesis using ok by simp
  qed
qed

lemma completed_ok:
  assumes ok: "ledger_ok (map_of (operations L)) sub known began snt" and awaited: "awaited eff L"
    and other: "\<And>x. sub = Some x \<Longrightarrow> eff_operation x \<noteq> eff_operation eff"
    and r: "er_operation r = eff_operation eff" "er_node r = eff_node eff"
      "\<And>out. er_result r = Inr out \<Longrightarrow> eff \<in> began \<and> outcome_kind out = for_command (eff_command eff)"
  shows "ledger_ok ((map_of (operations L))(eff_operation eff \<mapsto> entry_completed eff r)) sub known began (snt @ [r])"
proof -
  obtain entry where entry: "map_of (operations L) (eff_operation eff) = Some entry" "le_state entry = Running" "le_effect entry = eff"
    using awaited by (auto simp: awaited_def split: option.splits)
  have "entry_ok began (eff_operation eff) (entry_completed eff r)"
    using r by (simp add: entry_ok_def entry_completed_def)
  then show ?thesis
    using ok_complete [OF ok entry(1) _ other, of r] entry by simp
qed

lemma effect_result_fits:
  "er_operation (effect_result eff reply) = eff_operation eff" "er_node (effect_result eff reply) = eff_node eff"
  "er_result (effect_result eff reply) = Inr out \<Longrightarrow> outcome_kind out = for_command (eff_command eff)"
  by (cases "(eff, reply)" rule: effect_result.cases; simp split: if_splits)+

lemma complete_operations: "operations (complete eff r L) = bt_insert (eff_operation eff) (entry_completed eff r) (operations L)"
  by (simp add: complete_def update_resources_def Let_def split: sum.split)

lemma finish_ok:
  assumes fin: "finish_effect eff reply L = (r, nxt, L')" and ok: "ledger_ok (map_of (operations L)) sub known began snt" and "eff \<in> began"
    and other: "\<And>x. sub = Some x \<Longrightarrow> eff_operation x \<noteq> eff_operation eff"
  shows "ledger_ok (map_of (operations L')) sub (of_option nxt @ known) began (snt @ of_option r)"
proof (cases "awaited eff L")
  case True
  let ?r = "effect_result eff reply"
  have "ledger_ok ((map_of (operations L))(eff_operation eff \<mapsto> entry_completed eff ?r)) sub known began (snt @ [?r])"
    using completed_ok [OF ok True other] effect_result_fits assms(3) by blast
  then show ?thesis
    using fin True promote_ok by (fastforce simp: finish_effect_def complete_operations Let_def split: prod.splits)
next
  case False
  then show ?thesis
    using fin ok promote_ok by (fastforce simp: finish_effect_def Let_def split: prod.splits)
qed

lemma spawn_failure_ok:
  assumes fin: "record_spawn_failure eff why L = (r, nxt, L')" and ok: "ledger_ok (map_of (operations L)) sub known began snt"
    and other: "\<And>x. sub = Some x \<Longrightarrow> eff_operation x \<noteq> eff_operation eff"
  shows "ledger_ok (map_of (operations L')) sub (of_option nxt @ known) began (snt @ of_option r)"
proof (cases "awaited eff L")
  case True
  let ?r = "\<lparr>er_node = eff_node eff, er_operation = eff_operation eff, er_result = Inl (definite why)\<rparr>"
  have "ledger_ok ((map_of (operations L))(eff_operation eff \<mapsto> entry_completed eff ?r)) sub known began (snt @ [?r])"
    by (rule completed_ok [OF ok True other]) simp_all
  then show ?thesis
    using fin True promote_ok by (fastforce simp: record_spawn_failure_def Let_def split: prod.splits)
next
  case False
  then show ?thesis
    using fin ok promote_ok by (fastforce simp: record_spawn_failure_def Let_def split: prod.splits)
qed

lemma expire_ok:
  assumes exp: "expire op why L = (r, L')" and ok: "ledger_ok (map_of (operations L)) None known began snt"
  shows "ledger_ok (map_of (operations L')) None known began (snt @ of_option r)"
proof (cases "\<exists>entry. map_of (operations L) op = Some entry \<and> le_state entry \<noteq> Completed")
  case True
  then obtain entry where entry: "map_of (operations L) op = Some entry" "le_state entry \<noteq> Completed" by blast
  let ?r = "\<lparr>er_node = eff_node (le_effect entry), er_operation = op, er_result = Inl \<lparr>reason = why, ee_disposition = Ambiguous\<rparr>\<rparr>"
  have "entry_ok began op (entry_completed (le_effect entry) ?r)"
    using ledger_okD(3) [OF ok entry(1)] by (simp add: entry_ok_def entry_completed_def)
  then show ?thesis
    using ok_complete [OF ok entry, of ?r] exp entry by (auto simp: expire_def Let_def)
next
  case False
  then show ?thesis
    using exp ok by (auto simp: expire_def split: option.splits)
qed

lemma submit_ok:
  assumes sub: "submit_ledger eff L = (reply, L')" and ok: "ledger_ok (map_of (operations L)) None known began snt"
  shows "ledger_ok (map_of (operations L')) (if reply = Spawn then Some eff else None) (of_option (if reply = Spawn then Some eff else None) @ known)
    began (snt @ (case reply of Replayed r \<Rightarrow> [r] | _ \<Rightarrow> []))"
proof (cases "map_of (operations L) (eff_operation eff)")
  case None
  then show ?thesis
    using sub ok ok_insert [OF ok None] by (auto simp: submit_ledger_def Let_def split: option.splits if_splits)
next
  case (Some entry)
  then have "L' = L" "reply \<noteq> Spawn" and replay: "\<And>r. reply = Replayed r \<Longrightarrow> le_result entry = Some r"
    using sub by (auto simp: submit_ledger_def Let_def split: option.splits if_splits)
  moreover have "er_operation r = eff_operation eff" if "reply = Replayed r" for r
    using ledger_okD(3) [OF ok Some] replay [OF that] by (simp add: entry_ok_def)
  ultimately show ?thesis
    using ok Some by (auto simp: ledger_ok_def split: submit_reply.splits)
qed

lemma executor_run_ok: "executor_run w \<Longrightarrow> world_ok w"
proof (induction rule: executor_run.induct)
  case start
  then show ?case by (simp add: world_ok_def ledger_ok_def ledger_default_def)
next
  case (submit w eff reply L)
  then show ?case using submit_ok [OF submit.hyps(3)] by (simp add: world_ok_def)
next
  case (spawned w eff)
  then have "ledger_ok (map_of (operations (ledger w))) (Some eff) (eff # promoted w @ started w) (set (started w)) (sent w)"
    by (simp add: world_ok_def)
  then have "ledger_ok (map_of (operations (ledger w))) None (promoted w @ started w @ [eff]) (set (started w @ [eff])) (sent w)"
    by (rule ok_known) (simp_all add: subset_insertI)
  then show ?case using spawned by (auto simp: world_ok_def)
next
  case (unspawned w eff)
  then have ok: "ledger_ok (map_of (operations (ledger w))) (Some eff) (eff # promoted w @ started w) (set (started w)) (sent w)"
    by (simp add: world_ok_def)
  have "awaited eff (ledger w)"
    using ledger_okD(5) [OF ok] by (simp add: awaited_def entry_running_def)
  then show ?case
    using ok_forget [OF ok] unspawned by (simp add: world_ok_def submit_unspawned_def Let_def)
next
  case (expires w op why r L)
  then show ?case using expire_ok [OF expires.hyps(3)] by (simp add: world_ok_def)
next
  case (finished w eff reply r nxt L)
  let ?known = "of_option (submitting w) @ promoted w @ started w"
  have ok: "ledger_ok (map_of (operations (ledger w))) (submitting w) ?known (set (started w)) (sent w)" and began: "eff \<in> set (started w)"
    using finished by (auto simp: world_ok_def)
  have other: "eff_operation x \<noteq> eff_operation eff" if "submitting w = Some x" for x
    using ledger_okD(1) [OF ok] that began by (auto simp: image_iff)
  have "ledger_ok (map_of (operations L)) (submitting w) (of_option (submitting w) @ (promoted w @ of_option nxt) @ started w) (set (started w)) (sent w @ of_option r)"
    using finish_ok [OF finished.hyps(3) ok began other] by (rule ok_known) (simp_all add: ac_simps)
  then show ?case
    using finished.IH set_remove1_subset [of eff "works w"] by (auto simp: world_ok_def)
next
  case (promoted_spawned w eff)
  have split: "mset (promoted w) = {#eff#} + mset (remove1 eff (promoted w))"
    using promoted_spawned.hyps(2) by simp
  have "ledger_ok (map_of (operations (ledger w))) (submitting w) (of_option (submitting w) @ promoted w @ started w) (set (started w)) (sent w)"
    using promoted_spawned.IH by (simp add: world_ok_def)
  then have "ledger_ok (map_of (operations (ledger w))) (submitting w) (of_option (submitting w) @ remove1 eff (promoted w) @ started w @ [eff])
      (set (started w @ [eff])) (sent w)"
    by (rule ok_known) (use split in \<open>simp_all add: ac_simps del: mset_remove1\<close>, auto)
  then show ?case using promoted_spawned by (auto simp: world_ok_def)
next
  case (promoted_unspawned w eff why r nxt L)
  let ?known = "of_option (submitting w) @ promoted w @ started w"
  have split: "mset (promoted w) = {#eff#} + mset (remove1 eff (promoted w))"
    using promoted_unspawned.hyps(2) by simp
  have ok: "ledger_ok (map_of (operations (ledger w))) (submitting w) ?known (set (started w)) (sent w)"
    using promoted_unspawned by (simp add: world_ok_def)
  have other: "eff_operation x \<noteq> eff_operation eff" if "submitting w = Some x" for x
    using ledger_okD(1) [OF ok] that promoted_unspawned.hyps(2) by (auto simp: image_iff)
  have "ledger_ok (map_of (operations L)) (submitting w) (of_option (submitting w) @ (remove1 eff (promoted w) @ of_option nxt) @ started w)
      (set (started w)) (sent w @ of_option r)"
    using spawn_failure_ok [OF promoted_unspawned.hyps(3) ok other]
    by (rule ok_known) (use split in \<open>simp_all add: ac_simps del: mset_remove1\<close>)
  then show ?case using promoted_unspawned.IH by (simp add: world_ok_def)
qed

section \<open>Deduplication\<close>

text \<open>An operation that expires while it runs, the retry queued behind it and promoted when it ends, and a further
  retry after the promoted one has expired too.\<close>

definition sample_world :: "executor_ledger \<Rightarrow> planned_effect option \<Rightarrow> planned_effect list \<Rightarrow> planned_effect list \<Rightarrow> planned_effect list
    \<Rightarrow> executor_result list \<Rightarrow> executor_world" where
  "sample_world L sub ws pr st snt = \<lparr>ledger = L, submitting = sub, works = ws, promoted = pr, started = st, sent = snt\<rparr>"

definition sample_expired :: "u64 \<Rightarrow> executor_result" where
  "sample_expired sq = \<lparr>er_node = ''g-0'', er_operation = OperationId 1 sq, er_result = Inl \<lparr>reason = ''late'', ee_disposition = Ambiguous\<rparr>\<rparr>"

lemma sample_create_fields [simp]:
  "eff_node (sample_create sq) = ''g-0''" "eff_operation (sample_create sq) = OperationId 1 sq"
  "eff_command (sample_create sq) = CreateLease sample_spec" "sample_create sq = sample_create sq' \<longleftrightarrow> sq = sq'"
  by (simp_all add: sample_create_def)

definition sample_ledger :: "ledger_entry list \<Rightarrow> u64 option \<Rightarrow> u64 option \<Rightarrow> u64 option \<Rightarrow> executor_ledger" where
  "sample_ledger entries fl run que =
     (let index = (\<lambda>x. map (\<lambda>sq. (1, OperationId 1 sq)) (of_option x)) in
      \<lparr>operations = map (\<lambda>e. (eff_operation (le_effect e), e)) entries, in_flight_by_attempt = index fl,
       running_by_attempt = index run, queued_by_attempt = index que, resources = []\<rparr>)"

lemmas ledger_eval = sample_ledger_def submit_ledger_def expire_def finish_effect_def promote_queued_def awaited_def release_def Let_def
  entry_defs less_operation_id_def sample_expired_def bt_remove_def ledger_default_def

lemma sample_ledger_steps:
  "submit_ledger (sample_create 1) ledger_default = (Spawn, sample_ledger [entry_running (sample_create 1)] (Some 1) (Some 1) None)"
  "expire (OperationId 1 1) ''late'' (sample_ledger [entry_running (sample_create 1)] (Some 1) (Some 1) None) =
     (Some (sample_expired 1), sample_ledger [entry_completed (sample_create 1) (sample_expired 1)] None (Some 1) None)"
  "submit_ledger (sample_create 2) (sample_ledger [entry_completed (sample_create 1) (sample_expired 1)] None (Some 1) None) =
     (Accepted, sample_ledger [entry_completed (sample_create 1) (sample_expired 1), entry_queued (sample_create 2)] (Some 2) (Some 1) (Some 2))"
  "finish_effect (sample_create 1) reply
      (sample_ledger [entry_completed (sample_create 1) (sample_expired 1), entry_queued (sample_create 2)] (Some 2) (Some 1) (Some 2)) =
     (None, Some (sample_create 2),
      sample_ledger [entry_completed (sample_create 1) (sample_expired 1), entry_running (sample_create 2)] (Some 2) None None)"
  "expire (OperationId 1 2) ''late'' (sample_ledger [entry_completed (sample_create 1) (sample_expired 1), entry_running (sample_create 2)] (Some 2) None None) =
     (Some (sample_expired 2),
      sample_ledger [entry_completed (sample_create 1) (sample_expired 1), entry_completed (sample_create 2) (sample_expired 2)] None None None)"
  "submit_ledger (sample_create 3)
      (sample_ledger [entry_completed (sample_create 1) (sample_expired 1), entry_completed (sample_create 2) (sample_expired 2)] None None None) =
     (Spawn, sample_ledger [entry_completed (sample_create 1) (sample_expired 1), entry_completed (sample_create 2) (sample_expired 2),
        entry_running (sample_create 3)] (Some 3) (Some 3) None)"
  by (simp_all add: ledger_eval)

lemma overlap_run:
  "\<exists>L. executor_run (sample_world L None [sample_create 2, sample_create 3] [] [sample_create 1, sample_create 2, sample_create 3]
     [sample_expired 1, sample_expired 2])"
proof -
  let ?c = sample_create and ?x = sample_expired
  note steps = sample_ledger_steps
  have "executor_run (sample_world ledger_default None [] [] [] [])"
    using executor_run.start by (simp add: sample_world_def)
  from executor_run.submit [OF this _, of "?c 1"] steps(1)
  have "executor_run (sample_world (snd (submit_ledger (?c 1) ledger_default)) (Some (?c 1)) [] [] [] [])"
    by (simp add: sample_world_def)
  from executor_run.spawned [OF this, of "?c 1"] steps(1)
  have "executor_run (sample_world (sample_ledger [entry_running (?c 1)] (Some 1) (Some 1) None) None [?c 1] [] [?c 1] [])"
    by (simp add: sample_world_def)
  from executor_run.expires [OF this, of "OperationId 1 1" "''late''"] steps(2)
  have "executor_run (sample_world (sample_ledger [entry_completed (?c 1) (?x 1)] None (Some 1) None) None [?c 1] [] [?c 1] [?x 1])"
    by (simp add: sample_world_def)
  from executor_run.submit [OF this, of "?c 2"] steps(3)
  have "executor_run (sample_world (sample_ledger [entry_completed (?c 1) (?x 1), entry_queued (?c 2)] (Some 2) (Some 1) (Some 2)) None [?c 1] [] [?c 1] [?x 1])"
    by (simp add: sample_world_def)
  from executor_run.finished [OF this, of "?c 1" "Panicked []"] steps(4)
  have "executor_run (sample_world (sample_ledger [entry_completed (?c 1) (?x 1), entry_running (?c 2)] (Some 2) None None) None [] [?c 2] [?c 1] [?x 1])"
    by (simp add: sample_world_def)
  from executor_run.promoted_spawned [OF this, of "?c 2"]
  have "executor_run (sample_world (sample_ledger [entry_completed (?c 1) (?x 1), entry_running (?c 2)] (Some 2) None None) None [?c 2] [] [?c 1, ?c 2] [?x 1])"
    by (simp add: sample_world_def)
  from executor_run.expires [OF this, of "OperationId 1 2" "''late''"] steps(5)
  have "executor_run (sample_world (sample_ledger [entry_completed (?c 1) (?x 1), entry_completed (?c 2) (?x 2)] None None None) None
      [?c 2] [] [?c 1, ?c 2] [?x 1, ?x 2])"
    by (simp add: sample_world_def)
  from executor_run.submit [OF this, of "?c 3"] steps(6)
  obtain L where "executor_run (sample_world L (Some (?c 3)) [?c 2] [] [?c 1, ?c 2] [?x 1, ?x 2])"
    by (simp add: sample_world_def)
  from executor_run.spawned [OF this, of "?c 3"] show ?thesis
    by (intro exI) (simp add: sample_world_def)
qed

text \<open>C30. Every operation runs at most once and has one answer. However submissions, expiries, completions, panics and
  failed spawns interleave, the backend is started at most once for an operation identifier; all results ever sent for
  an identifier are the same, so that a late completion never contradicts an expiry; and a success is sent only for an
  operation whose backend was started, under the node of its effect and with an outcome of the kind that its command
  asks for.\<close>

theorem effects_run_once:
  assumes "executor_run w"
  shows "distinct (map eff_operation (started w)) \<and>
    (\<forall>r\<in>set (sent w). \<forall>r'\<in>set (sent w). er_operation r = er_operation r' \<longrightarrow> r = r') \<and>
    (\<forall>r\<in>set (sent w). \<forall>out. er_result r = Inr out \<longrightarrow>
      (\<exists>eff\<in>set (started w). eff_operation eff = er_operation r \<and> eff_node eff = er_node r \<and> outcome_kind out = for_command (eff_command eff)))"
proof -
  have ok: "ledger_ok (map_of (operations (ledger w))) (submitting w) (of_option (submitting w) @ promoted w @ started w) (set (started w)) (sent w)"
    using executor_run_ok [OF assms] by (simp add: world_ok_def)
  have once: "distinct (map eff_operation (started w))"
    using ledger_okD(1) [OF ok] by simp
  have same: "r = r'" if "r \<in> set (sent w)" "r' \<in> set (sent w)" "er_operation r = er_operation r'" for r r'
    using ledger_okD(4) [OF ok that(1)] ledger_okD(4) [OF ok that(2)] that(3) by auto
  have began: "\<exists>eff\<in>set (started w). eff_operation eff = er_operation r \<and> eff_node eff = er_node r \<and> outcome_kind out = for_command (eff_command eff)"
    if r: "r \<in> set (sent w)" "er_result r = Inr out" for r out
  proof -
    obtain entry where entry: "map_of (operations (ledger w)) (er_operation r) = Some entry" "le_result entry = Some r"
      using ledger_okD(4) [OF ok r(1)] by blast
    then show ?thesis
      using ledger_okD(3) [OF ok entry(1)] r(2) by (auto simp: entry_ok_def)
  qed
  show ?thesis using once same began by blast
qed

theorem effects_run_once_witness:
  "\<exists>w. executor_run w \<and> started w = [sample_create 1, sample_create 2, sample_create 3] \<and> distinct (map eff_operation (started w))"
proof -
  obtain L where "executor_run (sample_world L None [sample_create 2, sample_create 3] [] [sample_create 1, sample_create 2, sample_create 3]
     [sample_expired 1, sample_expired 2])"
    using overlap_run by blast
  from this effects_run_once [OF this] show ?thesis
    by (intro exI [of _ "sample_world L None [sample_create 2, sample_create 3] [] [sample_create 1, sample_create 2, sample_create 3]
     [sample_expired 1, sample_expired 2]"]) (simp add: sample_world_def)
qed

text \<open>C31. Two operations of one attempt can run at the same time. Promoting a queued operation does not record it as the
  running one of its attempt, so when the promoted operation expires as well, the next submission finds nothing running
  and is spawned beside it.\<close>

theorem promoted_operation_is_overlapped:
  "\<exists>w eff eff'. executor_run w \<and> works w = [eff, eff'] \<and> eff_operation eff \<noteq> eff_operation eff' \<and>
     op_attempt (eff_operation eff) = op_attempt (eff_operation eff')"
proof -
  obtain L where "executor_run (sample_world L None [sample_create 2, sample_create 3] [] [sample_create 1, sample_create 2, sample_create 3]
     [sample_expired 1, sample_expired 2])"
    using overlap_run by blast
  then show ?thesis
    by (intro exI [of _ "sample_world L None [sample_create 2, sample_create 3] [] [sample_create 1, sample_create 2, sample_create 3]
     [sample_expired 1, sample_expired 2]"] exI [of _ "sample_create 2"] exI [of _ "sample_create 3"]) (simp add: sample_world_def)
qed

end
