(* ===== verification/Spec2Isabelle.thy ===== *)
theory Spec2Isabelle
  imports Hybrid_Channel Confinement Runtime_Requests Swim_Detection Location_Cache Node_Metadata Actor_Directory
    Node_Identity Arena Object_Record Data_Path Lease_Tracking Effect_Executor
begin

text \<open>
  A verification development of swactor: an actor runtime, a distribution layer that turns runtimes into a
  cluster, a data plane that moves bulk data between them, and the provisioning that rents the machines. Paths below are relative to the repository.

  \<^bold>\<open>The program.\<close> A runtime (\<open>src\<close>) has workers; each owns a pool of actors and drains three queues (spawns,
  transferred messages, administration) in passes. Handles and actors route messages through a shared map from
  addresses to workers. The standard extension adds names, watches and groups. The distribution layer
  (\<open>crates/distribution\<close>) is a set of actors on such a runtime: SWIM decides which nodes are alive and notifies
  the others, the registry maps names to actors, the metadata actor spreads relay URLs, the directory maps actors
  to nodes and publishes the routes that the egress (\<open>transport_bridge.rs\<close>, \<open>crates/transport\<close>) uses. The data
  plane (\<open>crates/data-plane\<close>) leases rings out of an arena, frames objects on them and authorises paths. The
  provisioner (\<open>crates/provisioning\<close>) compares the shape a run asks for with what it has observed of each node and
  submits one operation per node at a time to an executor, until the cluster is as asked.

  \<^bold>\<open>Runtime.\<close>
  \<^item> \<open>Prelude\<close>: machine integers, identifiers, the models of the standard maps and sets.
  \<^item> \<open>Hybrid_Channel\<close> (\<open>src/channel.rs\<close>): the ring with its overflow queue is a first-in first-out queue, for every
    pair of queues that meets the locale \<open>crossbeam\<close>. All other theories use channels as lists.
  \<^item> \<open>Actor_Types\<close>, \<open>Std_Registries\<close>, \<open>Delivery\<close>, \<open>Context\<close> (\<open>src/actor.rs\<close>, \<open>src/std\<close>, \<open>src/delivery.rs\<close>): values,
    registries with their agreement invariants, the shared state and routing, what a callback can call.
  \<^item> \<open>Actor_Pool\<close>, \<open>Lifecycle\<close> (\<open>src/worker.rs\<close>): the actors of a worker, fairness and order of message processing,
    the order of callbacks, exact cleanup.
  \<^item> \<open>Worker\<close>, \<open>Worker_Passes\<close> (\<open>src/worker.rs\<close>): a whole pass; nothing lost or reordered in the drains, exactly
    when they return, no lost wakeups.
  \<^item> \<open>Tick_Invariants\<close>, \<open>Placement\<close>: the locale that lifts facts from calls to passes, and the invariant that
    every address lives in one place.
  \<^item> \<open>Runtime_Host\<close>, \<open>Runtime_Runs\<close>, \<open>Runtime_Requests\<close> (\<open>src/runtime.rs\<close>, \<open>src/admin.rs\<close>): handles, hosts and runs;
    one home per actor, addresses never reused, a quiet host is idle.
  \<^item> \<open>Confinement\<close>: what a capability set keeps an actor from doing.

  \<^bold>\<open>Distribution.\<close>
  \<^item> \<open>Gossip_Laws\<close>: the locales \<open>lww_register\<close> (keyed values, the highest rank wins) and \<open>budget_queue\<close> (entries sent a
    fixed number of times). The member list, the registry, the metadata and the directory interpret the first,
    the piggyback queue and the pending lists the second; convergence and exact budgets are proved once.
  \<^item> \<open>Swim_Members\<close>, \<open>Swim_Dissemination\<close>, \<open>Swim_Probe\<close>, \<open>Swim_Node\<close>, \<open>Swim_Actor\<close> (\<open>swim/*.rs\<close>): the protocol from
    the member list to the actor; convergence, refutation, no death without an overdue suspicion, exact
    notifications. \<open>Swim_Detection\<close>: a silent member is declared dead within a bounded time.
  \<^item> \<open>Gossip_Tables\<close>, \<open>Cluster_Registry\<close>, \<open>Registry_Actor\<close> (\<open>registry.rs\<close>, \<open>registry_actor.rs\<close>): convergence, effect of
    local writes, withdrawal of a dead node's names, synchronisation; the tie and the overflow that break them.
  \<^item> \<open>Node_Metadata\<close> (\<open>node_metadata.rs\<close>, \<open>node_metadata_actor.rs\<close>), \<open>Location_Cache\<close> (\<open>cache.rs\<close>).
  \<^item> \<open>Transport_Bridge\<close>, \<open>Actor_Directory\<close> (\<open>transport_bridge.rs\<close>, \<open>directory_actor.rs\<close>): locations are the newest
    verified claims, routes are those of reachable hosts, and a claim on a peer's address takes over its route.
  \<^item> \<open>Node_Identity\<close> (\<open>crates/transport/src/identity.rs\<close>): hexadecimal and base58 round trips.

  \<^bold>\<open>Data plane.\<close>
  \<^item> \<open>Arena\<close> (\<open>arena.rs\<close>): live rings and free ranges partition the reservation; an idle arena is whole.
  \<^item> \<open>Object_Record\<close> (\<open>object_record.rs\<close>): framing round trip, incremental reading, canonical headers.
  \<^item> \<open>Data_Path\<close> (\<open>path.rs\<close>): string prefixes are segment prefixes, resolution is total.

  \<^bold>\<open>Provisioning.\<close>
  \<^item> \<open>Provision_Node\<close> (\<open>node.rs\<close>), \<open>Reconciler\<close>, \<open>Cluster_Driver\<close> (\<open>reconciler.rs\<close>): the facts of a node, the decision
    for a node, the plan, the folding of observations with failures and back-off, and the driver.
  \<^item> \<open>Shape_Expansion\<close>: which shapes expand, and to what. \<open>Driver_Pass\<close>: what one pass does to each slot, for every
    executor. \<open>Driver_Runs\<close>: runs of the driver, the typing of its nodes, operation identifiers never issued twice,
    and a small cluster whose states instantiate the theorems.
  \<^item> \<open>Driver_Progress\<close>: the loop of passes ends against every executor, a converged cluster is settled, a cancelled
    bootstrap strands its node. \<open>Lease_Tracking\<close>: with a provider that keeps its documented contract every lease has a
    node that answers for it, and the refusal that breaks this.
  \<^item> \<open>Effect_Executor\<close> (\<open>executor.rs\<close>): the ledger of operations under interleaved threads; every operation runs at
    most once and has one answer, but a promoted operation can be overlapped by the next.

  \<^bold>\<open>State, effects and time.\<close> State is a record passed explicitly; an operation under a lock is one function; the
  effects of an actor are returned as a list in the order of the code. Panics and early returns are values of an
  option or sum type. Code outside the repository is an argument: the \<open>crossbeam\<close> queues, the remote sink and the
  random source (record \<open>net\<close>), the JSON codecs, Ed25519. Instants and durations are natural numbers. Counters,
  generations and offsets are words of their width; arithmetic that is unchecked in the source wraps, as in a
  release build.

  \<^bold>\<open>Bounds and loops.\<close> No definition uses fuel. The two drains of retained items, which can run forever, are
  \<open>partial_function\<close>s into options, and it is proved exactly when they return; so is the driver's loop of passes,
  proved to return while the clock leaves room for the longest delay. All other loops are total
  functions. The carries of the base58 loops are natural numbers and proved to stay below 32 bits. The
  floating-point logarithm of the transmit budgets is the exact integer one.

  \<^bold>\<open>Not modelled.\<close> Threads: passes and calls are atomic, so overlapping passes of different workers are covered only
  as far as they are equivalent to some order of them. The codec registry (type erasure over a third-party
  serialiser), keys and key files, the peer allow-list, wiring, snapshots and telemetry of the distribution
  layer. In the data plane the edges, the namespace, blobs and the host are still to be done; the byte rings and
  mappings use atomics on shared memory, whose ordering a model by pure functions does not capture. The engine,
  the network driver, process supervision, paid admission, SSH bootstrap, provider plugins, telemetry, dashboard,
  language bindings, the Myelin application and the tools are I/O, applications or tooling around what is modelled,
  or not yet done; the manifest lists them one by one.
\<close>

end
